(* ===== verification/OS_Prelude.thy ===== *)
theory OS_Prelude
  imports Main "HOL-Library.Word"
begin

text \<open>
  Shared by every component: the machine types of the AArch64 C and assembly the kernel is
  written in, the outcomes of an operation that may have no defined result, the memory the
  kernel's loads and stores act on, and page arithmetic on 64-bit addresses.

  Memory is a map from the byte address of a doubleword to its value. Every access the
  kernel makes to its own data is a doubleword at a multiple of 8, or an \<open>int\<close> in the
  low half of one (\<open>ld32\<close>, \<open>st32\<close>); the 32-bit device registers are not
  memory and live in the theory \<open>Mini_Uart\<close>.
\<close>

unbundle bit_operations_syntax

named_theorems layout_defs \<open>constants and offsets of the headers, unfolded to numerals\<close>
named_theorems field_defs \<open>field reads and writes, unfolded to memory accesses\<close>

section \<open>Machine types\<close>

type_synonym u8 = "8 word"
type_synonym u16 = "16 word"
type_synonym u32 = "32 word"
type_synonym u64 = "64 word"
type_synonym addr = "64 word"
type_synonym memory = "64 word \<Rightarrow> 64 word"

section \<open>Outcomes\<close>

text \<open>
  What the source leaves undefined is a value: an array index past the end, and a memory
  access the MMU refuses (with the address that faulted).
\<close>

datatype fault =
    Out_Of_Bounds
  | Translation_Fault addr

definition res_bind :: "fault + 'a \<Rightarrow> ('a \<Rightarrow> fault + 'b) \<Rightarrow> fault + 'b" where
  "res_bind r f = (case r of Inl e \<Rightarrow> Inl e | Inr x \<Rightarrow> f x)"

lemma res_bind_simps [simp]:
  "res_bind (Inl e) f = Inl e"
  "res_bind (Inr x) f = f x"
  by (simp_all add: res_bind_def)

lemma res_bind_InrE [elim!]:
  assumes "res_bind r f = Inr y"
  obtains x where "r = Inr x" and "f x = Inr y"
  using assms by (cases r) auto

section \<open>Signed readings\<close>

lemma sint_eq_unat:
  fixes x :: "'a::len word"
  assumes "unat x < 2 ^ (LENGTH('a) - 1)"
  shows "sint x = int (unat x)"
proof -
  have "uint x < 2 ^ (LENGTH('a) - 1)"
    using assms by (simp add: nat_less_iff flip: nat_uint_eq)
  then have "signed_take_bit (LENGTH('a) - Suc 0) (uint x) = uint x"
    by (intro signed_take_bit_int_eq_self) (auto intro: order_trans [OF _ uint_ge_0])
  then show ?thesis by (simp add: sint_uint)
qed

lemma unat_word_of_int:
  assumes "0 \<le> k" "k < 2 ^ LENGTH('a::len)"
  shows "unat (word_of_int k :: 'a word) = nat k"
  using assms by (simp add: unat_eq_nat_uint uint_word_of_int)

section \<open>32-bit accesses to the low half of a doubleword\<close>

definition ld32 :: "memory \<Rightarrow> addr \<Rightarrow> u32" where
  "ld32 m a = ucast (m a)"

definition st32 :: "addr \<Rightarrow> u32 \<Rightarrow> memory \<Rightarrow> memory" where
  "st32 a v m = m(a := (m a AND NOT (mask 32)) OR ucast v)"

lemma ld32_st32_same [simp]: "ld32 (st32 a v m) a = v"
  unfolding ld32_def st32_def by (rule bit_word_eqI) (simp add: bit_simps)

lemma st32_other [simp]: "b \<noteq> a \<Longrightarrow> st32 a v m b = m b"
  by (simp add: st32_def)

lemma ld32_other [simp]: "b \<noteq> a \<Longrightarrow> ld32 (m(a := w)) b = ld32 m b"
  by (simp add: ld32_def)

lemma ld32_st32_other [simp]: "b \<noteq> a \<Longrightarrow> ld32 (st32 a v m) b = ld32 m b"
  by (simp add: ld32_def)

section \<open>Page arithmetic\<close>

definition page_aligned :: "addr \<Rightarrow> bool" where
  "page_aligned a \<longleftrightarrow> 4096 dvd unat a"

lemma page_aligned_add_unat:
  assumes "page_aligned a" and "x < 4096"
  shows "unat (a + x) = unat a + unat x"
proof -
  have x: "unat x < 4096" using assms(2) by (simp add: word_less_nat_alt)
  from assms(1) obtain k where k: "unat a = 4096 * k"
    by (auto simp: page_aligned_def elim: dvdE)
  have "unat a < 2 ^ 64" using unsigned_less [of a] by simp
  with k have "k < 4503599627370496" by simp
  then have "unat a + unat x < 2 ^ 64" using k x by simp
  then show ?thesis by (simp add: unat_word_ariths)
qed

lemma page_offset_inj:
  assumes "page_aligned a" "page_aligned b" "x < 4096" "y < 4096"
  shows "a + x = b + y \<longleftrightarrow> a = b \<and> x = y"
proof
  assume eq: "a + x = b + y"
  have u: "unat a + unat x = unat b + unat y"
    using arg_cong [OF eq, of unat] assms by (simp add: page_aligned_add_unat)
  have xy: "unat x < 4096" "unat y < 4096"
    using assms(3,4) by (simp_all add: word_less_nat_alt)
  have "(unat a + unat x) mod 4096 = unat x" "(unat b + unat y) mod 4096 = unat y"
    using assms(1,2) xy by (auto simp: page_aligned_def elim!: dvdE)
  then have "unat x = unat y" using u by simp
  then have "x = y" by (simp only: unsigned_word_eqI)
  then show "a = b \<and> x = y" using eq by simp
qed simp

lemma page_offset_neq:
  assumes "page_aligned a" "page_aligned b" "a \<noteq> b" "x < 4096" "y < 4096"
  shows "a + x \<noteq> b + y"
  using page_offset_inj [OF assms(1,2,4,5)] assms(3) by simp

lemma page_aligned_add:
  assumes "page_aligned a" "page_aligned b"
  shows "page_aligned (a + b)"
proof -
  have "(4096 :: nat) dvd 2 ^ 64" by (rule dvdI [where k = "2 ^ 52"]) simp
  then show ?thesis
    using assms by (simp add: page_aligned_def unat_word_ariths dvd_mod)
qed

section \<open>Runs of doublewords\<close>

text \<open>Consecutive doublewords: a struct or an array copied as a whole.\<close>

fun store_words :: "addr \<Rightarrow> u64 list \<Rightarrow> memory \<Rightarrow> memory" where
  "store_words a [] m = m"
| "store_words a (w # ws) m = store_words (a + 8) ws (m(a := w))"

lemma store_words_append:
  "store_words a (xs @ ys) m = store_words (a + 8 * word_of_nat (length xs)) ys (store_words a xs m)"
  by (induction xs arbitrary: a m) (simp_all add: algebra_simps)

definition load_words :: "memory \<Rightarrow> addr \<Rightarrow> nat \<Rightarrow> u64 list" where
  "load_words m a n = map (\<lambda>i. m (a + 8 * word_of_nat i)) [0..<n]"

lemma length_load_words [simp]: "length (load_words m a n) = n"
  by (simp add: load_words_def)

lemma nth_load_words [simp]: "i < n \<Longrightarrow> load_words m a n ! i = m (a + 8 * word_of_nat i)"
  by (simp add: load_words_def)

lemma store_words_outside:
  "(\<And>i. i < length ws \<Longrightarrow> x \<noteq> a + 8 * word_of_nat i) \<Longrightarrow> store_words a ws m x = m x"
proof (induction ws arbitrary: a m)
  case (Cons w ws)
  have "x \<noteq> a" using Cons.prems [of 0] by simp
  moreover have "x \<noteq> a + 8 + 8 * word_of_nat i" if "i < length ws" for i
    using Cons.prems [of "Suc i"] that by (simp add: algebra_simps)
  ultimately show ?case using Cons.IH [of "a + 8" "m(a := w)"]
    by (simp del: fun_upd_apply add: fun_upd_other)
qed simp

lemma word_mult8_inj:
  assumes "i < 2 ^ 61" "j < 2 ^ 61"
  shows "(8 :: u64) * word_of_nat i = 8 * word_of_nat j \<longleftrightarrow> i = j"
proof -
  have u: "unat (8 * word_of_nat k :: u64) = 8 * k" if "k < 2 ^ 61" for k
    using that by (simp add: unat_word_ariths unat_of_nat)
  then show ?thesis using assms by (metis mult_left_cancel zero_neq_numeral)
qed

lemma store_words_inside:
  "i < length ws \<Longrightarrow> length ws \<le> 2 ^ 61 \<Longrightarrow> store_words a ws m (a + 8 * word_of_nat i) = ws ! i"
proof (induction ws arbitrary: a m i)
  case (Cons w ws)
  show ?case
  proof (cases i)
    case 0
    have "a \<noteq> a + 8 + 8 * word_of_nat j" if "j < length ws" for j
    proof
      assume "a = a + 8 + 8 * word_of_nat j"
      then have "(8 :: u64) * word_of_nat 0 = 8 * word_of_nat (Suc j)"
        by (simp add: algebra_simps)
      then show False
        using word_mult8_inj [of 0 "Suc j"] that Cons.prems(2) by simp
    qed
    then show ?thesis using 0 by (simp add: store_words_outside)
  next
    case (Suc j)
    have eq: "a + 8 * word_of_nat (Suc j) = (a + 8) + 8 * word_of_nat j"
      by (simp add: algebra_simps)
    have "store_words (a + 8) ws (m(a := w)) ((a + 8) + 8 * word_of_nat j) = ws ! j"
      using Cons.prems Suc by (intro Cons.IH) simp_all
    then show ?thesis by (simp only: eq store_words.simps Suc nth_Cons_Suc)
  qed
qed simp

lemma load_store_words:
  "length ws \<le> 2 ^ 61 \<Longrightarrow> load_words (store_words a ws m) a (length ws) = ws"
  by (rule nth_equalityI) (simp_all add: store_words_inside)

text \<open>A run inside a page leaves every other page, and the rest of its own, alone.\<close>

lemma page_run_offset:
  assumes "8 * i < (4096 :: nat)"
  shows "8 * word_of_nat i < (4096 :: u64)" and "unat (8 * word_of_nat i :: u64) = 8 * i"
  using assms by (simp_all add: word_less_nat_alt unat_word_ariths unat_of_nat)

lemma store_words_other_page:
  assumes "page_aligned p" "page_aligned q" "p \<noteq> q" "8 * length ws \<le> 4096" "y < 4096"
  shows "store_words p ws m (q + y) = m (q + y)"
proof (rule store_words_outside)
  fix i assume "i < length ws"
  then have "8 * i < 4096" using assms(4) by simp
  then show "q + y \<noteq> p + 8 * word_of_nat i"
    using page_offset_neq [OF assms(1-3) page_run_offset(1) assms(5)] by metis
qed

section \<open>Signed comparison with 8\<close>

lemma sint_minus_8:
  fixes x :: u64
  assumes "8 < sint x"
  shows "sint (x - 8) = sint x - 8"
proof -
  have "sint (word_of_int (sint x - 8) :: u64) = sint x - 8"
    unfolding sint_sbintrunc' using assms sint_lt [of x]
    by (intro signed_take_bit_int_eq_self) simp_all
  then show ?thesis by simp
qed

end
