(* ===== verification/Printf.thy ===== *)
theory Printf
  imports OS_Prelude
begin

text \<open>
  \<open>printf.c\<close>: number conversion (\<open>ui2a\<close>, \<open>i2a\<close>), width parsing (\<open>a2d\<close>, \<open>a2i\<close>), padding
  (\<open>putchw\<close>), the format interpreter (\<open>tfp_format\<close>) and its two front ends. The build does
  not define \<open>PRINTF_LONG_SUPPORT\<close>, so \<open>uli2a\<close> and \<open>li2a\<close> are not compiled and not modelled.

  A C string pointer is the list of the characters from the pointer on, its terminating
  NUL included; reading past the end of that list has no defined result. The character
  output function \<open>putf\<close> is an argument, as in the code; \<open>None\<close> stands for a run with no
  defined result: \<open>putf\<close> never returns, a string is read past its end, or a conversion has
  no argument of its type. The \<open>int\<close> of \<open>a2i\<close> and of \<open>i2a\<close> is a 32-bit word that wraps around: C leaves
  the overflow of a width or number beyond 2147483647 undefined.
\<close>

section \<open>Characters and pointers\<close>

abbreviation NUL :: char where "NUL \<equiv> CHR 0x00"

text \<open>\<open>*p++\<close>: the character under the pointer and the advanced pointer.\<close>

definition fetch :: "char list \<Rightarrow> (char \<times> char list) option" where
  "fetch p = (case p of [] \<Rightarrow> None | c # q \<Rightarrow> Some (c, q))"

lemma fetch_simps [simp]:
  "fetch [] = None"
  "fetch (c # q) = Some (c, q)"
  by (simp_all add: fetch_def)

text \<open>A C string: its characters, none of them NUL, the terminator, and what follows it.\<close>

definition c_string :: "char list \<Rightarrow> char list \<Rightarrow> char list" where
  "c_string s rest = s @ NUL # rest"

section \<open>Numbers to digits\<close>

definition digit_char :: "bool \<Rightarrow> u32 \<Rightarrow> char" where
  "digit_char uc dgt =
     char_of (unat (dgt + (if sint dgt < 10 then 48 else (if uc then 65 else 97) - 10)))"

partial_function (option) ui2a_scale :: "u32 \<Rightarrow> u32 \<Rightarrow> u32 \<Rightarrow> u32 option" where
  "ui2a_scale num base d =
     (if base \<le> num div d then ui2a_scale num base (d * base) else Some d)"

partial_function (option) ui2a_digits ::
    "u32 \<Rightarrow> u32 \<Rightarrow> bool \<Rightarrow> nat \<Rightarrow> u32 \<Rightarrow> char list \<Rightarrow> char list option" where
  "ui2a_digits num base uc n d bf =
     (if d = 0 then Some bf
      else let dgt = num div d; num' = num mod d; d' = d div base
           in if n \<noteq> 0 \<or> 0 < sint dgt \<or> d' = 0
              then ui2a_digits num' base uc (Suc n) d' (bf @ [digit_char uc dgt])
              else ui2a_digits num' base uc n d' bf)"

text \<open>The result is what the code leaves in \<open>bf\<close>, the terminating NUL included.\<close>

definition ui2a :: "u32 \<Rightarrow> u32 \<Rightarrow> bool \<Rightarrow> char list option" where
  "ui2a num base uc =
     Option.bind (ui2a_scale num base 1)
       (\<lambda>d. map_option (\<lambda>bf. bf @ [NUL]) (ui2a_digits num base uc 0 d []))"

definition i2a :: "u32 \<Rightarrow> char list option" where
  "i2a num =
     (if sint num < 0 then map_option (\<lambda>bf. CHR ''-'' # bf) (ui2a (- num) 10 False)
      else ui2a num 10 False)"

section \<open>Digits to numbers\<close>

definition a2d :: "char \<Rightarrow> int" where
  "a2d ch =
     (if 48 \<le> (of_char ch :: int) \<and> (of_char ch :: int) \<le> 57 then of_char ch - 48
      else if 97 \<le> (of_char ch :: int) \<and> (of_char ch :: int) \<le> 102 then of_char ch - 97 + 10
      else if 65 \<le> (of_char ch :: int) \<and> (of_char ch :: int) \<le> 70 then of_char ch - 65 + 10
      else -1)"

text \<open>The loop of \<open>a2i\<close>: \<open>ch\<close> the character in hand, \<open>p\<close> the pointer, \<open>num\<close> so far.\<close>

fun a2i_loop :: "char \<Rightarrow> char list \<Rightarrow> int \<Rightarrow> u32 \<Rightarrow> (char \<times> char list \<times> u32) option" where
  "a2i_loop ch p base num =
     (if 0 \<le> a2d ch \<and> \<not> base < a2d ch
      then (case p of [] \<Rightarrow> None
            | c # q \<Rightarrow> a2i_loop c q base (num * word_of_int base + word_of_int (a2d ch)))
      else Some (ch, p, num))"

declare a2i_loop.simps [simp del]

definition a2i :: "char \<Rightarrow> char list \<Rightarrow> int \<Rightarrow> (char \<times> char list \<times> u32) option" where
  "a2i ch src base = a2i_loop ch src base 0"

section \<open>Padding\<close>

text \<open>\<open>while (*p++ && n > 0) n--;\<close>\<close>

fun putchw_width :: "char list \<Rightarrow> int \<Rightarrow> int option" where
  "putchw_width [] n = None"
| "putchw_width (c # p) n = (if c \<noteq> NUL \<and> 0 < n then putchw_width p (n - 1) else Some n)"

text \<open>\<open>while (n-- > 0) putf(putp,fc);\<close>\<close>

fun putchw_pad :: "(char \<Rightarrow> 'w \<Rightarrow> 'w option) \<Rightarrow> nat \<Rightarrow> char \<Rightarrow> 'w \<Rightarrow> 'w option" where
  "putchw_pad putf 0 fc w = Some w"
| "putchw_pad putf (Suc n) fc w = Option.bind (putf fc w) (putchw_pad putf n fc)"

text \<open>\<open>while ((ch= *bf++)) putf(putp,ch);\<close>\<close>

fun putchw_copy :: "(char \<Rightarrow> 'w \<Rightarrow> 'w option) \<Rightarrow> char list \<Rightarrow> 'w \<Rightarrow> 'w option" where
  "putchw_copy putf [] w = None"
| "putchw_copy putf (ch # bf) w =
     (if ch = NUL then Some w else Option.bind (putf ch w) (putchw_copy putf bf))"

definition putchw :: "(char \<Rightarrow> 'w \<Rightarrow> 'w option) \<Rightarrow> int \<Rightarrow> bool \<Rightarrow> char list \<Rightarrow> 'w \<Rightarrow> 'w option" where
  "putchw putf n z bf w =
     Option.bind (putchw_width bf n)
       (\<lambda>n'. Option.bind (putchw_pad putf (nat n') (if z then CHR ''0'' else CHR '' '') w)
               (putchw_copy putf bf))"

section \<open>The format interpreter\<close>

text \<open>
  A variadic argument is the 64-bit slot it is passed in, or a pointer to characters;
  \<open>va_arg(va, int)\<close> and \<open>va_arg(va, unsigned int)\<close> take the low 32 bits of a slot.
\<close>

datatype va = Slot u64 | Chars "char list"

definition va_int :: "va list \<Rightarrow> (u32 \<times> va list) option" where
  "va_int vs = (case vs of Slot x # r \<Rightarrow> Some (ucast x, r) | _ \<Rightarrow> None)"

definition va_str :: "va list \<Rightarrow> (char list \<times> va list) option" where
  "va_str vs = (case vs of Chars s # r \<Rightarrow> Some (s, r) | _ \<Rightarrow> None)"

text \<open>
  What follows a \<open>%\<close>: the zero flag, the width, and the conversion character, with the
  pointer after it.
\<close>

definition format_spec :: "char list \<Rightarrow> (bool \<times> u32 \<times> char \<times> char list) option" where
  "format_spec fmt =
     Option.bind (fetch fmt)
       (\<lambda>(ch, fmt). Option.bind (if ch = CHR ''0'' then map_option (\<lambda>(c, f). (True, c, f)) (fetch fmt)
                                   else Some (False, ch, fmt))
       (\<lambda>(lz, ch, fmt). if 48 \<le> (of_char ch :: int) \<and> (of_char ch :: int) \<le> 57
          then map_option (\<lambda>(c, f, w). (lz, w, c, f)) (a2i ch fmt 10)
          else Some (lz, 0, ch, fmt)))"

text \<open>The \<open>switch\<close>; \<open>case 0\<close>, the \<open>goto abort\<close>, is left to the loop.\<close>

definition format_switch ::
    "(char \<Rightarrow> 'w \<Rightarrow> 'w option) \<Rightarrow> char \<Rightarrow> bool \<Rightarrow> u32 \<Rightarrow> va list \<Rightarrow> 'w \<Rightarrow> (va list \<times> 'w) option" where
  "format_switch putf ch lz width va w =
     (if ch = CHR ''u'' then
        Option.bind (va_int va) (\<lambda>(x, va). Option.bind (ui2a x 10 False) (\<lambda>bf.
          map_option (Pair va) (putchw putf (sint width) lz bf w)))
      else if ch = CHR ''d'' then
        Option.bind (va_int va) (\<lambda>(x, va). Option.bind (i2a x) (\<lambda>bf.
          map_option (Pair va) (putchw putf (sint width) lz bf w)))
      else if ch = CHR ''x'' \<or> ch = CHR ''X'' then
        Option.bind (va_int va) (\<lambda>(x, va). Option.bind (ui2a x 16 (ch = CHR ''X'')) (\<lambda>bf.
          map_option (Pair va) (putchw putf (sint width) lz bf w)))
      else if ch = CHR ''c'' then
        Option.bind (va_int va) (\<lambda>(x, va). map_option (Pair va) (putf (char_of (unat x)) w))
      else if ch = CHR ''s'' then
        Option.bind (va_str va) (\<lambda>(s, va). map_option (Pair va) (putchw putf (sint width) False s w))
      else if ch = CHR ''%'' then map_option (Pair va) (putf ch w)
      else Some (va, w))"

partial_function (option) tfp_format ::
    "(char \<Rightarrow> 'w \<Rightarrow> 'w option) \<Rightarrow> char list \<Rightarrow> va list \<Rightarrow> 'w \<Rightarrow> 'w option" where
  "tfp_format putf fmt va w =
     Option.bind (fetch fmt)
       (\<lambda>(ch, fmt).
          if ch = NUL then Some w
          else if ch \<noteq> CHR ''%'' then Option.bind (putf ch w) (\<lambda>w. tfp_format putf fmt va w)
          else Option.bind (format_spec fmt)
            (\<lambda>(lz, width, ch, fmt).
               if ch = NUL then Some w
               else Option.bind (format_switch putf ch lz width va w)
                 (\<lambda>(va, w). tfp_format putf fmt va w)))"

section \<open>Front ends\<close>

text \<open>
  \<open>init_printf\<close> stores the output function \<open>tfp_printf\<close> passes on; a kernel that has run
  \<open>init_printf(NULL, putc)\<close> prints through \<open>putc\<close>.
\<close>

record 'w printf_state =
  stdout_putf :: "char \<Rightarrow> 'w \<Rightarrow> 'w option"

definition init_printf :: "(char \<Rightarrow> 'w \<Rightarrow> 'w option) \<Rightarrow> 'w printf_state \<Rightarrow> 'w printf_state" where
  "init_printf putf st = st\<lparr>stdout_putf := putf\<rparr>"

definition tfp_printf :: "'w printf_state \<Rightarrow> char list \<Rightarrow> va list \<Rightarrow> 'w \<Rightarrow> 'w option" where
  "tfp_printf st fmt va w = tfp_format (stdout_putf st) fmt va w"

text \<open>
  \<open>sprintf\<close> writes through a pointer it advances: the sink is the pointer and the memory
  it points into.
\<close>

definition putcp :: "char \<Rightarrow> nat \<times> (nat \<Rightarrow> char) \<Rightarrow> (nat \<times> (nat \<Rightarrow> char)) option" where
  "putcp c = (\<lambda>(p, buf). Some (Suc p, buf(p := c)))"

definition tfp_sprintf :: "nat \<Rightarrow> (nat \<Rightarrow> char) \<Rightarrow> char list \<Rightarrow> va list \<Rightarrow> (nat \<Rightarrow> char) option" where
  "tfp_sprintf s buf fmt va =
     map_option snd (Option.bind (tfp_format putcp fmt va (s, buf)) (putcp NUL))"

section \<open>Numbers: the digits are the number's\<close>

text \<open>The specification: the digits of a number, most significant first.\<close>

fun nat_digits :: "nat \<Rightarrow> nat \<Rightarrow> nat list" where
  "nat_digits b n = (if n < b \<or> b < 2 then [n] else nat_digits b (n div b) @ [n mod b])"

declare nat_digits.simps [simp del]

text \<open>The digits \<open>ui2a_digits\<close> takes off from the front, for the divisor \<open>b ^ k\<close>.\<close>

fun front_digits :: "nat \<Rightarrow> nat \<Rightarrow> nat \<Rightarrow> nat list" where
  "front_digits b 0 n = [n]"
| "front_digits b (Suc k) n = n div b ^ Suc k # front_digits b k (n mod b ^ Suc k)"

lemma front_digits_snoc:
  "front_digits b (Suc k) n = front_digits b k (n div b) @ [n mod b]"
proof (induction k arbitrary: n)
  case 0
  then show ?case by simp
next
  case (Suc k)
  have q: "n mod b ^ Suc (Suc k) div b = n div b mod b ^ Suc k"
    and r: "n mod b ^ Suc (Suc k) mod b = n mod b"
    by (cases "b = 0"; simp add: mod_mult2_eq [of n b "b ^ Suc k", simplified])+
  have "front_digits b (Suc (Suc k)) n =
      n div b ^ Suc (Suc k) # front_digits b (Suc k) (n mod b ^ Suc (Suc k))" by simp
  also have "\<dots> = n div b ^ Suc (Suc k) # front_digits b k (n div b mod b ^ Suc k) @ [n mod b]"
    by (simp only: Suc.IH q r)
  also have "\<dots> = front_digits b (Suc k) (n div b) @ [n mod b]"
    by (simp add: div_mult2_eq)
  finally show ?case .
qed

lemma front_digits_nat_digits:
  "2 \<le> b \<Longrightarrow> n < b ^ Suc k \<Longrightarrow> k = 0 \<or> b ^ k \<le> n \<Longrightarrow> front_digits b k n = nat_digits b n"
proof (induction k arbitrary: n)
  case 0
  then show ?case by (subst nat_digits.simps) simp
next
  case (Suc k)
  have "n div b < b ^ Suc k" using Suc.prems by (simp add: less_mult_imp_div_less mult.commute)
  moreover have "b ^ k \<le> n div b"
    using Suc.prems by (simp add: less_eq_div_iff_mult_less_eq mult.commute)
  ultimately have "front_digits b k (n div b) = nat_digits b (n div b)"
    using Suc by simp
  moreover have "b * b ^ k \<le> n" using Suc.prems by simp
  then have "\<not> n < b"
    using Suc.prems(1) by (metis le_trans mult_le_mono2 mult.right_neutral not_less one_le_power
      nat_le_linear numeral_2_eq_2 one_le_numeral)
  ultimately show ?case
    using Suc.prems(1) by (simp only: front_digits_snoc nat_digits.simps [of b n]) simp
qed

lemma nat_digits_less: "2 \<le> b \<Longrightarrow> d \<in> set (nat_digits b n) \<Longrightarrow> d < b"
proof (induction b n rule: nat_digits.induct)
  case (1 b n)
  then show ?case by (subst (asm) nat_digits.simps) (auto split: if_splits)
qed

lemma nat_digits_value: "2 \<le> b \<Longrightarrow> foldl (\<lambda>v d. v * b + d) 0 (nat_digits b n) = n"
proof (induction b n rule: nat_digits.induct)
  case (1 b n)
  then show ?case by (subst nat_digits.simps) auto
qed

lemma nat_digits_length: "2 \<le> b \<Longrightarrow> n < b ^ Suc k \<Longrightarrow> length (nat_digits b n) \<le> Suc k"
proof (induction k arbitrary: n)
  case 0
  then show ?case by (subst nat_digits.simps) simp
next
  case (Suc k)
  have "n div b < b ^ Suc k" using Suc.prems by (simp add: less_mult_imp_div_less mult.commute)
  then have "length (nat_digits b (n div b)) \<le> Suc k" using Suc by simp
  then show ?case by (subst nat_digits.simps) simp
qed

lemma nat_digits_ne [simp]: "nat_digits b n \<noteq> []"
  by (subst nat_digits.simps) simp

lemma ui2a_scale_power:
  assumes b: "2 \<le> unat base"
  shows "unat d = unat base ^ k \<Longrightarrow> k = 0 \<or> unat base ^ k \<le> unat num \<Longrightarrow>
    \<exists>d' k'. ui2a_scale num base d = Some d' \<and> unat d' = unat base ^ k' \<and>
      (k' = 0 \<or> unat base ^ k' \<le> unat num) \<and> unat num < unat base ^ Suc k'"
proof (induction "unat num - unat base ^ k" arbitrary: d k rule: less_induct)
  case less
  have pos: "0 < unat d" using less.prems(1) b by simp
  show ?case
  proof (cases "base \<le> num div d")
    case True
    then have "unat base \<le> unat num div unat d"
      by (simp add: word_le_nat_alt unat_div)
    then have le: "unat base ^ Suc k \<le> unat num"
      using pos less.prems(1) by (simp add: less_eq_div_iff_mult_less_eq)
    then have "unat d * unat base < 2 ^ LENGTH(32)"
      using unsigned_less [of num, where ?'a = nat] less.prems(1) by (simp add: mult.commute)
    then have d': "unat (d * base) = unat base ^ Suc k"
      using less.prems(1) by (simp add: unat_mult_lem [THEN iffD1] mult.commute)
    have "unat base ^ k < unat base ^ Suc k" using b by simp
    then have "unat num - unat base ^ Suc k < unat num - unat base ^ k"
      using le by linarith
    from less.hyps [OF this d'] le True show ?thesis
      by (subst ui2a_scale.simps) simp
  next
    case False
    then have "unat num div unat d < unat base"
      by (simp add: word_le_nat_alt unat_div)
    then have "unat num < unat base * unat d"
      using div_less_iff_less_mult [OF pos] by simp
    then have "unat num < unat base ^ Suc k" using less.prems(1) by simp
    with False less.prems show ?thesis
      by (subst ui2a_scale.simps) auto
  qed
qed

lemma ui2a_digits_front:
  assumes b: "2 \<le> unat base" "unat base \<le> 16"
  shows "unat d = unat base ^ k \<Longrightarrow> unat num < unat base ^ Suc k \<Longrightarrow>
    n \<noteq> 0 \<or> k = 0 \<or> unat base ^ k \<le> unat num \<Longrightarrow>
    ui2a_digits num base uc n d bf =
      Some (bf @ map (\<lambda>x. digit_char uc (word_of_nat x)) (front_digits (unat base) k (unat num)))"
proof (induction k arbitrary: num n d bf)
  case 0
  then have "d = 1" by (simp add: word_unat_eq_iff)
  moreover have "base \<noteq> 1" using b(1) by auto
  ultimately show ?case
    by (simp add: ui2a_digits.simps [of num base uc n 1] ui2a_digits.simps [of _ base uc _ 0])
next
  case (Suc k)
  have pos: "0 < unat base ^ k" using b(1) by simp
  have d0: "d \<noteq> 0" using Suc.prems(1) b(1) by auto
  have dgt: "unat (num div d) < unat base"
    using Suc.prems(1,2) pos b(1)
    by (simp add: unat_div div_less_iff_less_mult mult.commute mult.left_commute)
  have sint: "sint (num div d) = int (unat (num div d))"
    using dgt b(2) by (intro sint_eq_unat) simp
  have d': "unat (d div base) = unat base ^ k"
    using Suc.prems(1) b(1) by (simp add: unat_div)
  have num': "unat (num mod d) = unat num mod unat base ^ Suc k"
    using Suc.prems(1) by (simp add: unat_mod)
  have num'_less: "unat (num mod d) < unat base ^ Suc k"
    using num' b(1) by simp
  have first: "n \<noteq> 0 \<or> 0 < sint (num div d) \<or> d div base = 0"
  proof (cases "n = 0")
    case True
    with Suc.prems(3) have "unat d \<le> unat num" using Suc.prems(1) by simp
    then have "0 < unat (num div d)"
      using d0 by (simp add: unat_div div_greater_zero_iff unat_gt_0)
    then show ?thesis unfolding sint by (simp only: of_nat_0_less_iff simp_thms)
  qed simp
  have "ui2a_digits (num mod d) base uc (Suc n) (d div base) (bf @ [digit_char uc (num div d)]) =
      Some ((bf @ [digit_char uc (num div d)]) @
        map (\<lambda>x. digit_char uc (word_of_nat x)) (front_digits (unat base) k (unat (num mod d))))"
    by (rule Suc.IH [OF d' num'_less]) simp
  moreover have "unat num div unat base ^ Suc k = unat (num div d)"
    using Suc.prems(1) by (simp add: unat_div)
  then have "word_of_nat (unat num div unat base ^ Suc k) = num div d" by simp
  ultimately show ?case
    using first d0 by (simp add: ui2a_digits.simps [of num] Let_def num')
qed

lemma ui2a_nat_digits:
  assumes "2 \<le> unat base" "unat base \<le> 16"
  shows "ui2a num base uc =
    Some (map (\<lambda>x. digit_char uc (word_of_nat x)) (nat_digits (unat base) (unat num)) @ [NUL])"
proof -
  obtain d k where d: "ui2a_scale num base 1 = Some d" "unat d = unat base ^ k"
    "k = 0 \<or> unat base ^ k \<le> unat num" "unat num < unat base ^ Suc k"
    using ui2a_scale_power [OF assms(1), of 1 0 num] by auto
  have "ui2a_digits num base uc 0 d [] =
      Some ([] @ map (\<lambda>x. digit_char uc (word_of_nat x)) (front_digits (unat base) k (unat num)))"
    using d by (intro ui2a_digits_front [OF assms]) auto
  then show ?thesis
    using front_digits_nat_digits [OF assms(1) d(4,3)] by (simp add: ui2a_def d(1))
qed

lemma of_char_char_of_int: "(of_char (char_of (n :: nat)) :: int) = int (n mod 256)"
  by (metis of_char_of of_nat_of_char)

lemma small_digit_cases: "(x :: nat) < 16 \<longleftrightarrow>
    x \<in> {0, 1, 2, 3, 4, 5, 6, 7, 8, 9, 10, 11, 12, 13, 14, 15}"
  by (simp add: numeral_eq_Suc less_Suc_eq disj_ac)

lemma a2d_digit_char: "x < 16 \<Longrightarrow> a2d (digit_char uc (word_of_nat x)) = int x"
  unfolding small_digit_cases insert_iff empty_iff
  by (elim disjE; cases uc; simp add: a2d_def digit_char_def of_char_char_of_int)

lemma digit_char_not_NUL: "x < 16 \<Longrightarrow> digit_char uc (word_of_nat x) \<noteq> NUL"
  using a2d_digit_char [of x uc] by (auto simp: a2d_def)

lemma a2i_loop_digits:
  assumes "\<forall>x \<in> set xs. x < 16 \<and> int x \<le> base" and "a2d stop < 0 \<or> base < a2d stop"
  shows "a2i_loop (hd (map (\<lambda>x. digit_char uc (word_of_nat x)) xs @ [stop]))
      (tl (map (\<lambda>x. digit_char uc (word_of_nat x)) xs @ [stop]) @ rest) base num =
    Some (stop, rest, foldl (\<lambda>v d. v * word_of_int base + word_of_nat d) num xs)"
  using assms(1)
proof (induction xs arbitrary: num)
  case Nil
  then show ?case using assms(2) by (auto simp: a2i_loop.simps [of stop])
next
  case (Cons x xs)
  let ?cs = "map (\<lambda>x. digit_char uc (word_of_nat x)) xs @ [stop]"
  have cs: "?cs @ rest = hd ?cs # tl ?cs @ rest"
    by (cases ?cs) auto
  have "a2i_loop (digit_char uc (word_of_nat x)) (?cs @ rest) base num =
      a2i_loop (hd ?cs) (tl ?cs @ rest) base (num * word_of_int base + word_of_nat x)"
    using Cons.prems by (subst a2i_loop.simps, subst cs) (simp add: a2d_digit_char)
  then show ?case using Cons.IH Cons.prems by simp
qed

lemma foldl_digits_word:
  "foldl (\<lambda>v d. v * word_of_int (int b) + word_of_nat d) (word_of_nat v :: u32) xs =
    word_of_nat (foldl (\<lambda>v d. v * b + d) v xs)"
  by (induction xs arbitrary: v) (simp_all flip: of_nat_mult of_nat_add)

section \<open>The output interface\<close>

text \<open>
  What \<open>printf\<close> relies on in the \<open>putf\<close> it is given: a call that returns has put out
  exactly its character. \<open>out\<close> is the text a sink has received.
\<close>

locale char_sink =
  fixes putf :: "char \<Rightarrow> 'w \<Rightarrow> 'w option"
    and out :: "'w \<Rightarrow> char list"
  assumes putf_out: "putf c w = Some w' \<Longrightarrow> out w' = out w @ [c]"

text \<open>The sink that only collects the text: the specification of the others.\<close>

definition collect :: "char \<Rightarrow> char list \<Rightarrow> char list option" where
  "collect c xs = Some (xs @ [c])"

lemma a2i_loop_shorter:
  "a2i_loop c p b n = Some (c', p', n') \<Longrightarrow> length p' \<le> length p"
proof (induction c p b n rule: a2i_loop.induct)
  case (1 c p b n)
  show ?case
  proof (cases "0 \<le> a2d c \<and> \<not> b < a2d c")
    case True
    with "1.prems" obtain d q where p: "p = d # q"
      by (cases p) (auto simp: a2i_loop.simps [of c])
    then show ?thesis
      using "1.IH" [OF True p] "1.prems" True by (simp add: a2i_loop.simps [of c])
  next
    case False
    then show ?thesis using "1.prems" by (simp only: a2i_loop.simps [of c]) simp
  qed
qed

lemma format_spec_shorter:
  assumes "format_spec fmt = Some (lz, width, ch, fmt')"
  shows "length fmt' < length fmt"
proof -
  obtain c p where fmt: "fmt = c # p"
    using assms by (cases fmt) (auto simp: format_spec_def)
  show ?thesis
  proof (cases "c = CHR ''0''")
    case True
    then show ?thesis
      using assms
      by (cases p) (auto simp: fmt format_spec_def a2i_def split: if_splits dest!: a2i_loop_shorter)
  next
    case False
    then show ?thesis
      using assms
      by (auto simp: fmt format_spec_def a2i_def split: if_splits dest!: a2i_loop_shorter)
  qed
qed

lemma tfp_format_Nil [simp]: "tfp_format putf [] va w = None"
  by (simp add: tfp_format.simps)

lemma tfp_format_text:
  "ch \<noteq> NUL \<Longrightarrow> ch \<noteq> CHR ''%'' \<Longrightarrow>
    tfp_format putf (ch # p) va w = Option.bind (putf ch w) (tfp_format putf p va)"
  by (simp add: tfp_format.simps [of putf "ch # p"])

lemma tfp_format_NUL [simp]: "tfp_format putf (NUL # p) va w = Some w"
  by (simp add: tfp_format.simps)

lemma tfp_format_percent:
  "tfp_format putf (CHR ''%'' # p) va w =
     Option.bind (format_spec p)
       (\<lambda>(lz, width, ch, q). if ch = NUL then Some w
          else Option.bind (format_switch putf ch lz width va w)
                 (\<lambda>(va, w). tfp_format putf q va w))"
  by (simp add: tfp_format.simps [of putf "CHR ''%'' # p"])

text \<open>The conversions of the switch, one by one.\<close>

definition number_conv :: "char \<Rightarrow> (u32 \<Rightarrow> char list option) option" where
  "number_conv ch =
     (if ch = CHR ''u'' then Some (\<lambda>x. ui2a x 10 False)
      else if ch = CHR ''d'' then Some i2a
      else if ch = CHR ''x'' \<or> ch = CHR ''X'' then Some (\<lambda>x. ui2a x 16 (ch = CHR ''X''))
      else None)"

lemma number_conv_SomeD:
  "number_conv ch = Some f \<Longrightarrow>
    ch = CHR ''u'' \<and> f = (\<lambda>x. ui2a x 10 False) \<or> ch = CHR ''d'' \<and> f = i2a \<or>
    ch = CHR ''x'' \<and> f = (\<lambda>x. ui2a x 16 False) \<or> ch = CHR ''X'' \<and> f = (\<lambda>x. ui2a x 16 True)"
  unfolding number_conv_def by (simp only: split: if_split_asm) auto

lemma format_switch_number:
  assumes "number_conv ch = Some f"
  shows "format_switch putf ch lz width va w =
     Option.bind (va_int va) (\<lambda>(x, va). Option.bind (f x)
       (\<lambda>bf. map_option (Pair va) (putchw putf (sint width) lz bf w)))"
  using number_conv_SomeD [OF assms] by (elim disjE conjE) (simp_all add: format_switch_def)

lemma format_switch_simps:
  "format_switch putf CHR ''c'' lz width va w =
     Option.bind (va_int va) (\<lambda>(x, va). map_option (Pair va) (putf (char_of (unat x)) w))"
  "format_switch putf CHR ''s'' lz width va w =
     Option.bind (va_str va)
       (\<lambda>(s, va). map_option (Pair va) (putchw putf (sint width) False s w))"
  "format_switch putf CHR ''%'' lz width va w = map_option (Pair va) (putf CHR ''%'' w)"
  by (simp_all add: format_switch_def)

lemma format_switch_other:
  "number_conv ch = None \<Longrightarrow> ch \<noteq> CHR ''c'' \<Longrightarrow> ch \<noteq> CHR ''s'' \<Longrightarrow> ch \<noteq> CHR ''%'' \<Longrightarrow>
    format_switch putf ch lz width va w = Some (va, w)"
  by (simp add: number_conv_def format_switch_def split: if_splits)

lemma conversion_cases:
  obtains (num) f where "number_conv ch = Some f" | (chr) "ch = CHR ''c''" | (str) "ch = CHR ''s''"
  | (pct) "ch = CHR ''%''"
  | (other) "number_conv ch = None" "ch \<noteq> CHR ''c''" "ch \<noteq> CHR ''s''" "ch \<noteq> CHR ''%''"
proof (cases "ch = CHR ''c'' \<or> ch = CHR ''s'' \<or> ch = CHR ''%''")
  case True
  then show thesis by (elim disjE) (erule chr str pct)+
next
  case False
  then show thesis by (cases "number_conv ch") (auto intro: num other)
qed

context char_sink
begin

lemma putf_collect: "putf c w = Some w' \<Longrightarrow> collect c (out w) = Some (out w')"
  by (simp add: collect_def putf_out)

lemma pad_collect:
  "putchw_pad putf n c w = Some w' \<Longrightarrow> putchw_pad collect n c (out w) = Some (out w')"
  by (induction n arbitrary: w) (auto simp: bind_eq_Some_conv putf_collect)

lemma copy_collect:
  "putchw_copy putf s w = Some w' \<Longrightarrow> putchw_copy collect s (out w) = Some (out w')"
  by (induction s arbitrary: w) (auto simp: bind_eq_Some_conv putf_collect split: if_splits)

lemma putchw_collect:
  "putchw putf n z s w = Some w' \<Longrightarrow> putchw collect n z s (out w) = Some (out w')"
  by (auto simp: putchw_def bind_eq_Some_conv pad_collect copy_collect)

lemma switch_collect:
  assumes "format_switch putf ch lz width va w = Some (va', w')"
  shows "format_switch collect ch lz width va (out w) = Some (va', out w')"
  using assms
  by (cases ch rule: conversion_cases)
    (auto simp: format_switch_number format_switch_simps format_switch_other bind_eq_Some_conv
      putchw_collect putf_collect)

lemma format_collect:
  "tfp_format putf fmt va w = Some w' \<Longrightarrow> tfp_format collect fmt va (out w) = Some (out w')"
proof (induction "length fmt" arbitrary: fmt va w rule: less_induct)
  case less
  then obtain ch p where fmt: "fmt = ch # p" by (cases fmt) auto
  consider "ch = NUL" | "ch \<noteq> NUL" "ch \<noteq> CHR ''%''" | "ch = CHR ''%''" by blast
  then show ?case
  proof cases
    case 3
    with less.prems obtain lz width c q where spec: "format_spec p = Some (lz, width, c, q)"
      by (auto simp: fmt tfp_format_percent bind_eq_Some_conv)
    have q: "length q < length fmt" using format_spec_shorter [OF spec] fmt by simp
    show ?thesis
      using less.prems less.hyps [OF q] 3
      by (auto simp: fmt tfp_format_percent spec bind_eq_Some_conv split: if_splits
          dest!: switch_collect)
  next
    case 2
    then show ?thesis
      using less by (auto simp: fmt tfp_format_text bind_eq_Some_conv putf_collect)
  qed (use less.prems fmt in auto)
qed

end

text \<open>
  A sink that also always returns while \<open>live\<close> holds: then everything the specification
  prints comes out.
\<close>

locale live_sink = char_sink +
  fixes live :: "'w \<Rightarrow> bool"
  assumes putf_live: "live w \<Longrightarrow> \<exists>w'. putf c w = Some w' \<and> live w'"
begin

text \<open>\<open>m\<close> runs from a live sink, gives the value \<open>y\<close> and adds what takes \<open>out w\<close> to \<open>t\<close>.\<close>

lemma putf_step: "live w \<Longrightarrow> \<exists>w'. putf c w = Some w' \<and> out w' = out w @ [c] \<and> live w'"
  using putf_live [of w c] putf_out by blast

lemma pad_live:
  "live w \<Longrightarrow> putchw_pad collect n c (out w) = Some t \<Longrightarrow>
    \<exists>w'. putchw_pad putf n c w = Some w' \<and> out w' = t \<and> live w'"
proof (induction n arbitrary: w)
  case (Suc n)
  obtain w1 where "putf c w = Some w1" "out w1 = out w @ [c]" "live w1"
    using putf_step [OF Suc.prems(1)] by blast
  then show ?case using Suc by (auto simp: collect_def)
qed simp

lemma copy_live:
  "live w \<Longrightarrow> putchw_copy collect s (out w) = Some t \<Longrightarrow>
    \<exists>w'. putchw_copy putf s w = Some w' \<and> out w' = t \<and> live w'"
proof (induction s arbitrary: w)
  case (Cons c s)
  obtain w1 where "putf c w = Some w1" "out w1 = out w @ [c]" "live w1"
    using putf_step [OF Cons.prems(1)] by blast
  then show ?case using Cons by (auto simp: collect_def split: if_splits)
qed simp

lemma putchw_live:
  "live w \<Longrightarrow> putchw collect n z s (out w) = Some t \<Longrightarrow>
    \<exists>w'. putchw putf n z s w = Some w' \<and> out w' = t \<and> live w'"
  using pad_live [of w] copy_live by (fastforce simp: putchw_def bind_eq_Some_conv)

lemma map_Pair_live:
  assumes "map_option (Pair va) (putchw collect n z s (out w)) = Some (va', t)" and "live w"
  shows "\<exists>w'. map_option (Pair va) (putchw putf n z s w) = Some (va', w') \<and> out w' = t \<and> live w'"
  using assms putchw_live [of w n z s t] by auto

lemma switch_live:
  assumes "live w" "format_switch collect ch lz width va (out w) = Some (va', t)"
  shows "\<exists>w'. format_switch putf ch lz width va w = Some (va', w') \<and> out w' = t \<and> live w'"
proof (cases ch rule: conversion_cases)
  case (num f)
  from assms(2) obtain x r bf where r: "va_int va = Some (x, r)" "f x = Some bf"
    "map_option (Pair r) (putchw collect (sint width) lz bf (out w)) = Some (va', t)"
    unfolding format_switch_number [OF num] by (auto simp: bind_eq_Some_conv)
  then show ?thesis
    unfolding format_switch_number [OF num] using map_Pair_live [OF r(3) assms(1)] by simp
next
  case str
  from assms(2) obtain x r where r: "va_str va = Some (x, r)"
    "map_option (Pair r) (putchw collect (sint width) False x (out w)) = Some (va', t)"
    unfolding str by (auto simp: bind_eq_Some_conv format_switch_simps)
  then show ?thesis
    unfolding str using map_Pair_live [OF r(2) assms(1)] by (simp add: format_switch_simps)
next
  case chr
  from assms(2) obtain x r where "va_int va = Some (x, r)" "r = va'"
    "collect (char_of (unat x)) (out w) = Some t"
    unfolding chr by (auto simp: bind_eq_Some_conv format_switch_simps)
  then show ?thesis
    using putf_step [OF assms(1), of "char_of (unat x)"]
    by (auto simp: chr format_switch_simps collect_def)
next
  case pct
  then show ?thesis
    using assms(2) putf_step [OF assms(1), of ch] by (auto simp: format_switch_simps collect_def)
next
  case other
  then show ?thesis using assms by (auto simp: format_switch_other)
qed

lemma format_live:
  "live w \<Longrightarrow> tfp_format collect fmt va (out w) = Some t \<Longrightarrow>
    \<exists>w'. tfp_format putf fmt va w = Some w' \<and> out w' = t \<and> live w'"
proof (induction "length fmt" arbitrary: fmt va w rule: less_induct)
  case less
  then obtain ch p where fmt: "fmt = ch # p" by (cases fmt) auto
  consider "ch = NUL" | "ch \<noteq> NUL" "ch \<noteq> CHR ''%''" | "ch = CHR ''%''" by blast
  then show ?case
  proof cases
    case 3
    with less.prems obtain lz width c q where spec: "format_spec p = Some (lz, width, c, q)"
      by (auto simp: fmt tfp_format_percent bind_eq_Some_conv)
    have q: "length q < length fmt" using format_spec_shorter [OF spec] fmt by simp
    show ?thesis
    proof (cases "c = NUL")
      case False
      then obtain va' t1 where sw: "format_switch collect c lz width va (out w) = Some (va', t1)"
        and rest: "tfp_format collect q va' t1 = Some t"
        using less.prems 3 by (auto simp: fmt tfp_format_percent spec bind_eq_Some_conv)
      obtain w1 where "format_switch putf c lz width va w = Some (va', w1)" "out w1 = t1" "live w1"
        using switch_live [OF less.prems(1) sw] by blast
      with less.hyps [OF q, of w1] rest 3 False show ?thesis
        by (auto simp: fmt tfp_format_percent spec)
    qed (use less.prems 3 in \<open>simp add: fmt tfp_format_percent spec\<close>)
  next
    case 2
    obtain w1 where "putf ch w = Some w1" "out w1 = out w @ [ch]" "live w1"
      using putf_step [OF less.prems(1)] by blast
    with 2 less.prems less.hyps [of p w1] show ?thesis
      by (auto simp: fmt tfp_format_text collect_def)
  qed (use less.prems fmt in auto)
qed

end

section \<open>Interpretations: the specification and the string buffer\<close>

interpretation text_sink: live_sink collect "\<lambda>xs. xs" "\<lambda>_. True"
  by unfold_locales (auto simp: collect_def)

text \<open>
  The buffer of \<open>sprintf\<close>: the text is what lies below the pointer. A run that started with
  the pointer at \<open>s\<close> and has written \<open>t\<close> has changed nothing else.
\<close>

definition buffer_text :: "nat \<times> (nat \<Rightarrow> char) \<Rightarrow> char list" where
  "buffer_text = (\<lambda>(p, buf). map buf [0..<p])"

definition written :: "nat \<Rightarrow> (nat \<Rightarrow> char) \<Rightarrow> char list \<Rightarrow> nat \<times> (nat \<Rightarrow> char)" where
  "written s buf t =
     (s + length t, \<lambda>i. if s \<le> i \<and> i < s + length t then t ! (i - s) else buf i)"

lemma putcp_written: "putcp c (written s buf t) = Some (written s buf (t @ [c]))"
  by (auto simp: putcp_def written_def fun_eq_iff nth_append)

lemma buffer_text_written: "buffer_text (written s buf t) = map buf [0..<s] @ t"
  by (rule nth_equalityI) (auto simp: buffer_text_def written_def nth_append)

interpretation buffer_sink: live_sink putcp buffer_text "\<lambda>w. \<exists>t. w = written s buf t" for s buf
proof unfold_locales
  show "putcp c w = Some w' \<Longrightarrow> buffer_text w' = buffer_text w @ [c]" for c w w'
    by (cases w) (auto simp: putcp_def buffer_text_def)
  show "\<exists>t. w = written s buf t \<Longrightarrow> \<exists>w'. putcp c w = Some w' \<and> (\<exists>t. w' = written s buf t)" for c w
    by (metis putcp_written)
qed

section \<open>Text without conversions\<close>

lemma c_string_Nil [simp]: "c_string [] rest = NUL # rest"
  by (simp add: c_string_def)

lemma c_string_Cons [simp]: "c_string (c # s) rest = c # c_string s rest"
  by (simp add: c_string_def)

lemma collect_plain_text:
  "NUL \<notin> set s \<Longrightarrow> CHR ''%'' \<notin> set s \<Longrightarrow> tfp_format collect (c_string s rest) va xs = Some (xs @ s)"
  by (induction s arbitrary: xs) (auto simp: tfp_format_text collect_def)

lemma collect_putchw_copy:
  "NUL \<notin> set s \<Longrightarrow> putchw_copy collect (c_string s rest) xs = Some (xs @ s)"
  by (induction s arbitrary: xs) (auto simp: collect_def)

lemma collect_pad: "putchw_pad collect n c xs = Some (xs @ replicate n c)"
  by (induction n arbitrary: xs) (simp_all add: collect_def)

lemma putchw_width_string:
  "NUL \<notin> set s \<Longrightarrow> putchw_width (c_string s rest) n = Some (if n \<le> 0 then n else max 0 (n - int (length s)))"
  by (induction s arbitrary: n) auto

lemma collect_putchw:
  assumes "NUL \<notin> set s"
  shows "putchw collect n z (c_string s rest) xs =
    Some (xs @ replicate (nat n - length s) (if z then CHR ''0'' else CHR '' '') @ s)"
proof -
  have "nat (if n \<le> 0 then n else max 0 (n - int (length s))) = nat n - length s"
    by auto
  then show ?thesis
    using assms by (simp add: putchw_def putchw_width_string collect_pad collect_putchw_copy)
qed

text \<open>\<open>collect\<close> adds the same text whatever it has collected before.\<close>

interpretation appended: live_sink collect "\<lambda>ys. xs @ ys" "\<lambda>_. True" for xs
  by unfold_locales (auto simp: collect_def)

lemma collect_prefix:
  "tfp_format collect fmt va xs = map_option ((@) xs) (tfp_format collect fmt va [])"
proof (cases "tfp_format collect fmt va []")
  case None
  have "tfp_format collect fmt va xs \<noteq> Some t" for t
    using appended.format_live [where w = "[]" and fmt = fmt and va = va and xs = xs and t = t] None
    by auto
  then show ?thesis using None by (cases "tfp_format collect fmt va xs") auto
next
  case (Some t)
  then show ?thesis using appended.format_collect [OF Some, of xs] by simp
qed

lemma sprintf_written:
  assumes "tfp_format collect fmt va [] = Some t"
  shows "tfp_sprintf s buf fmt va = Some (snd (written s buf (t @ [NUL])))"
proof -
  have "tfp_format collect fmt va (buffer_text (written s buf [])) = Some (map buf [0..<s] @ t)"
    using assms by (simp add: collect_prefix [of fmt va "map buf [0..<s]"] buffer_text_written)
  then obtain w' t' where w': "tfp_format putcp fmt va (written s buf []) = Some w'"
    "buffer_text w' = map buf [0..<s] @ t" "w' = written s buf t'"
    using buffer_sink.format_live [of "written s buf []" s buf] by blast
  then have "t' = t" by (simp add: buffer_text_written)
  moreover have "(s, buf) = written s buf []" by (auto simp: written_def fun_eq_iff)
  ultimately show ?thesis
    using w' by (simp add: tfp_sprintf_def putcp_written)
qed

section \<open>What a format string means\<close>

text \<open>
  The specification of the interpreter: a format string is a list of pieces, each with its
  spelling and its text. \<open>unsigned_text\<close> and \<open>signed_text\<close> are the numerals of a
  32-bit value.
\<close>

definition unsigned_text :: "nat \<Rightarrow> bool \<Rightarrow> u32 \<Rightarrow> char list" where
  "unsigned_text b uc x = map (\<lambda>d. digit_char uc (word_of_nat d)) (nat_digits b (unat x))"

definition signed_text :: "u32 \<Rightarrow> char list" where
  "signed_text x =
     (if sint x < 0
      then CHR ''-'' # map (\<lambda>d. digit_char False (word_of_nat d)) (nat_digits 10 (nat (- sint x)))
      else map (\<lambda>d. digit_char False (word_of_nat d)) (nat_digits 10 (nat (sint x))))"

definition padded :: "bool \<Rightarrow> nat \<Rightarrow> char list \<Rightarrow> char list" where
  "padded z width s = replicate (width - length s) (if z then CHR ''0'' else CHR '' '') @ s"

datatype piece = Literal char | Conversion bool nat char

fun spelling :: "piece \<Rightarrow> char list" where
  "spelling (Literal c) = [c]"
| "spelling (Conversion z width ch) =
     CHR ''%'' # (if z then [CHR ''0''] else []) @
       (if width = 0 then [] else unsigned_text 10 False (word_of_nat width)) @ [ch]"

fun good_piece :: "piece \<Rightarrow> bool" where
  "good_piece (Literal c) = (c \<noteq> NUL \<and> c \<noteq> CHR ''%'')"
| "good_piece (Conversion z width ch) =
     (ch \<in> set ''udxXcs%'' \<and> width < 2 ^ 31)"

fun number_text :: "char \<Rightarrow> u32 \<Rightarrow> char list" where
  "number_text ch x =
     (if ch = CHR ''d'' then signed_text x
      else if ch = CHR ''u'' then unsigned_text 10 False x
      else unsigned_text 16 (ch = CHR ''X'') x)"

fun piece_text :: "piece \<Rightarrow> va list \<Rightarrow> (char list \<times> va list) option" where
  "piece_text (Literal c) va = Some ([c], va)"
| "piece_text (Conversion z width ch) va =
     (if ch = CHR ''%'' then Some ([CHR ''%''], va)
      else case va of
          [] \<Rightarrow> None
        | Slot x # r \<Rightarrow>
            (if ch = CHR ''s'' then None
             else if ch = CHR ''c'' then Some ([char_of (unat (ucast x :: u32))], r)
             else Some (padded z width (number_text ch (ucast x)), r))
        | Chars p # r \<Rightarrow>
            (if ch = CHR ''s'' \<and> NUL \<in> set p
             then Some (padded False width (takeWhile (\<lambda>c. c \<noteq> NUL) p), r) else None))"

fun format_text :: "piece list \<Rightarrow> va list \<Rightarrow> char list option" where
  "format_text [] va = Some []"
| "format_text (p # ps) va =
     Option.bind (piece_text p va) (\<lambda>(t, va). map_option ((@) t) (format_text ps va))"

lemma unsigned_text_ui2a:
  "b = 10 \<or> b = 16 \<Longrightarrow> ui2a x (word_of_nat b) uc = Some (c_string (unsigned_text b uc x) [])"
  using ui2a_nat_digits [of "word_of_nat b" x uc] by (auto simp: unsigned_text_def c_string_def)

lemma digits_not_NUL:
  "b = 10 \<or> b = 16 \<Longrightarrow> NUL \<notin> set (map (\<lambda>d. digit_char uc (word_of_nat d)) (nat_digits b n))"
  by (auto simp: digit_char_not_NUL digit_char_not_NUL [THEN not_sym]
      dest!: nat_digits_less [rotated])

lemma unsigned_text_not_NUL: "b = 10 \<or> b = 16 \<Longrightarrow> NUL \<notin> set (unsigned_text b uc x)"
  unfolding unsigned_text_def by (rule digits_not_NUL)

lemma signed_text_not_NUL: "NUL \<notin> set (signed_text x)"
  using digits_not_NUL [of 10] by (auto simp: signed_text_def)

lemma unat_minus_sint:
  fixes x :: u32
  assumes "sint x < 0"
  shows "unat (- x) = nat (- sint x)"
proof -
  have "- sint x \<le> 2 ^ 31" using sint_ge [of x] by simp
  then have "unat (word_of_int (- sint x) :: u32) = nat (- sint x)"
    using assms by (intro unat_word_of_int) auto
  then show ?thesis by simp
qed

lemma unat_nat_sint: "0 \<le> sint (x :: u32) \<Longrightarrow> unat x = nat (sint x)"
  using unat_word_of_int [of "sint x", where ?'a = 32] sint_lt [of x] by simp

lemma signed_text_i2a: "i2a x = Some (c_string (signed_text x) [])"
  using ui2a_nat_digits [of 10 x False] ui2a_nat_digits [of 10 "- x" False]
  by (simp add: i2a_def signed_text_def unat_minus_sint unat_nat_sint c_string_def)

lemma number_text_conv:
  assumes "ch \<in> set ''udxX''"
  shows "\<exists>f. number_conv ch = Some f \<and> f x = Some (c_string (number_text ch x) [])"
    and "NUL \<notin> set (number_text ch x)"
proof -
  show "\<exists>f. number_conv ch = Some f \<and> f x = Some (c_string (number_text ch x) [])"
    using assms unsigned_text_ui2a [of 10 x] unsigned_text_ui2a [of 16 x]
    by (auto simp: number_conv_def signed_text_i2a)
  show "NUL \<notin> set (number_text ch x)"
    using signed_text_not_NUL unsigned_text_not_NUL by simp
qed

lemma switch_piece:
  assumes "good_piece (Conversion z width ch)"
    and "piece_text (Conversion z width ch) va = Some (t, va')"
  shows "format_switch collect ch z (word_of_nat width) va xs = Some (va', xs @ t)"
proof -
  have width: "nat (sint (word_of_nat width :: u32)) = width"
  proof -
    have "unat (word_of_nat width :: u32) = width"
      using assms(1) by (simp add: unat_of_nat)
    then show ?thesis using assms(1) sint_eq_unat [of "word_of_nat width :: u32"] by simp
  qed
  consider (num) "ch \<in> set ''udxX''" | (chr) "ch = CHR ''c''" | (str) "ch = CHR ''s''"
    | (pct) "ch = CHR ''%''"
    using assms(1) by auto
  then show ?thesis
  proof cases
    case num
    then obtain x where va: "va = Slot x # va'" "t = padded z width (number_text ch (ucast x))"
      using assms(2) by (auto split: list.splits va.splits if_splits)
    obtain f where f: "number_conv ch = Some f"
      "f (ucast x) = Some (c_string (number_text ch (ucast x)) [])"
      using number_text_conv(1) [OF num] by blast
    then show ?thesis
      using number_text_conv(2) [OF num, of "ucast x"]
      by (simp add: format_switch_number va_int_def va collect_putchw padded_def width)
  next
    case str
    then obtain p where va: "va = Chars p # va'" "NUL \<in> set p"
      and t: "t = padded False width (takeWhile (\<lambda>c. c \<noteq> NUL) p)"
      using assms(2) by (auto split: list.splits va.splits if_splits)
    obtain ys rest where ys: "p = ys @ NUL # rest" "NUL \<notin> set ys"
      using split_list_first [OF va(2)] by blast
    then have "takeWhile (\<lambda>c. c \<noteq> NUL) p = ys"
      by (auto simp: takeWhile_append)
    with ys(1) have p: "p = c_string (takeWhile (\<lambda>c. c \<noteq> NUL) p) rest"
      by (simp add: c_string_def)
    have "NUL \<notin> set (takeWhile (\<lambda>c. c \<noteq> NUL) p)" by (auto dest: set_takeWhileD)
    then show ?thesis
      using collect_putchw [of "takeWhile (\<lambda>c. c \<noteq> NUL) p" _ False rest xs] p
      by (simp add: str format_switch_simps va_str_def va t padded_def width)
  next
    case chr
    then show ?thesis
      using assms(2)
      by (auto simp: format_switch_simps va_int_def collect_def split: list.splits va.splits)
  next
    case pct
    then show ?thesis using assms(2) by (simp add: format_switch_simps collect_def)
  qed
qed

lemma digit_char_code:
  assumes "x < 10"
  shows "(of_char (digit_char uc (word_of_nat x)) :: int) = 48 + int x"
proof -
  have "x < 16" using assms by simp
  then show ?thesis
    using assms unfolding small_digit_cases insert_iff empty_iff
    by (elim disjE) (simp_all add: digit_char_def of_char_char_of_int)
qed

lemma nat_digits_hd: "2 \<le> b \<Longrightarrow> 0 < n \<Longrightarrow> 0 < hd (nat_digits b n)"
proof (induction b n rule: nat_digits.induct)
  case (1 b n)
  then show ?case by (subst nat_digits.simps) (auto simp: div_greater_zero_iff)
qed

lemma a2i_width:
  assumes "0 < width" "width < 2 ^ 31" "a2d ch < 0 \<or> 10 < a2d ch"
  shows "a2i (hd (unsigned_text 10 False (word_of_nat width)))
    (tl (unsigned_text 10 False (word_of_nat width)) @ ch # tail) 10 = Some (ch, tail, word_of_nat width)"
proof -
  let ?ds = "nat_digits 10 width"
  let ?dc = "\<lambda>d. digit_char False (word_of_nat d)"
  have w: "unat (word_of_nat width :: u32) = width" using assms(2) by (simp add: unat_of_nat)
  have "\<forall>x \<in> set ?ds. x < 16 \<and> int x \<le> 10"
    using nat_digits_less [of 10 _ width] by fastforce
  from a2i_loop_digits [OF this assms(3), of False tail 0]
  have "a2i_loop (hd (map ?dc ?ds @ [ch])) (tl (map ?dc ?ds @ [ch]) @ tail) 10 0 =
      Some (ch, tail, word_of_nat (foldl (\<lambda>v d. v * 10 + d) 0 ?ds))"
    using foldl_digits_word [of 10 0 ?ds] by simp
  then show ?thesis
    by (simp add: a2i_def unsigned_text_def w nat_digits_value hd_append2 tl_append2)
qed

lemma format_spec_conversion:
  assumes "good_piece (Conversion z width ch)"
  shows "format_spec (tl (spelling (Conversion z width ch)) @ tail) =
    Some (z, word_of_nat width, ch, tail)"
proof (cases "width = 0")
  case True
  then show ?thesis
    using assms by (auto simp: format_spec_def)
next
  case False
  let ?t = "unsigned_text 10 False (word_of_nat width)"
  have w: "unat (word_of_nat width :: u32) = width" using assms by (simp add: unat_of_nat)
  have t: "?t = hd ?t # tl ?t" by (simp add: unsigned_text_def)
  have hd: "hd ?t = digit_char False (word_of_nat (hd (nat_digits 10 width)))"
    by (simp add: unsigned_text_def w hd_map)
  have d: "0 < hd (nat_digits 10 width)" "hd (nat_digits 10 width) < 10"
    using False nat_digits_hd [of 10 width] nat_digits_less [of 10 "hd (nat_digits 10 width)" width]
    by auto
  have code: "(of_char (hd ?t) :: int) = 48 + int (hd (nat_digits 10 width))"
    using hd digit_char_code [OF d(2)] by simp
  then have not0: "hd ?t \<noteq> CHR ''0''" using d by auto
  have stop: "a2d ch < 0 \<or> 10 < a2d ch" using assms by (auto simp: a2d_def)
  have a2i: "a2i (hd ?t) (tl ?t @ ch # tail) 10 = Some (ch, tail, word_of_nat width)"
    using False assms stop by (intro a2i_width) auto
  have "tl (spelling (Conversion z width ch)) @ tail =
      (if z then [CHR ''0''] else []) @ hd ?t # tl ?t @ ch # tail"
    using False t by simp
  then show ?thesis
    using not0 code d a2i by (simp add: format_spec_def)
qed

lemma collect_format_text:
  "list_all good_piece ps \<Longrightarrow> format_text ps va = Some t \<Longrightarrow>
    tfp_format collect (c_string (concat (map spelling ps)) rest) va xs = Some (xs @ t)"
proof (induction ps arbitrary: va t xs)
  case Nil
  then show ?case by simp
next
  case (Cons p ps)
  let ?tail = "c_string (concat (map spelling ps)) rest"
  obtain t1 va1 t2 where t: "piece_text p va = Some (t1, va1)" "format_text ps va1 = Some t2"
    "t = t1 @ t2"
    using Cons.prems(2) by (auto simp: bind_eq_Some_conv)
  have IH: "tfp_format collect ?tail va1 xs' = Some (xs' @ t2)" for xs'
    using Cons t(2) by simp
  have fmt: "c_string (concat (map spelling (p # ps))) rest = spelling p @ ?tail"
    by (simp add: c_string_def)
  show ?case
  proof (cases p)
    case (Literal c)
    then have "t1 = [c]" "va1 = va" using t(1) by auto
    then show ?thesis
      using Cons.prems(1) t(3) IH Literal by (simp add: tfp_format_text collect_def [of c])
  next
    case (Conversion z width ch)
    have good: "good_piece (Conversion z width ch)" using Cons.prems(1) Conversion by simp
    have head: "spelling p @ ?tail = CHR ''%'' # tl (spelling (Conversion z width ch)) @ ?tail"
      using Conversion by simp
    have "ch \<noteq> NUL" using good by auto
    moreover have "format_switch collect ch z (word_of_nat width) va xs = Some (va1, xs @ t1)"
      using switch_piece [OF good] t(1) Conversion by simp
    ultimately show ?thesis
      using format_spec_conversion [OF good, of ?tail] IH t(3)
      unfolding fmt head by (simp add: tfp_format_percent)
  qed
qed

section \<open>Properties\<close>

lemma ui2a_length:
  assumes "unat base = 10 \<or> unat base = 16"
  shows "\<exists>bf. ui2a num base uc = Some bf \<and> length bf \<le> 11"
proof -
  have "unat num < 10 ^ Suc 9" using unsigned_less [of num, where ?'a = nat] by simp
  moreover have "unat num < 16 ^ Suc 9" using unsigned_less [of num, where ?'a = nat] by simp
  ultimately have "length (nat_digits (unat base) (unat num)) \<le> Suc 9"
    using assms nat_digits_length by (metis numeral_le_iff semiring_norm(68,71,72))
  then show ?thesis
    using assms by (auto simp: ui2a_nat_digits)
qed

lemma i2a_length: "\<exists>bf. i2a num = Some bf \<and> length bf \<le> 12"
  using ui2a_length [of 10 "- num" False] ui2a_length [of 10 num False] by (auto simp: i2a_def)

text \<open>
  The conversion buffer: \<open>tfp_format\<close> converts into \<open>char bf[12]\<close>, and every number it
  converts (unsigned and signed decimal, hexadecimal in either case), terminator included,
  is at most 12 characters, so no conversion writes past the buffer; and every conversion
  returns.
\<close>

theorem conversions_fit_buffer:
  "(\<exists>bf. ui2a num 10 uc = Some bf \<and> length bf \<le> 12) \<and>
   (\<exists>bf. ui2a num 16 uc = Some bf \<and> length bf \<le> 12) \<and>
   (\<exists>bf. i2a num = Some bf \<and> length bf \<le> 12)"
  using ui2a_length [of 10 num uc] ui2a_length [of 16 num uc] i2a_length [of num] by fastforce

text \<open>
  C33. Printing and parsing: the digits \<open>ui2a\<close> writes for a number in base 10 or 16, parsed
  by \<open>a2i\<close> in the same base, give the number back, and \<open>a2i\<close> stops on the terminator with
  the pointer right after it. For numbers of 2147483648 and more this takes \<open>a2i\<close>'s \<open>int\<close> to wrap around.
\<close>

theorem ui2a_a2i_roundtrip:
  assumes "base = 10 \<or> base = 16"
  shows "\<exists>c cs. ui2a num (word_of_nat base) uc = Some (c # cs) \<and>
    a2i c (cs @ rest) (int base) = Some (NUL, rest, num)"
proof -
  let ?ds = "nat_digits base (unat num)"
  let ?dc = "\<lambda>x. digit_char uc (word_of_nat x)"
  have base: "unat (word_of_nat base :: u32) = base" using assms by auto
  have small: "\<forall>x \<in> set ?ds. x < 16 \<and> int x \<le> int base"
    using nat_digits_less [of base _ "unat num"] assms by fastforce
  have "a2d NUL < 0 \<or> int base < a2d NUL" by (simp add: a2d_def)
  from a2i_loop_digits [OF small this, of uc rest 0]
  have "a2i_loop (hd (map ?dc ?ds @ [NUL])) (tl (map ?dc ?ds @ [NUL]) @ rest) (int base) 0 =
      Some (NUL, rest, word_of_nat (foldl (\<lambda>v d. v * base + d) 0 ?ds))"
    using foldl_digits_word [of base 0 ?ds] by simp
  moreover have "foldl (\<lambda>v d. v * base + d) 0 ?ds = unat num"
    using assms by (intro nat_digits_value) auto
  moreover have "ui2a num (word_of_nat base) uc = Some (map ?dc ?ds @ [NUL])"
    using ui2a_nat_digits [of "word_of_nat base" num uc] assms base by auto
  ultimately show ?thesis
    by (intro exI [of _ "hd (map ?dc ?ds @ [NUL])"] exI [of _ "tl (map ?dc ?ds @ [NUL])"])
      (simp add: a2i_def)
qed

theorem ui2a_a2i_roundtrip_witness:
  "\<exists>c cs. ui2a 4294967295 (word_of_nat 10) False = Some (c # cs) \<and>
    a2i c (cs @ []) (int 10) = Some (NUL, [], 4294967295)"
  by (rule ui2a_a2i_roundtrip) simp


lemma format_text_example:
  "format_text [Literal CHR ''E'', Literal CHR ''L'', Conversion True 3 CHR ''d'', Conversion False 0 CHR ''s'']
     [Slot 7, Chars (c_string ''ab'' [])] = Some ''EL007ab''"
  by code_simp

text \<open>
  C32. What \<open>sprintf\<close> writes: for a format string spelled from literal characters and the
  conversions \<open>%u %d %x %X %c %s %%\<close> with optional zero flag and width, with arguments of
  the right types, the buffer holds exactly the text the pieces stand for (numerals of the
  value in their base, sign, padding to the width, in order), then the terminating NUL, and
  no byte before the start or after the terminator changes.
\<close>

theorem sprintf_text:
  assumes "list_all good_piece ps" and "format_text ps va = Some t"
  shows "\<exists>buf'. tfp_sprintf s buf (c_string (concat (map spelling ps)) rest) va = Some buf' \<and>
    map buf' [s..<s + length t + 1] = t @ [NUL] \<and>
    (\<forall>i. i < s \<or> s + length t < i \<longrightarrow> buf' i = buf i)"
proof -
  have "tfp_format collect (c_string (concat (map spelling ps)) rest) va [] = Some t"
    using collect_format_text [OF assms, of rest "[]"] by simp
  from sprintf_written [OF this, of s buf] show ?thesis
    by (auto simp: written_def nth_append intro!: nth_equalityI)
qed

theorem sprintf_text_witness:
  "\<exists>buf'. tfp_sprintf 5 (\<lambda>_. CHR ''z'') (c_string ''EL%03d%s'' []) [Slot 7, Chars (c_string ''ab'' [])]
      = Some buf' \<and>
    map buf' [5..<5 + 7 + 1] = ''EL007ab'' @ [NUL] \<and>
    (\<forall>i. i < 5 \<or> 5 + 7 < i \<longrightarrow> buf' i = CHR ''z'')"
proof -
  let ?ps = "[Literal CHR ''E'', Literal CHR ''L'', Conversion True 3 CHR ''d'',
    Conversion False 0 CHR ''s'']"
  have "concat (map spelling ?ps) = ''EL%03d%s''" by code_simp
  moreover have "list_all good_piece ?ps" by simp
  ultimately show ?thesis
    using sprintf_text [OF _ format_text_example, of 5 "\<lambda>_. CHR ''z''" "[]"] by simp
qed

text \<open>
  The width parser's limit: \<open>a2i\<close> breaks off on \<open>digit > base\<close>, not \<open>digit >= base\<close>, so
  in a width, base ten, the letter \<open>a\<close> (and \<open>A\<close>) counts as a digit ten: \<open>%1ad\<close> is a decimal
  conversion of width 20.
\<close>

theorem width_accepts_letter_a:
  "format_spec (c_string ''1ad'' rest) = Some (False, 20, CHR ''d'', c_string [] rest) \<and>
   format_spec (c_string ''1Ad'' rest) = Some (False, 20, CHR ''d'', c_string [] rest)"
  by (simp add: format_spec_def a2i_def a2i_loop.simps a2d_def)

end
