(* ===== verification/Mini_Uart.thy ===== *)
theory Mini_Uart
  imports Printf
begin

text \<open>
  The device side: register accesses (\<open>get32\<close>, \<open>put32\<close>, \<open>delay\<close> of \<open>utils.S\<close>), the register
  maps of \<open>include/peripherals\<close>, and the mini UART driver (\<open>mini_uart.c\<close>).

  A device is an environment: what a read returns is given, for each moment, by
  \<open>w_reply\<close>, and time advances with every access. \<open>w_log\<close> records the accesses in order.
  The polling loops run as long as the environment keeps them waiting: \<open>None\<close> is a loop
  that never ends. The register addresses take the peripheral base as an argument, which is
  \<open>0x3F000000\<close> up to lesson 5 and \<open>VA_START + DEVICE_BASE\<close> with virtual memory.
\<close>

unbundle bit_operations_syntax

section \<open>The world of devices\<close>

datatype io = Rd addr u32 | Wr addr u32 | Dly nat

record world =
  w_time :: nat
  w_reply :: "nat \<Rightarrow> addr \<Rightarrow> u32"
  w_log :: "io list"

definition get32 :: "addr \<Rightarrow> world \<Rightarrow> u32 \<times> world" where
  "get32 a w =
     (let v = w_reply w (w_time w) a
      in (v, w\<lparr>w_time := Suc (w_time w), w_log := w_log w @ [Rd a v]\<rparr>))"

definition put32 :: "addr \<Rightarrow> u32 \<Rightarrow> world \<Rightarrow> world" where
  "put32 a v w = w\<lparr>w_time := Suc (w_time w), w_log := w_log w @ [Wr a v]\<rparr>"

text \<open>\<open>subs x0, x0, #1; bne delay\<close>: the number of times round.\<close>

function delay_count :: "u64 \<Rightarrow> nat" where
  "delay_count x = (let x' = x - 1 in if x' \<noteq> 0 then Suc (delay_count x') else 1)"
  by pat_completeness auto
termination
proof (relation "measure (\<lambda>x. unat (x - 1))")
  fix x x' :: u64
  assume "x' = x - 1" "x' \<noteq> 0"
  moreover from this(2) have "unat (x' - 1) < unat x'"
    using unat_minus_one [of x'] unat_gt_0 [of x'] by linarith
  ultimately have "unat (x' - 1) < unat (x - 1)" by (simp only:)
  then show "(x', x) \<in> measure (\<lambda>x. unat (x - 1))" by (simp only: in_measure)
qed simp

declare delay_count.simps [simp del]

definition delay :: "u64 \<Rightarrow> world \<Rightarrow> world" where
  "delay n w = w\<lparr>w_time := w_time w + delay_count n, w_log := w_log w @ [Dly (delay_count n)]\<rparr>"

lemma delay_count_eq: "x \<noteq> 0 \<Longrightarrow> delay_count x = unat x"
proof (induction x rule: delay_count.induct)
  case (1 x)
  have "unat x = Suc (unat (x - 1))"
    using "1.prems" by (simp add: unat_minus_one unat_gt_0)
  then show ?case
    using 1 by (subst delay_count.simps) (auto simp: Let_def)
qed

lemma delay_count_0: "delay_count 0 = 2 ^ 64"
proof -
  have "unat (- 1 :: u64) = 2 ^ 64 - 1"
    by (simp add: unsigned_minus_1_eq_mask mask_eq_exp_minus_1)
  then show ?thesis
    using delay_count_eq [of "- 1"] by (subst delay_count.simps) (simp add: Let_def)
qed

section \<open>Registers\<close>

definition PBASE_phys :: addr where "PBASE_phys = 0x3F000000"

definition GPFSEL1 :: "addr \<Rightarrow> addr" where "GPFSEL1 pb = pb + 0x00200004"
definition GPPUD :: "addr \<Rightarrow> addr" where "GPPUD pb = pb + 0x00200094"
definition GPPUDCLK0 :: "addr \<Rightarrow> addr" where "GPPUDCLK0 pb = pb + 0x00200098"

definition AUX_ENABLES :: "addr \<Rightarrow> addr" where "AUX_ENABLES pb = pb + 0x00215004"
definition AUX_MU_IO_REG :: "addr \<Rightarrow> addr" where "AUX_MU_IO_REG pb = pb + 0x00215040"
definition AUX_MU_IER_REG :: "addr \<Rightarrow> addr" where "AUX_MU_IER_REG pb = pb + 0x00215044"
definition AUX_MU_LCR_REG :: "addr \<Rightarrow> addr" where "AUX_MU_LCR_REG pb = pb + 0x0021504C"
definition AUX_MU_MCR_REG :: "addr \<Rightarrow> addr" where "AUX_MU_MCR_REG pb = pb + 0x00215050"
definition AUX_MU_LSR_REG :: "addr \<Rightarrow> addr" where "AUX_MU_LSR_REG pb = pb + 0x00215054"
definition AUX_MU_CNTL_REG :: "addr \<Rightarrow> addr" where "AUX_MU_CNTL_REG pb = pb + 0x00215060"
definition AUX_MU_BAUD_REG :: "addr \<Rightarrow> addr" where "AUX_MU_BAUD_REG pb = pb + 0x00215068"

lemmas register_defs [layout_defs] =
  PBASE_phys_def GPFSEL1_def GPPUD_def GPPUDCLK0_def AUX_ENABLES_def AUX_MU_IO_REG_def
  AUX_MU_IER_REG_def AUX_MU_LCR_REG_def AUX_MU_MCR_REG_def AUX_MU_LSR_REG_def
  AUX_MU_CNTL_REG_def AUX_MU_BAUD_REG_def

section \<open>The driver\<close>

text \<open>\<open>while (1) { if (get32(AUX_MU_LSR_REG) & m) break; }\<close>\<close>

partial_function (option) lsr_wait :: "addr \<Rightarrow> u32 \<Rightarrow> world \<Rightarrow> world option" where
  "lsr_wait pb m w =
     (case get32 (AUX_MU_LSR_REG pb) w of
        (v, w) \<Rightarrow> if v AND m \<noteq> 0 then Some w else lsr_wait pb m w)"

definition uart_send :: "addr \<Rightarrow> char \<Rightarrow> world \<Rightarrow> world option" where
  "uart_send pb c w = map_option (put32 (AUX_MU_IO_REG pb) (of_char c)) (lsr_wait pb 0x20 w)"

definition uart_recv :: "addr \<Rightarrow> world \<Rightarrow> (char \<times> world) option" where
  "uart_recv pb w =
     map_option (\<lambda>w. case get32 (AUX_MU_IO_REG pb) w of (v, w) \<Rightarrow> (char_of (unat (v AND 0xFF)), w))
       (lsr_wait pb 0x01 w)"

text \<open>The string is the characters from the pointer on; running off its end is \<open>None\<close>.\<close>

fun uart_send_string :: "addr \<Rightarrow> char list \<Rightarrow> world \<Rightarrow> world option" where
  "uart_send_string pb [] w = None"
| "uart_send_string pb (c # str) w =
     (if c \<noteq> NUL then Option.bind (uart_send pb c w) (uart_send_string pb str) else Some w)"

definition uart_selector :: "u32 \<Rightarrow> u32" where
  "uart_selector v =
     (let selector = v AND NOT (push_bit 12 7);
          selector = selector OR push_bit 12 2;
          selector = selector AND NOT (push_bit 15 7)
      in selector OR push_bit 15 2)"

definition uart_init :: "addr \<Rightarrow> world \<Rightarrow> world" where
  "uart_init pb w =
     (case get32 (GPFSEL1 pb) w of
        (v, w) \<Rightarrow>
          put32 (AUX_MU_CNTL_REG pb) 3 (put32 (AUX_MU_BAUD_REG pb) 270
          (put32 (AUX_MU_MCR_REG pb) 0 (put32 (AUX_MU_LCR_REG pb) 3
          (put32 (AUX_MU_IER_REG pb) 0 (put32 (AUX_MU_CNTL_REG pb) 0
          (put32 (AUX_ENABLES pb) 1 (put32 (GPPUDCLK0 pb) 0
          (delay 150 (put32 (GPPUDCLK0 pb) (push_bit 14 1 OR push_bit 15 1)
          (delay 150 (put32 (GPPUD pb) 0
          (put32 (GPFSEL1 pb) (uart_selector v) w)))))))))))))"

definition putc :: "addr \<Rightarrow> char \<Rightarrow> world \<Rightarrow> world option" where
  "putc pb c w = uart_send pb c w"

section \<open>Accesses\<close>

lemma world_access_simps [simp]:
  "w_time (snd (get32 a w)) = Suc (w_time w)"
  "w_reply (snd (get32 a w)) = w_reply w"
  "w_log (snd (get32 a w)) = w_log w @ [Rd a (fst (get32 a w))]"
  "fst (get32 a w) = w_reply w (w_time w) a"
  "w_time (put32 a v w) = Suc (w_time w)"
  "w_reply (put32 a v w) = w_reply w"
  "w_log (put32 a v w) = w_log w @ [Wr a v]"
  "w_reply (delay n w) = w_reply w"
  "w_log (delay n w) = w_log w @ [Dly (delay_count n)]"
  by (simp_all add: get32_def put32_def delay_def Let_def)

text \<open>The bytes the UART has been given to send, as characters.\<close>

definition sent :: "addr \<Rightarrow> world \<Rightarrow> char list" where
  "sent pb w =
     concat (map (\<lambda>e. case e of Wr a v \<Rightarrow> if a = AUX_MU_IO_REG pb then [char_of (unat v)] else []
                               | _ \<Rightarrow> []) (w_log w))"

text \<open>A line that is ready infinitely often; the environment does not change.\<close>

definition line_ready :: "addr \<Rightarrow> u32 \<Rightarrow> world \<Rightarrow> bool" where
  "line_ready pb m w \<longleftrightarrow> (\<forall>t. \<exists>t' \<ge> t. w_reply w t' (AUX_MU_LSR_REG pb) AND m \<noteq> 0)"

lemma lsr_wait_step:
  "lsr_wait pb m w =
     (if w_reply w (w_time w) (AUX_MU_LSR_REG pb) AND m \<noteq> 0
      then Some (snd (get32 (AUX_MU_LSR_REG pb) w))
      else lsr_wait pb m (snd (get32 (AUX_MU_LSR_REG pb) w)))"
  by (subst lsr_wait.simps) (simp add: get32_def Let_def)

lemma lsr_wait_returns:
  "w_time w \<le> t \<Longrightarrow> w_reply w t (AUX_MU_LSR_REG pb) AND m \<noteq> 0 \<Longrightarrow>
    \<exists>w'. lsr_wait pb m w = Some w' \<and> w_time w' \<le> Suc t"
proof (induction "t - w_time w" arbitrary: w)
  case 0
  then have "w_time w = t" by simp
  with 0 show ?case by (subst lsr_wait_step) simp
next
  case (Suc n)
  show ?case
  proof (cases "w_reply w (w_time w) (AUX_MU_LSR_REG pb) AND m = 0")
    case True
    have "\<exists>w'. lsr_wait pb m (snd (get32 (AUX_MU_LSR_REG pb) w)) = Some w' \<and> w_time w' \<le> Suc t"
      using Suc.hyps(2) Suc.prems by (intro Suc.hyps(1)) auto
    with True show ?thesis by (subst lsr_wait_step) simp
  next
    case False
    with Suc.prems show ?thesis by (subst lsr_wait_step) simp
  qed
qed

text \<open>What a wait that returns has done: polled the line until it was ready, and nothing else.\<close>

lemma lsr_wait_Some:
  assumes "lsr_wait pb m w = Some w'"
  shows "w_reply w' = w_reply w \<and> (\<exists>vs v. w_log w' = w_log w @ map (Rd (AUX_MU_LSR_REG pb)) (vs @ [v]) \<and>
    (\<forall>u \<in> set vs. u AND m = 0) \<and> v AND m \<noteq> 0)"
proof (rule lsr_wait.raw_induct [where P = "\<lambda>pb m w w'. w_reply w' = w_reply w \<and>
    (\<exists>vs v. w_log w' = w_log w @ map (Rd (AUX_MU_LSR_REG pb)) (vs @ [v]) \<and>
    (\<forall>u \<in> set vs. u AND m = 0) \<and> v AND m \<noteq> 0)", OF _ assms])
  fix f :: "addr \<Rightarrow> u32 \<Rightarrow> world \<Rightarrow> world option" and pb m and w w' :: world
  let ?v = "w_reply w (w_time w) (AUX_MU_LSR_REG pb)"
  let ?w = "snd (get32 (AUX_MU_LSR_REG pb) w)"
  assume IH: "\<And>pb m w w'. f pb m w = Some w' \<Longrightarrow> w_reply w' = w_reply w \<and>
      (\<exists>vs v. w_log w' = w_log w @ map (Rd (AUX_MU_LSR_REG pb)) (vs @ [v]) \<and>
      (\<forall>u \<in> set vs. u AND m = 0) \<and> v AND m \<noteq> 0)"
    and run: "(case get32 (AUX_MU_LSR_REG pb) w of
      (v, w) \<Rightarrow> if v AND m \<noteq> 0 then Some w else f pb m w) = Some w'"
  show "w_reply w' = w_reply w \<and>
      (\<exists>vs v. w_log w' = w_log w @ map (Rd (AUX_MU_LSR_REG pb)) (vs @ [v]) \<and>
      (\<forall>u \<in> set vs. u AND m = 0) \<and> v AND m \<noteq> 0)"
  proof (cases "?v AND m = 0")
    case True
    with run have "f pb m ?w = Some w'" by (simp add: split_beta)
    from IH [OF this] obtain vs v where "w_reply w' = w_reply w"
      "w_log w' = w_log w @ map (Rd (AUX_MU_LSR_REG pb)) ((?v # vs) @ [v])"
      "\<forall>u \<in> set vs. u AND m = 0" "v AND m \<noteq> 0" by auto
    with True show ?thesis by (metis set_ConsD)
  next
    case False
    with run have "w' = ?w" by (simp add: split_beta)
    with False show ?thesis by (intro conjI exI [of _ "[]"] exI [of _ ?v]) auto
  qed
qed

lemma char_round_u32: "char_of (unat (of_char c :: u32)) = c"
proof -
  have "(of_char c :: nat) < 4294967296"
    using nat_of_char_less_256 [of c] by linarith
  then have "unat (word_of_nat (of_char c) :: u32) = of_char c"
    by (simp only: unat_of_nat) simp
  then show ?thesis by (simp only: of_nat_of_char char_of_char)
qed

lemma sent_polls: "w_log w' = w_log w @ map (Rd a) vs \<Longrightarrow> sent pb w' = sent pb w"
  by (induction vs arbitrary: w' rule: rev_induct) (auto simp: sent_def o_def)

lemma sent_put32_io [simp]:
  "sent pb (put32 (AUX_MU_IO_REG pb) v w) = sent pb w @ [char_of (unat v)]"
  by (simp add: sent_def)

lemma uart_send_Some:
  assumes "uart_send pb c w = Some w'"
  shows "w_reply w' = w_reply w \<and> sent pb w' = sent pb w @ [c] \<and>
    (\<exists>vs v. w_log w' = w_log w @ map (Rd (AUX_MU_LSR_REG pb)) (vs @ [v]) @
        [Wr (AUX_MU_IO_REG pb) (of_char c)] \<and> v AND 0x20 \<noteq> 0)"
proof -
  from assms obtain w1 where w1: "lsr_wait pb 0x20 w = Some w1"
    and w': "w' = put32 (AUX_MU_IO_REG pb) (of_char c) w1"
    by (auto simp: uart_send_def)
  from lsr_wait_Some [OF w1] obtain vs v where polls: "w_reply w1 = w_reply w"
    "w_log w1 = w_log w @ map (Rd (AUX_MU_LSR_REG pb)) (vs @ [v])" "v AND 0x20 \<noteq> 0" by blast
  from sent_polls [OF polls(2)] have "sent pb w1 = sent pb w" .
  with polls show ?thesis by (auto simp: w' char_round_u32)
qed

lemma uart_send_ready:
  assumes "line_ready pb 0x20 w"
  shows "\<exists>w'. uart_send pb c w = Some w' \<and> line_ready pb 0x20 w'"
proof -
  from assms obtain t where "w_time w \<le> t" "w_reply w t (AUX_MU_LSR_REG pb) AND 0x20 \<noteq> 0"
    by (auto simp: line_ready_def)
  then obtain w' where "lsr_wait pb 0x20 w = Some w'" using lsr_wait_returns by blast
  then have send: "uart_send pb c w = Some (put32 (AUX_MU_IO_REG pb) (of_char c) w')"
    by (simp add: uart_send_def)
  then show ?thesis
    using uart_send_Some [OF send] assms by (simp add: line_ready_def)
qed

text \<open>The UART as the sink of \<open>printf\<close>.\<close>

interpretation uart_sink: live_sink "putc pb" "sent pb" "line_ready pb 0x20" for pb
  by unfold_locales (auto simp: putc_def dest: uart_send_Some uart_send_ready)

lemma printf_uart_run:
  assumes "line_ready pb 0x20 w" and "list_all good_piece ps" and "format_text ps va = Some t"
    and "stdout_putf st = putc pb"
  shows "\<exists>w'. tfp_printf st (c_string (concat (map spelling ps)) rest) va w = Some w' \<and>
    sent pb w' = sent pb w @ t \<and> line_ready pb 0x20 w'"
proof -
  have "tfp_format collect (c_string (concat (map spelling ps)) rest) va (sent pb w) =
      Some (sent pb w @ t)"
    by (rule collect_format_text [OF assms(2,3)])
  from uart_sink.format_live [OF assms(1) this] show ?thesis
    by (simp add: tfp_printf_def assms(4))
qed

text \<open>
  C34. Printing on the UART: when the transmitter becomes ready again and again, \<open>printf\<close>
  through \<open>putc\<close> returns, and the bytes it has sent are exactly the text the format string
  stands for, in order, after what was sent before.
\<close>

theorem printf_uart:
  assumes "line_ready pb 0x20 w" and "list_all good_piece ps" and "format_text ps va = Some t"
    and "stdout_putf st = putc pb"
  shows "\<exists>w'. tfp_printf st (c_string (concat (map spelling ps)) rest) va w = Some w' \<and>
    sent pb w' = sent pb w @ t \<and> line_ready pb 0x20 w'"
  by (rule printf_uart_run [OF assms])

definition always_ready :: world where
  "always_ready = \<lparr>w_time = 0, w_reply = (\<lambda>t a. 0x21), w_log = []\<rparr>"

lemma line_ready_always: "line_ready pb 0x20 always_ready"
  by (auto simp: line_ready_def always_ready_def)

theorem printf_uart_witness:
  "\<exists>w'. tfp_printf (init_printf (putc PBASE_phys) \<lparr>stdout_putf = (\<lambda>c w. None)\<rparr>)
       (c_string ''EL%03d%s'' []) [Slot 7, Chars (c_string ''ab'' [])] always_ready = Some w' \<and>
    sent PBASE_phys w' = ''EL007ab'' \<and> line_ready PBASE_phys 0x20 w'"
proof -
  let ?ps = "[Literal CHR ''E'', Literal CHR ''L'', Conversion True 3 CHR ''d'',
    Conversion False 0 CHR ''s'']"
  have "concat (map spelling ?ps) = ''EL%03d%s''" by code_simp
  moreover have "list_all good_piece ?ps" by simp
  moreover have "sent PBASE_phys always_ready = []" by (simp add: sent_def always_ready_def)
  ultimately show ?thesis
    using printf_uart [OF line_ready_always _ format_text_example, where pb = PBASE_phys
        and st = "init_printf (putc PBASE_phys) \<lparr>stdout_putf = (\<lambda>c w. None)\<rparr>" and rest = "[]"]
    by (simp add: init_printf_def)
qed

text \<open>
  Sending and receiving one character. A \<open>uart_send\<close> that returns has polled the line
  status until the transmitter was ready and then written the character, once, to the data
  register; a \<open>uart_recv\<close> that returns has polled until data was ready, read the data
  register once, and returns the low byte of what it read.
\<close>

theorem uart_send_recv_functional:
  "(uart_send pb c w = Some w' \<longrightarrow>
     (\<exists>vs v. w_log w' = w_log w @ map (Rd (AUX_MU_LSR_REG pb)) (vs @ [v]) @
        [Wr (AUX_MU_IO_REG pb) (of_char c)] \<and> v AND 0x20 \<noteq> 0) \<and> sent pb w' = sent pb w @ [c]) \<and>
   (uart_recv pb w = Some (d, w') \<longrightarrow>
     (\<exists>vs v x. w_log w' = w_log w @ map (Rd (AUX_MU_LSR_REG pb)) (vs @ [v]) @
        [Rd (AUX_MU_IO_REG pb) x] \<and> (\<forall>u \<in> set vs. u AND 1 = 0) \<and> v AND 1 \<noteq> 0 \<and>
        d = char_of (unat (x AND 0xFF))) \<and> sent pb w' = sent pb w)"
proof (intro conjI impI)
  assume run: "uart_recv pb w = Some (d, w')"
  then obtain w1 where w1: "lsr_wait pb 0x01 w = Some w1"
    and w': "w' = snd (get32 (AUX_MU_IO_REG pb) w1)"
      "d = char_of (unat (fst (get32 (AUX_MU_IO_REG pb) w1) AND 0xFF))"
    by (auto simp: uart_recv_def split_beta)
  from lsr_wait_Some [OF w1] obtain vs v where
    log: "w_log w1 = w_log w @ map (Rd (AUX_MU_LSR_REG pb)) (vs @ [v])"
    "\<forall>u \<in> set vs. u AND 1 = 0" "v AND 1 \<noteq> 0" by auto
  then show "\<exists>vs v x. w_log w' = w_log w @ map (Rd (AUX_MU_LSR_REG pb)) (vs @ [v]) @
      [Rd (AUX_MU_IO_REG pb) x] \<and> (\<forall>u \<in> set vs. u AND 1 = 0) \<and> v AND 1 \<noteq> 0 \<and>
      d = char_of (unat (x AND 0xFF))"
    using w' by (intro exI [of _ vs] exI [of _ v] exI) auto
  have "sent pb w1 = sent pb w" by (rule sent_polls [OF log(1)])
  then show "sent pb w' = sent pb w" using w'(1) by (simp add: sent_def)
qed (use uart_send_Some [of pb c w w'] in auto)

theorem uart_send_recv_functional_witness:
  "\<exists>w'. uart_send PBASE_phys CHR ''a'' always_ready = Some w' \<and> sent PBASE_phys w' = ''a''"
proof -
  obtain w' where send: "uart_send PBASE_phys CHR ''a'' always_ready = Some w'"
    using uart_send_ready [OF line_ready_always] by blast
  have "sent PBASE_phys always_ready = []" by (simp add: sent_def always_ready_def)
  then show ?thesis
    using send uart_send_recv_functional [of PBASE_phys "CHR ''a''" always_ready w'] by auto
qed

lemma bit_power_of_2:
  "bit (2 :: int) n \<longleftrightarrow> n = 1" "bit (8192 :: int) n \<longleftrightarrow> n = 13" "bit (65536 :: int) n \<longleftrightarrow> n = 16"
  using bit_push_bit_iff [of 1 "1 :: int" n] bit_push_bit_iff [of 13 "1 :: int" n]
    bit_push_bit_iff [of 16 "1 :: int" n]
  by (auto simp: bit_1_iff)

lemma mask_numerals: "(7 :: u32) = mask 3" "(63 :: u32) = mask 6"
  by (simp_all add: mask_eq_exp_minus_1)

lemma uart_selector_bits:
  "bit (uart_selector v) n \<longleftrightarrow> n < 32 \<and> (if 12 \<le> n \<and> n < 18 then n = 13 \<or> n = 16 else bit v n)"
  unfolding uart_selector_def Let_def mask_numerals
  by (auto simp: bit_simps bit_power_of_2 dest: bit_imp_le_length)

lemma uart_selector_fields:
  "drop_bit 12 (uart_selector v) AND 7 = 2" "drop_bit 15 (uart_selector v) AND 7 = 2"
  "uart_selector v AND NOT (push_bit 12 63) = v AND NOT (push_bit 12 63)"
  unfolding mask_numerals
  by (rule bit_word_eqI; auto simp: bit_simps uart_selector_bits bit_power_of_2)+

text \<open>
  \<open>uart_init\<close> selects alternative function 5 (value 2) for pins 14 and 15 and leaves the
  function of every other pin of the register as it was, and its device accesses are, in
  this order: the function selector, the pull-up sequence for the two pins with its two
  delays, and the UART set up with the transmitter and receiver enabled last.
\<close>

theorem uart_init_sequence:
  "\<exists>v. w_log (uart_init pb w) = w_log w @
     [Rd (GPFSEL1 pb) v, Wr (GPFSEL1 pb) (uart_selector v),
      Wr (GPPUD pb) 0, Dly 150, Wr (GPPUDCLK0 pb) 0xC000, Dly 150, Wr (GPPUDCLK0 pb) 0,
      Wr (AUX_ENABLES pb) 1, Wr (AUX_MU_CNTL_REG pb) 0, Wr (AUX_MU_IER_REG pb) 0,
      Wr (AUX_MU_LCR_REG pb) 3, Wr (AUX_MU_MCR_REG pb) 0, Wr (AUX_MU_BAUD_REG pb) 270,
      Wr (AUX_MU_CNTL_REG pb) 3] \<and>
    drop_bit 12 (uart_selector v) AND 7 = 2 \<and> drop_bit 15 (uart_selector v) AND 7 = 2 \<and>
    uart_selector v AND NOT (push_bit 12 63) = v AND NOT (push_bit 12 63)"
proof -
  let ?v = "w_reply w (w_time w) (GPFSEL1 pb)"
  show ?thesis
    by (intro exI [of _ ?v] conjI uart_selector_fields)
      (simp add: uart_init_def split_beta delay_count_eq)
qed

end
