(* ===== verification/Kernel_State.thy ===== *)
theory Kernel_State
  imports Mini_Uart
begin

text \<open>
  The data of the kernel: the memory map of \<open>mm.h\<close>, the structs of \<open>sched.h\<close> and \<open>fork.h\<close>
  with their layout in memory, the processor registers the assembly uses, and the kernel's
  global variables, for the three lessons that have tasks (\<open>l4\<close>, \<open>l5\<close>, \<open>l6\<close>).

  A pointer is the address the kernel uses: a physical address up to lesson 5, and
  \<open>VA_START\<close> plus the physical address in lesson 6, whose kernel map is linear. \<open>mem\<close> is
  memory at those addresses.
\<close>

unbundle bit_operations_syntax

section \<open>The memory map\<close>

definition VA_START :: addr where "VA_START = 0xffff000000000000"
definition PHYS_MEMORY_SIZE :: addr where "PHYS_MEMORY_SIZE = 0x40000000"
definition PAGE_MASK :: u64 where "PAGE_MASK = 0xfffffffffffff000"
definition PAGE_SHIFT :: nat where "PAGE_SHIFT = 12"
definition TABLE_SHIFT :: nat where "TABLE_SHIFT = 9"
definition SECTION_SHIFT :: nat where "SECTION_SHIFT = PAGE_SHIFT + TABLE_SHIFT"
definition PAGE_SIZE :: u64 where "PAGE_SIZE = push_bit PAGE_SHIFT 1"
definition SECTION_SIZE :: u64 where "SECTION_SIZE = push_bit SECTION_SHIFT 1"
definition DEVICE_BASE :: addr where "DEVICE_BASE = 0x3F000000"
definition PBASE :: addr where "PBASE = VA_START + DEVICE_BASE"
definition LOW_MEMORY :: addr where "LOW_MEMORY = 2 * SECTION_SIZE"
definition HIGH_MEMORY :: addr where "HIGH_MEMORY = DEVICE_BASE"
definition PAGING_MEMORY :: u64 where "PAGING_MEMORY = HIGH_MEMORY - LOW_MEMORY"
definition PAGING_PAGES :: nat where "PAGING_PAGES = unat (PAGING_MEMORY div PAGE_SIZE)"
definition PTRS_PER_TABLE :: u64 where "PTRS_PER_TABLE = push_bit TABLE_SHIFT 1"
definition PGD_SHIFT :: nat where "PGD_SHIFT = PAGE_SHIFT + 3 * TABLE_SHIFT"
definition PUD_SHIFT :: nat where "PUD_SHIFT = PAGE_SHIFT + 2 * TABLE_SHIFT"
definition PMD_SHIFT :: nat where "PMD_SHIFT = PAGE_SHIFT + TABLE_SHIFT"
definition PG_DIR_SIZE :: u64 where "PG_DIR_SIZE = 3 * PAGE_SIZE"

text \<open>The values the macros have.\<close>

lemma map_values [layout_defs]:
  "VA_START = 0xffff000000000000" "PHYS_MEMORY_SIZE = 0x40000000"
  "PAGE_MASK = 0xfffffffffffff000" "PAGE_SHIFT = 12" "SECTION_SHIFT = 21"
  "PAGE_SIZE = 0x1000" "SECTION_SIZE = 0x200000" "DEVICE_BASE = 0x3F000000"
  "PBASE = 0xffff00003F000000" "LOW_MEMORY = 0x400000" "HIGH_MEMORY = 0x3F000000"
  "PAGING_PAGES = 257024" "PTRS_PER_TABLE = 512"
  "PGD_SHIFT = 39" "PUD_SHIFT = 30" "PMD_SHIFT = 21" "PG_DIR_SIZE = 0x3000"
  by (simp_all add: VA_START_def PHYS_MEMORY_SIZE_def PAGE_MASK_def PAGE_SHIFT_def
      SECTION_SHIFT_def TABLE_SHIFT_def PAGE_SIZE_def SECTION_SIZE_def DEVICE_BASE_def PBASE_def
      LOW_MEMORY_def HIGH_MEMORY_def PAGING_PAGES_def PAGING_MEMORY_def PTRS_PER_TABLE_def
      PGD_SHIFT_def PUD_SHIFT_def PMD_SHIFT_def PG_DIR_SIZE_def unat_div)

section \<open>Structs\<close>

definition THREAD_SIZE :: u64 where "THREAD_SIZE = 4096"
definition NR_TASKS :: nat where "NR_TASKS = 64"
definition TASK_RUNNING :: u64 where "TASK_RUNNING = 0"
definition TASK_ZOMBIE :: u64 where "TASK_ZOMBIE = 1"
definition PF_KTHREAD :: u64 where "PF_KTHREAD = 2"
definition MAX_PROCESS_PAGES :: nat where "MAX_PROCESS_PAGES = 16"
definition THREAD_CPU_CONTEXT :: u64 where "THREAD_CPU_CONTEXT = 0"

lemmas sched_values [layout_defs] = THREAD_SIZE_def NR_TASKS_def TASK_RUNNING_def
  TASK_ZOMBIE_def PF_KTHREAD_def MAX_PROCESS_PAGES_def THREAD_CPU_CONTEXT_def

record cpu_context =
  x19 :: u64
  x20 :: u64
  x21 :: u64
  x22 :: u64
  x23 :: u64
  x24 :: u64
  x25 :: u64
  x26 :: u64
  x27 :: u64
  x28 :: u64
  fp :: u64
  sp :: u64
  pc :: u64

record user_page =
  phys_addr :: u64
  virt_addr :: u64

record mm_struct =
  pgd :: u64
  user_pages_count :: u32
  user_pages :: "user_page list"
  kernel_pages_count :: u32
  kernel_pages :: "u64 list"

record task_struct =
  cpu_ctx :: cpu_context
  state :: u64
  counter :: u64
  priority :: u64
  preempt_count :: u64
  flags :: u64
  mm :: mm_struct

record task_struct_l5 =
  cpu_ctx_l5 :: cpu_context
  state_l5 :: u64
  counter_l5 :: u64
  priority_l5 :: u64
  preempt_count_l5 :: u64
  stack_l5 :: u64
  flags_l5 :: u64

record task_struct_l4 =
  cpu_ctx_l4 :: cpu_context
  state_l4 :: u64
  counter_l4 :: u64
  priority_l4 :: u64
  preempt_count_l4 :: u64

record pt_regs =
  regs :: "u64 list"
  pt_sp :: u64
  pt_pc :: u64
  pstate :: u64

section \<open>Structs in memory\<close>

text \<open>
  The layout the C ABI gives the structs, all of whose members are 8 bytes wide or an
  \<open>int\<close> followed by 4 bytes of padding. The first members are the same in every lesson.
\<close>

definition off_state :: u64 where "off_state = 104"
definition off_counter :: u64 where "off_counter = 112"
definition off_priority :: u64 where "off_priority = 120"
definition off_preempt_count :: u64 where "off_preempt_count = 128"
definition off_flags :: u64 where "off_flags = 136"
definition off_pgd :: u64 where "off_pgd = 144"
definition off_user_pages_count :: u64 where "off_user_pages_count = 152"
definition off_user_pages :: u64 where "off_user_pages = 160"
definition off_kernel_pages_count :: u64 where "off_kernel_pages_count = 416"
definition off_kernel_pages :: u64 where "off_kernel_pages = 424"
definition off_stack_l5 :: u64 where "off_stack_l5 = 136"
definition off_flags_l5 :: u64 where "off_flags_l5 = 144"

lemmas task_offsets [layout_defs] = off_state_def off_counter_def off_priority_def
  off_preempt_count_def off_flags_def off_pgd_def off_user_pages_count_def off_user_pages_def
  off_kernel_pages_count_def off_kernel_pages_def off_stack_l5_def off_flags_l5_def

definition load_context :: "memory \<Rightarrow> addr \<Rightarrow> cpu_context" where
  "load_context m p = \<lparr>x19 = m p, x20 = m (p + 8), x21 = m (p + 16), x22 = m (p + 24),
     x23 = m (p + 32), x24 = m (p + 40), x25 = m (p + 48), x26 = m (p + 56), x27 = m (p + 64),
     x28 = m (p + 72), fp = m (p + 80), sp = m (p + 88), pc = m (p + 96)\<rparr>"

definition context_words :: "cpu_context \<Rightarrow> u64 list" where
  "context_words c = [x19 c, x20 c, x21 c, x22 c, x23 c, x24 c, x25 c, x26 c, x27 c, x28 c,
     fp c, sp c, pc c]"

definition load_user_page :: "memory \<Rightarrow> addr \<Rightarrow> nat \<Rightarrow> user_page" where
  "load_user_page m p i =
     \<lparr>phys_addr = m (p + off_user_pages + 16 * word_of_nat i),
      virt_addr = m (p + off_user_pages + 16 * word_of_nat i + 8)\<rparr>"

definition load_task :: "memory \<Rightarrow> addr \<Rightarrow> task_struct" where
  "load_task m p = \<lparr>cpu_ctx = load_context m p, state = m (p + off_state),
     counter = m (p + off_counter), priority = m (p + off_priority),
     preempt_count = m (p + off_preempt_count), flags = m (p + off_flags),
     mm = \<lparr>pgd = m (p + off_pgd), user_pages_count = ld32 m (p + off_user_pages_count),
       user_pages = map (load_user_page m p) [0..<MAX_PROCESS_PAGES],
       kernel_pages_count = ld32 m (p + off_kernel_pages_count),
       kernel_pages = load_words m (p + off_kernel_pages) MAX_PROCESS_PAGES\<rparr>\<rparr>"

definition task_words :: "task_struct \<Rightarrow> u64 list" where
  "task_words t = context_words (cpu_ctx t) @
     [state t, counter t, priority t, preempt_count t, flags t,
      pgd (mm t), ucast (user_pages_count (mm t))] @
     concat (map (\<lambda>u. [phys_addr u, virt_addr u]) (user_pages (mm t))) @
     [ucast (kernel_pages_count (mm t))] @ kernel_pages (mm t)"

definition load_task_l5 :: "memory \<Rightarrow> addr \<Rightarrow> task_struct_l5" where
  "load_task_l5 m p = \<lparr>cpu_ctx_l5 = load_context m p, state_l5 = m (p + off_state),
     counter_l5 = m (p + off_counter), priority_l5 = m (p + off_priority),
     preempt_count_l5 = m (p + off_preempt_count), stack_l5 = m (p + off_stack_l5),
     flags_l5 = m (p + off_flags_l5)\<rparr>"

definition task_words_l5 :: "task_struct_l5 \<Rightarrow> u64 list" where
  "task_words_l5 t = context_words (cpu_ctx_l5 t) @
     [state_l5 t, counter_l5 t, priority_l5 t, preempt_count_l5 t, stack_l5 t, flags_l5 t]"

definition load_task_l4 :: "memory \<Rightarrow> addr \<Rightarrow> task_struct_l4" where
  "load_task_l4 m p = \<lparr>cpu_ctx_l4 = load_context m p, state_l4 = m (p + off_state),
     counter_l4 = m (p + off_counter), priority_l4 = m (p + off_priority),
     preempt_count_l4 = m (p + off_preempt_count)\<rparr>"

definition task_words_l4 :: "task_struct_l4 \<Rightarrow> u64 list" where
  "task_words_l4 t = context_words (cpu_ctx_l4 t) @
     [state_l4 t, counter_l4 t, priority_l4 t, preempt_count_l4 t]"

text \<open>\<open>struct pt_regs\<close>: 31 registers, then the stack pointer, the program counter and the
  processor state, 34 doublewords in all.\<close>

definition sizeof_pt_regs :: u64 where "sizeof_pt_regs = 272"
definition off_pt_sp :: u64 where "off_pt_sp = 248"
definition off_pt_pc :: u64 where "off_pt_pc = 256"
definition off_pstate :: u64 where "off_pstate = 264"

lemmas pt_offsets [layout_defs] = sizeof_pt_regs_def off_pt_sp_def off_pt_pc_def off_pstate_def

definition load_pt_regs :: "memory \<Rightarrow> addr \<Rightarrow> pt_regs" where
  "load_pt_regs m p = \<lparr>regs = load_words m p 31, pt_sp = m (p + off_pt_sp),
     pt_pc = m (p + off_pt_pc), pstate = m (p + off_pstate)\<rparr>"

definition pt_regs_words :: "pt_regs \<Rightarrow> u64 list" where
  "pt_regs_words r = regs r @ [pt_sp r, pt_pc r, pstate r]"

section \<open>The initial task\<close>

definition zero_context :: cpu_context where
  "zero_context = \<lparr>x19 = 0, x20 = 0, x21 = 0, x22 = 0, x23 = 0, x24 = 0, x25 = 0, x26 = 0,
     x27 = 0, x28 = 0, fp = 0, sp = 0, pc = 0\<rparr>"

definition INIT_TASK :: task_struct where
  "INIT_TASK = \<lparr>cpu_ctx = zero_context, state = 0, counter = 0, priority = 15,
     preempt_count = 0, flags = PF_KTHREAD,
     mm = \<lparr>pgd = 0, user_pages_count = 0,
       user_pages = replicate MAX_PROCESS_PAGES \<lparr>phys_addr = 0, virt_addr = 0\<rparr>,
       kernel_pages_count = 0, kernel_pages = replicate MAX_PROCESS_PAGES 0\<rparr>\<rparr>"

definition INIT_TASK_l5 :: task_struct_l5 where
  "INIT_TASK_l5 = \<lparr>cpu_ctx_l5 = zero_context, state_l5 = 0, counter_l5 = 0, priority_l5 = 1,
     preempt_count_l5 = 0, stack_l5 = 0, flags_l5 = PF_KTHREAD\<rparr>"

definition INIT_TASK_l4 :: task_struct_l4 where
  "INIT_TASK_l4 = \<lparr>cpu_ctx_l4 = zero_context, state_l4 = 0, counter_l4 = 0, priority_l4 = 1,
     preempt_count_l4 = 0\<rparr>"

section \<open>The processor and the kernel's variables\<close>

text \<open>
  The registers the assembly touches; \<open>irq_masked\<close> is the \<open>I\<close> bit of the interrupt mask.
\<close>

record cpu =
  gpr :: "nat \<Rightarrow> u64"
  sp_el1 :: u64
  sp_el0 :: u64
  elr_el1 :: u64
  spsr_el1 :: u64
  esr_el1 :: u64
  far_el1 :: u64
  ttbr0_el1 :: u64
  irq_masked :: bool

text \<open>
  The globals of \<open>sched.c\<close>, \<open>mm.c\<close> and \<open>timer.c\<close>. \<open>task\<close> has \<open>NR_TASKS\<close> entries, 0 for a
  null pointer; \<open>mem_map\<close> has \<open>PAGING_PAGES\<close> entries; \<open>ind\<close> exists in lesson 6 only. \<open>nr_tasks\<close> and
  \<open>ind\<close>, which only count up, are natural numbers where the code has \<open>int\<close>: the table is full
  at 64 and \<open>ind\<close> counts pages, which are never given back, so that neither gets near 2147483647.
\<close>

record kernel =
  mem :: memory
  mem_map :: "nat \<Rightarrow> u16"
  current :: addr
  task :: "addr list"
  nr_tasks :: nat
  cpu :: cpu
  dev :: world
  curVal :: u32
  ind :: nat

definition initial_kernel :: "addr \<Rightarrow> u64 list \<Rightarrow> memory \<Rightarrow> cpu \<Rightarrow> world \<Rightarrow> kernel" where
  "initial_kernel init_task ws m c w =
     \<lparr>mem = store_words init_task ws m, mem_map = (\<lambda>_. 0), current = init_task,
      task = init_task # replicate (NR_TASKS - 1) 0, nr_tasks = 1, cpu = c, dev = w,
      curVal = 0, ind = 1\<rparr>"

text \<open>A processor with every register 0, and the lesson 6 kernel before \<open>kernel_main\<close>.\<close>

definition reset_cpu :: cpu where
  "reset_cpu = \<lparr>gpr = (\<lambda>_. 0), sp_el1 = 0, sp_el0 = 0, elr_el1 = 0, spsr_el1 = 0, esr_el1 = 0,
     far_el1 = 0, ttbr0_el1 = 0, irq_masked = True\<rparr>"

definition boot_kernel :: kernel where
  "boot_kernel = initial_kernel 0xffff000000080000 (task_words INIT_TASK) (\<lambda>_. 0) reset_cpu always_ready"

section \<open>The layout is consistent\<close>

lemma store_word_at:
  "k < length ws \<Longrightarrow> length ws \<le> 2 ^ 61 \<Longrightarrow> off = 8 * word_of_nat k \<Longrightarrow>
    store_words p ws m (p + off) = ws ! k"
  by (simp add: store_words_inside)

lemma length_context_words [simp]: "length (context_words c) = 13"
  by (simp add: context_words_def)

lemma load_context_words:
  assumes "\<And>i. i < 13 \<Longrightarrow> m (p + 8 * word_of_nat i) = context_words c ! i"
  shows "load_context m p = c"
  using assms [of 0] assms [of 1] assms [of 2] assms [of 3] assms [of 4] assms [of 5] assms [of 6]
    assms [of 7] assms [of 8] assms [of 9] assms [of 10] assms [of 11] assms [of 12]
  by (simp add: load_context_def context_words_def)

lemma pair_words_length: "length (concat (map (\<lambda>u. [f u, g u]) us)) = 2 * length us"
  by (induction us) auto

lemma pair_words_nth:
  "i < length us \<Longrightarrow> concat (map (\<lambda>u. [f u, g u]) us) ! (2 * i) = f (us ! i) \<and>
    concat (map (\<lambda>u. [f u, g u]) us) ! Suc (2 * i) = g (us ! i)"
proof (induction us arbitrary: i)
  case (Cons u us)
  then show ?case by (cases i) auto
qed simp

lemma length_task_words:
  "length (user_pages (mm t)) = 16 \<Longrightarrow> length (kernel_pages (mm t)) = 16 \<Longrightarrow>
    length (task_words t) = 69"
  by (simp add: task_words_def pair_words_length)

lemma ucast_u32_u64 [simp]: "ucast (ucast (v :: u32) :: u64) = v"
  by (rule bit_word_eqI) (simp add: bit_simps)

lemma ld32_ucast: "m a = ucast (v :: u32) \<Longrightarrow> ld32 m a = v"
  by (simp add: ld32_def)

lemma load_store_task:
  assumes up: "length (user_pages (mm t)) = 16" and kp: "length (kernel_pages (mm t)) = 16"
  shows "load_task (store_words p (task_words t) m) p = t"
proof -
  let ?m = "store_words p (task_words t) m" and ?ws = "task_words t"
  let ?us = "user_pages (mm t)"
  have len: "length ?ws = 69" by (rule length_task_words [OF up kp])
  have at: "?m (p + 8 * word_of_nat k) = ?ws ! k" if "k < 69" for k
    using that len by (intro store_words_inside) simp_all
  have ctx: "load_context ?m p = cpu_ctx t"
  proof (rule load_context_words)
    fix i :: nat assume "i < 13"
    then show "?m (p + 8 * word_of_nat i) = context_words (cpu_ctx t) ! i"
      using at [of i] by (simp add: task_words_def nth_append)
  qed
  define L where "L = [state t, counter t, priority t, preempt_count t, flags t,
      pgd (mm t), ucast (user_pages_count (mm t))]"
  have "?ws = context_words (cpu_ctx t) @ L @ concat (map (\<lambda>u. [phys_addr u, virt_addr u]) ?us) @
      [ucast (kernel_pages_count (mm t))] @ kernel_pages (mm t)"
    by (simp add: task_words_def L_def)
  then have mid: "?ws ! (13 + k) = L ! k" if "k < 7" for k
    using that by (simp add: nth_append L_def [THEN arg_cong, of length, simplified])
  have pages: "?ws ! (20 + k) = concat (map (\<lambda>u. [phys_addr u, virt_addr u]) ?us) ! k" if "k < 32" for k
    using that up by (simp add: task_words_def nth_append pair_words_length)
  have kcount: "?ws ! 52 = ucast (kernel_pages_count (mm t))"
    using up by (simp add: task_words_def nth_append pair_words_length)
  have kpages: "?ws ! (53 + k) = kernel_pages (mm t) ! k" if "k < 16" for k
    using that up by (simp add: task_words_def nth_append pair_words_length)
  have user: "load_user_page ?m p i = ?us ! i" if i: "i < 16" for i
  proof -
    have a: "p + off_user_pages + 16 * word_of_nat i = p + 8 * word_of_nat (20 + 2 * i)"
      and b: "p + off_user_pages + 16 * word_of_nat i + 8 = p + 8 * word_of_nat (20 + Suc (2 * i))"
      by (simp_all add: layout_defs algebra_simps)
    have ab: "20 + 2 * i < 69" "20 + Suc (2 * i) < 69" "2 * i < 32" "Suc (2 * i) < 32"
      using i by auto
    have "?m (p + off_user_pages + 16 * word_of_nat i) = phys_addr (?us ! i)"
      and "?m (p + off_user_pages + 16 * word_of_nat i + 8) = virt_addr (?us ! i)"
      using pair_words_nth [of i ?us phys_addr virt_addr] i up
      unfolding b unfolding a by (simp_all only: at [OF ab(1)] at [OF ab(2)] pages [OF ab(3)]
          pages [OF ab(4)])
    then show ?thesis by (simp only: load_user_page_def) simp
  qed
  have kern: "load_words ?m (p + off_kernel_pages) 16 = kernel_pages (mm t)"
  proof (rule nth_equalityI)
    fix i assume "i < length (load_words ?m (p + off_kernel_pages) 16)"
    then have i: "i < 16" by simp
    have eq: "p + off_kernel_pages + 8 * word_of_nat i = p + 8 * word_of_nat (53 + i)"
      by (simp add: layout_defs algebra_simps)
    show "load_words ?m (p + off_kernel_pages) 16 ! i = kernel_pages (mm t) ! i"
      unfolding nth_load_words [OF i] eq using i at [of "53 + i"] kpages [OF i] by simp
  qed (simp add: kp)
  have "map (load_user_page ?m p) [0..<16] = ?us"
    by (rule nth_equalityI) (simp_all add: up user)
  then show ?thesis
    using ctx kern at [of 13] at [of 14] at [of 15] at [of 16] at [of 17] at [of 18] at [of 19]
      at [of 52] mid [of 0] mid [of 1] mid [of 2] mid [of 3] mid [of 4] mid [of 5] mid [of 6] kcount
    by (simp add: load_task_def layout_defs ld32_ucast L_def)
qed

end
