(* ===== verification/Page_Alloc.thy ===== *)
theory Page_Alloc
  imports Kernel_State
begin

text \<open>
  The page allocator of \<open>mm.c\<close> (\<open>get_free_page\<close>, \<open>free_page\<close>, \<open>allocate_kernel_page\<close>) over
  \<open>mem_map\<close>, for lessons 4 and 5 and for lesson 6, whose pages come cleared, and the
  memory routines of \<open>mm.S\<close> (\<open>memzero\<close>, \<open>memcpy\<close>). The locale \<open>page_allocator\<close> is the
  interface the rest of the kernel relies on: both allocators interpret it.
\<close>

unbundle bit_operations_syntax

section \<open>The memory routines\<close>

text \<open>
  \<open>memzero: str xzr, [x0], #8; subs x1, x1, #8; b.gt memzero\<close>: the store comes before the
  test, which is signed.
\<close>

function memzero :: "addr \<Rightarrow> u64 \<Rightarrow> memory \<Rightarrow> memory" where
  "memzero a n m =
     (if 8 < sint n then memzero (a + 8) (n - 8) (m(a := 0)) else m(a := 0))"
  by pat_completeness auto
termination
  by (relation "measure (\<lambda>(a, n, m). nat (sint n))") (auto simp: sint_minus_8)

declare memzero.simps [simp del]

text \<open>
  \<open>memcpy: ldr x3, [x1], #8; str x3, [x0], #8; subs x2, x2, #8; b.gt memcpy\<close>. The loads and
  stores go through the MMU: \<open>tr\<close> takes the address an instruction uses to the place in
  memory, or to the fault it raises.
\<close>

function memcpy :: "(memory \<Rightarrow> addr \<Rightarrow> fault + addr) \<Rightarrow> addr \<Rightarrow> addr \<Rightarrow> u64 \<Rightarrow> memory \<Rightarrow>
    fault + memory" where
  "memcpy tr dst src n m =
     res_bind (tr m src) (\<lambda>s. res_bind (tr m dst) (\<lambda>d.
       if 8 < sint n then memcpy tr (dst + 8) (src + 8) (n - 8) (m(d := m s))
       else Inr (m(d := m s))))"
  by pat_completeness auto
termination
  by (relation "measure (\<lambda>(tr, dst, src, n, m). nat (sint n))") (auto simp: sint_minus_8)

declare memcpy.simps [simp del]

text \<open>How often the loops go round: once for every 8 bytes begun, and at least once.\<close>

definition rounds :: "u64 \<Rightarrow> nat" where
  "rounds n = (if 0 < sint n then nat ((sint n + 7) div 8) else 1)"

lemma rounds_step: "8 < sint n \<Longrightarrow> rounds n = Suc (rounds (n - 8))"
  by (simp add: rounds_def sint_minus_8)

lemma rounds_last: "\<not> 8 < sint n \<Longrightarrow> rounds n = 1"
  by (auto simp: rounds_def)

lemma rounds_pos [simp]: "0 < rounds n"
  by (cases "8 < sint n") (simp_all add: rounds_step rounds_last)

lemma memzero_store_words: "memzero a n m = store_words a (replicate (rounds n) 0) m"
proof (induction a n m rule: memzero.induct)
  case (1 a n m)
  show ?case
  proof (cases "8 < sint n")
    case True
    have "memzero (a + 8) (n - 8) (m(a := 0)) =
        store_words (a + 8) (replicate (rounds (n - 8)) 0) (m(a := 0))"
      by (rule "1.IH" [OF True])
    with True show ?thesis
      by (simp only: memzero.simps [of a n] rounds_step replicate_Suc store_words.simps if_True)
  next
    case False
    then show ?thesis by (simp add: memzero.simps [of a n] rounds_last)
  qed
qed

lemma rounds_page: "rounds 0x1000 = 512" "rounds 272 = 34" "rounds 104 = 13"
  by (simp_all add: rounds_def)

section \<open>The allocator\<close>

text \<open>\<open>for (int i = 0; i < PAGING_PAGES; i++) if (mem_map[i] == 0) ...\<close>\<close>

function find_free :: "(nat \<Rightarrow> u16) \<Rightarrow> nat \<Rightarrow> nat option" where
  "find_free mp i =
     (if i < PAGING_PAGES then if mp i = 0 then Some i else find_free mp (Suc i) else None)"
  by pat_completeness auto
termination
  by (relation "measure (\<lambda>(mp, i). PAGING_PAGES - i)") auto

declare find_free.simps [simp del]

definition page_at :: "nat \<Rightarrow> addr" where
  "page_at i = LOW_MEMORY + word_of_nat i * PAGE_SIZE"

definition get_free_page_l5 :: "kernel \<Rightarrow> addr \<times> kernel" where
  "get_free_page_l5 s =
     (case find_free (mem_map s) 0 of
        Some i \<Rightarrow> (page_at i, s\<lparr>mem_map := (mem_map s)(i := 1)\<rparr>)
      | None \<Rightarrow> (0, s))"

definition get_free_page :: "kernel \<Rightarrow> addr \<times> kernel" where
  "get_free_page s =
     (case find_free (mem_map s) 0 of
        Some i \<Rightarrow>
          (let page = page_at i
           in (page, s\<lparr>mem_map := (mem_map s)(i := 1),
                       mem := memzero (page + VA_START) PAGE_SIZE (mem s)\<rparr>))
      | None \<Rightarrow> (0, s))"

text \<open>\<open>mem_map[(p - LOW_MEMORY) / PAGE_SIZE] = 0\<close>, with the index checked.\<close>

definition free_page :: "addr \<Rightarrow> kernel \<Rightarrow> fault + kernel" where
  "free_page p s =
     (let i = unat ((p - LOW_MEMORY) div PAGE_SIZE)
      in if i < PAGING_PAGES then Inr (s\<lparr>mem_map := (mem_map s)(i := 0)\<rparr>) else Inl Out_Of_Bounds)"

definition allocate_kernel_page :: "kernel \<Rightarrow> addr \<times> kernel" where
  "allocate_kernel_page s =
     (case get_free_page s of (page, s) \<Rightarrow> if page = 0 then (0, s) else (page + VA_START, s))"

section \<open>Pages and their indices\<close>

lemma page_at_unat:
  assumes "i < PAGING_PAGES"
  shows "unat (page_at i) = 0x400000 + 4096 * i"
  using assms by (simp add: page_at_def layout_defs unat_word_ariths unat_of_nat)

lemma page_at_inj:
  assumes "i < PAGING_PAGES" "j < PAGING_PAGES"
  shows "page_at i = page_at j \<longleftrightarrow> i = j"
proof
  assume "page_at i = page_at j"
  then have "0x400000 + 4096 * i = 0x400000 + 4096 * j"
    using page_at_unat [OF assms(1)] page_at_unat [OF assms(2)] by (simp only:)
  then show "i = j" by simp
qed simp

lemma page_at_nonzero: "i < PAGING_PAGES \<Longrightarrow> page_at i \<noteq> 0"
  using page_at_unat [of i] by (metis add_is_0 unat_0 zero_neq_numeral)

lemma page_at_aligned: "i < PAGING_PAGES \<Longrightarrow> page_aligned (page_at i)"
  unfolding page_aligned_def by (simp only: page_at_unat) (simp add: dvd_add)

lemma page_at_range:
  assumes "i < PAGING_PAGES"
  shows "LOW_MEMORY \<le> page_at i \<and> page_at i + 4095 < HIGH_MEMORY"
proof -
  have i: "i < 257024" using assms by (simp add: map_values)
  have "unat (page_at i + 4095) = unat (page_at i) + 4095"
    using page_aligned_add_unat [OF page_at_aligned [OF assms], of 4095] by simp
  then have "unat (page_at i + 4095) < 0x3F000000"
    unfolding page_at_unat [OF assms] using i by linarith
  moreover have "0x400000 \<le> unat (page_at i)"
    unfolding page_at_unat [OF assms] by simp
  ultimately show ?thesis
    by (simp only: word_le_nat_alt word_less_nat_alt map_values) simp
qed

lemma page_index:
  assumes "i < PAGING_PAGES"
  shows "unat ((page_at i - LOW_MEMORY) div PAGE_SIZE) = i"
proof -
  have "unat (page_at i - LOW_MEMORY) = 4096 * i"
    using page_at_unat [OF assms] by (simp add: unat_sub_if' layout_defs)
  then show ?thesis by (simp add: unat_div layout_defs)
qed

lemma VA_START_aligned: "page_aligned VA_START"
  by (simp add: page_aligned_def layout_defs)

lemma kernel_page_aligned: "i < PAGING_PAGES \<Longrightarrow> page_aligned (page_at i + VA_START)"
  by (intro page_aligned_add page_at_aligned VA_START_aligned)

section \<open>The search\<close>

lemma find_free_Some:
  "find_free mp i = Some j \<Longrightarrow>
    i \<le> j \<and> j < PAGING_PAGES \<and> mp j = 0 \<and> (\<forall>k. i \<le> k \<and> k < j \<longrightarrow> mp k \<noteq> 0)"
proof (induction mp i rule: find_free.induct)
  case (1 mp i)
  from "1.prems" show ?case
  proof (cases "i < PAGING_PAGES \<and> mp i \<noteq> 0")
    case True
    then have rest: "find_free mp (Suc i) = Some j"
      using "1.prems" by (subst (asm) find_free.simps) simp
    have "Suc i \<le> j \<and> j < PAGING_PAGES \<and> mp j = 0 \<and> (\<forall>k. Suc i \<le> k \<and> k < j \<longrightarrow> mp k \<noteq> 0)"
      using "1.IH" True rest by blast
    then show ?thesis using True by (metis Suc_leD Suc_leI le_neq_implies_less)
  next
    case False
    then show ?thesis
      using "1.prems" by (subst (asm) find_free.simps) (auto split: if_splits)
  qed
qed

lemma find_free_None:
  "find_free mp i = None \<longleftrightarrow> (\<forall>k. i \<le> k \<and> k < PAGING_PAGES \<longrightarrow> mp k \<noteq> 0)"
proof (induction mp i rule: find_free.induct)
  case (1 mp i)
  show ?case
  proof (cases "i < PAGING_PAGES \<and> mp i \<noteq> 0")
    case True
    with 1 have "find_free mp i = None \<longleftrightarrow> (\<forall>k. Suc i \<le> k \<and> k < PAGING_PAGES \<longrightarrow> mp k \<noteq> 0)"
      by (subst find_free.simps) simp
    then show ?thesis using True by (metis Suc_leD Suc_leI le_neq_implies_less)
  next
    case False
    then show ?thesis by (subst find_free.simps) auto
  qed
qed

lemma find_free_first: "i < PAGING_PAGES \<Longrightarrow> mp i = 0 \<Longrightarrow> find_free mp i = Some i"
  by (subst find_free.simps) simp

section \<open>The interface of an allocator\<close>

definition all_pages :: "addr set" where
  "all_pages = page_at ` {..<PAGING_PAGES}"

text \<open>\<open>n\<close> allocations in a row.\<close>

fun alloc_many :: "('s \<Rightarrow> addr \<times> 's) \<Rightarrow> nat \<Rightarrow> 's \<Rightarrow> addr list \<times> 's" where
  "alloc_many alloc 0 s = ([], s)"
| "alloc_many alloc (Suc n) s =
     (case alloc s of (p, s1) \<Rightarrow> case alloc_many alloc n s1 of (ps, s2) \<Rightarrow> (p # ps, s2))"

locale page_allocator =
  fixes alloc :: "'s \<Rightarrow> addr \<times> 's"
    and free :: "addr \<Rightarrow> 's \<Rightarrow> fault + 's"
    and used :: "'s \<Rightarrow> addr set"
  assumes used_pages: "used s \<subseteq> all_pages"
    and alloc_page: "alloc s = (p, s') \<Longrightarrow> p \<noteq> 0 \<Longrightarrow>
      p \<in> all_pages \<and> p \<notin> used s \<and> used s' = insert p (used s)"
    and alloc_full: "alloc s = (p, s') \<Longrightarrow> p = 0 \<Longrightarrow> used s = all_pages \<and> s' = s"
    and free_page: "p \<in> used s \<Longrightarrow> \<exists>s'. free p s = Inr s' \<and> used s' = used s - {p}"
begin

lemma finite_all_pages: "finite all_pages"
  by (simp add: all_pages_def)

lemma zero_not_page: "0 \<notin> all_pages"
  using page_at_nonzero by (force simp: all_pages_def)

lemma alloc_succeeds:
  assumes "used s \<noteq> all_pages" "alloc s = (p, s')"
  shows "p \<noteq> 0"
  using alloc_full [OF assms(2)] assms(1) by blast

lemma alloc_many_distinct:
  assumes "alloc_many alloc n s = (ps, s')" and "n \<le> card (all_pages - used s)"
  shows "length ps = n \<and> distinct ps \<and> set ps \<subseteq> all_pages - used s \<and>
    used s' = used s \<union> set ps"
  using assms
proof (induction n arbitrary: s ps)
  case 0
  then show ?case by simp
next
  case (Suc n)
  obtain p s1 where p: "alloc s = (p, s1)" by (cases "alloc s")
  obtain qs where qs: "alloc_many alloc n s1 = (qs, s')" "ps = p # qs"
    using Suc.prems(1) p by (auto split: prod.splits)
  have "used s \<noteq> all_pages" using Suc.prems(2) by auto
  with p have "p \<noteq> 0" by (rule alloc_succeeds [rotated])
  with alloc_page [OF p] have fresh: "p \<in> all_pages" "p \<notin> used s" "used s1 = insert p (used s)"
    by auto
  have "all_pages - used s1 = all_pages - used s - {p}" using fresh by auto
  then have "card (all_pages - used s1) = card (all_pages - used s) - 1"
    using fresh finite_all_pages by (simp add: card_Diff_singleton)
  then have "n \<le> card (all_pages - used s1)" using Suc.prems(2) by simp
  from Suc.IH [OF qs(1) this] fresh qs(2) show ?case by auto
qed

lemma alloc_free_used:
  assumes "alloc s = (p, s')" "p \<noteq> 0"
  shows "\<exists>s''. free p s' = Inr s'' \<and> used s'' = used s"
  using alloc_page [OF assms] free_page [of p s'] by auto

end

text \<open>The pages \<open>mem_map\<close> marks.\<close>

definition used_pages_of :: "kernel \<Rightarrow> addr set" where
  "used_pages_of s = {page_at i | i. i < PAGING_PAGES \<and> mem_map s i \<noteq> 0}"

lemma used_pages_of_page: "i < PAGING_PAGES \<Longrightarrow> page_at i \<in> used_pages_of s \<longleftrightarrow> mem_map s i \<noteq> 0"
  by (auto simp: used_pages_of_def page_at_inj)

lemma used_pages_of_cong: "mem_map s = mem_map t \<Longrightarrow> used_pages_of s = used_pages_of t"
  by (simp add: used_pages_of_def)

lemma used_pages_of_mark:
  "i < PAGING_PAGES \<Longrightarrow> used_pages_of (s\<lparr>mem_map := (mem_map s)(i := 1)\<rparr>) = insert (page_at i) (used_pages_of s)"
  by (auto simp: used_pages_of_def page_at_inj)

lemma used_pages_of_clear:
  "i < PAGING_PAGES \<Longrightarrow> used_pages_of (s\<lparr>mem_map := (mem_map s)(i := 0)\<rparr>) = used_pages_of s - {page_at i}"
  by (auto simp: used_pages_of_def page_at_inj)

lemma used_all_pages:
  "used_pages_of s = all_pages \<longleftrightarrow> (\<forall>i < PAGING_PAGES. mem_map s i \<noteq> 0)"
proof
  assume eq: "used_pages_of s = all_pages"
  show "\<forall>i < PAGING_PAGES. mem_map s i \<noteq> 0"
  proof (intro allI impI)
    fix i assume i: "i < PAGING_PAGES"
    then have "page_at i \<in> used_pages_of s" unfolding eq by (simp add: all_pages_def)
    then show "mem_map s i \<noteq> 0" using i by (simp add: used_pages_of_page)
  qed
qed (auto simp: used_pages_of_def all_pages_def)

lemma get_free_page_l5_cases:
  obtains i where "i < PAGING_PAGES" "mem_map s i = 0" "\<forall>k < i. mem_map s k \<noteq> 0"
      "get_free_page_l5 s = (page_at i, s\<lparr>mem_map := (mem_map s)(i := 1)\<rparr>)"
      "get_free_page s = (page_at i, s\<lparr>mem_map := (mem_map s)(i := 1),
         mem := memzero (page_at i + VA_START) PAGE_SIZE (mem s)\<rparr>)"
  | "used_pages_of s = all_pages" "get_free_page_l5 s = (0, s)" "get_free_page s = (0, s)"
proof (cases "find_free (mem_map s) 0")
  case None
  then show thesis
    using that(2) find_free_None [of "mem_map s" 0]
    by (simp add: get_free_page_l5_def get_free_page_def used_all_pages)
next
  case (Some i)
  then show thesis
    using that(1) [of i] find_free_Some [OF Some]
    by (simp add: get_free_page_l5_def get_free_page_def Let_def)
qed

lemma used_pages_subset: "used_pages_of s \<subseteq> all_pages"
  by (auto simp: used_pages_of_def all_pages_def)

lemma free_page_used:
  assumes "p \<in> used_pages_of s"
  shows "\<exists>s'. free_page p s = Inr s' \<and> used_pages_of s' = used_pages_of s - {p}"
proof -
  obtain i where i: "p = page_at i" "i < PAGING_PAGES" using assms by (auto simp: used_pages_of_def)
  then show ?thesis by (simp add: free_page_def page_index used_pages_of_clear)
qed

interpretation pages_l5: page_allocator get_free_page_l5 free_page used_pages_of
proof unfold_locales
  fix s p s' assume run: "get_free_page_l5 s = (p, s')"
  show "p \<in> all_pages \<and> p \<notin> used_pages_of s \<and> used_pages_of s' = insert p (used_pages_of s)"
    if "p \<noteq> 0"
    using run that
    by (cases rule: get_free_page_l5_cases [of s])
      (auto simp: all_pages_def used_pages_of_page used_pages_of_mark)
  show "used_pages_of s = all_pages \<and> s' = s" if "p = 0"
    using run that page_at_nonzero by (cases rule: get_free_page_l5_cases [of s]) auto
qed (rule used_pages_subset, rule free_page_used)

interpretation pages: page_allocator get_free_page free_page used_pages_of
proof unfold_locales
  fix s p s' assume run: "get_free_page s = (p, s')"
  show "p \<in> all_pages \<and> p \<notin> used_pages_of s \<and> used_pages_of s' = insert p (used_pages_of s)"
    if "p \<noteq> 0"
    using run that
  proof (cases rule: get_free_page_l5_cases [of s])
    case (1 i)
    have "used_pages_of s' = used_pages_of (s\<lparr>mem_map := (mem_map s)(i := 1)\<rparr>)"
      using run 1 by (intro used_pages_of_cong) auto
    with run 1 show ?thesis by (auto simp: all_pages_def used_pages_of_page used_pages_of_mark)
  qed simp
  show "used_pages_of s = all_pages \<and> s' = s" if "p = 0"
    using run that page_at_nonzero by (cases rule: get_free_page_l5_cases [of s]) auto
qed (rule used_pages_subset, rule free_page_used)

section \<open>Cleared pages\<close>

lemma memzero_page_cleared:
  "k < 512 \<Longrightarrow> memzero p PAGE_SIZE m (p + 8 * word_of_nat k) = 0"
  by (simp add: memzero_store_words layout_defs rounds_page store_words_inside)

lemma memzero_page_other:
  "page_aligned p \<Longrightarrow> page_aligned q \<Longrightarrow> q \<noteq> p \<Longrightarrow> y < 4096 \<Longrightarrow>
    memzero p PAGE_SIZE m (q + y) = m (q + y)"
  by (simp add: memzero_store_words layout_defs rounds_page store_words_other_page)

section \<open>Properties\<close>

text \<open>
  C26. \<open>get_free_page\<close> of lesson 6, on both branches. If it returns 0, every page is marked
  and the state is unchanged. Otherwise it returns the first page whose mark was clear,
  page-aligned and inside \<open>[LOW_MEMORY, HIGH_MEMORY)\<close>; it sets that mark and no other part
  of the state but memory; all 512 doublewords of the page (at its kernel address) are 0
  and every other page keeps its contents.
\<close>

theorem get_free_page_spec:
  assumes "get_free_page s = (p, s')"
  shows "(p = 0 \<longrightarrow> (\<forall>i < PAGING_PAGES. mem_map s i \<noteq> 0) \<and> s' = s) \<and>
    (p \<noteq> 0 \<longrightarrow>
      (\<exists>i < PAGING_PAGES. p = LOW_MEMORY + word_of_nat i * PAGE_SIZE \<and> mem_map s i = 0 \<and>
         (\<forall>k < i. mem_map s k \<noteq> 0) \<and>
         s' = s\<lparr>mem_map := (mem_map s)(i := 1), mem := mem s'\<rparr>) \<and>
      page_aligned p \<and> LOW_MEMORY \<le> p \<and> p + 4095 < HIGH_MEMORY \<and>
      (\<forall>k < 512. mem s' (p + VA_START + 8 * word_of_nat k) = 0) \<and>
      (\<forall>q y. page_aligned q \<and> q \<noteq> p + VA_START \<and> y < 4096 \<longrightarrow>
         mem s' (q + y) = mem s (q + y)))"
proof (cases rule: get_free_page_l5_cases [of s])
  case (1 i)
  then have s': "p = page_at i" "s' = s\<lparr>mem_map := (mem_map s)(i := 1),
      mem := memzero (page_at i + VA_START) PAGE_SIZE (mem s)\<rparr>" using assms by auto
  have "\<forall>k < 512. mem s' (p + VA_START + 8 * word_of_nat k) = 0"
    using memzero_page_cleared by (simp add: s')
  moreover have "\<forall>q y. page_aligned q \<and> q \<noteq> p + VA_START \<and> y < 4096 \<longrightarrow>
      mem s' (q + y) = mem s (q + y)"
    using memzero_page_other [OF kernel_page_aligned [OF 1(1)]] by (simp add: s')
  moreover have "\<exists>i < PAGING_PAGES. p = LOW_MEMORY + word_of_nat i * PAGE_SIZE \<and> mem_map s i = 0 \<and>
      (\<forall>k < i. mem_map s k \<noteq> 0) \<and> s' = s\<lparr>mem_map := (mem_map s)(i := 1), mem := mem s'\<rparr>"
    using 1 by (intro exI [of _ i]) (simp add: s' page_at_def)
  ultimately show ?thesis
    using page_at_aligned [OF 1(1)] page_at_range [OF 1(1)] page_at_nonzero [OF 1(1)]
    by (simp add: s'(1))
next
  case 2
  then show ?thesis using assms by (simp add: used_all_pages)
qed

lemma boot_kernel_pages: "mem_map boot_kernel = (\<lambda>_. 0)"
  by (simp add: boot_kernel_def initial_kernel_def)

theorem get_free_page_spec_witness:
  "\<exists>s'. get_free_page boot_kernel = (LOW_MEMORY, s') \<and>
    mem s' (LOW_MEMORY + VA_START + 8 * word_of_nat 5) = 0"
proof -
  have "find_free (mem_map boot_kernel) 0 = Some 0"
    by (rule find_free_first) (simp_all add: boot_kernel_pages map_values)
  then obtain s' where run: "get_free_page boot_kernel = (LOW_MEMORY, s')"
    by (simp add: get_free_page_def page_at_def Let_def)
  have "LOW_MEMORY \<noteq> 0" by (simp add: map_values)
  with get_free_page_spec [OF run] have
    "\<forall>k < 512. mem s' (LOW_MEMORY + VA_START + 8 * word_of_nat k) = 0" by blast
  moreover have "(5 :: nat) < 512" by simp
  ultimately show ?thesis using run by blast
qed

text \<open>
  C30. No page is handed out twice: from any state, as many allocations as there are
  unmarked pages all succeed, and the pages returned are different from each other and from
  every page in use before; with or without clearing (lessons 6 and 5).
\<close>

theorem allocations_disjoint:
  assumes "n \<le> card (all_pages - used_pages_of s)"
  shows "(case alloc_many get_free_page n s of (ps, s') \<Rightarrow>
      length ps = n \<and> distinct ps \<and> 0 \<notin> set ps \<and> set ps \<inter> used_pages_of s = {} \<and>
      used_pages_of s' = used_pages_of s \<union> set ps) \<and>
    (case alloc_many get_free_page_l5 n s of (ps, s') \<Rightarrow>
      length ps = n \<and> distinct ps \<and> 0 \<notin> set ps \<and> set ps \<inter> used_pages_of s = {} \<and>
      used_pages_of s' = used_pages_of s \<union> set ps)"
  using pages.alloc_many_distinct [OF _ assms] pages_l5.alloc_many_distinct [OF _ assms]
    pages.zero_not_page
  by (fastforce split: prod.splits)

lemma card_all_pages: "card all_pages = PAGING_PAGES"
proof -
  have "inj_on page_at {..<PAGING_PAGES}" by (auto simp: inj_on_def page_at_inj)
  then show ?thesis by (simp add: all_pages_def card_image)
qed

lemma boot_kernel_unused: "used_pages_of boot_kernel = {}"
  by (simp add: used_pages_of_def boot_kernel_pages)

theorem allocations_disjoint_witness:
  "\<exists>ps s'. alloc_many get_free_page 1000 boot_kernel = (ps, s') \<and> length ps = 1000 \<and> distinct ps"
proof -
  have "1000 \<le> card (all_pages - used_pages_of boot_kernel)"
    by (simp add: boot_kernel_unused card_all_pages map_values)
  from allocations_disjoint [OF this] show ?thesis
    by (auto split: prod.splits)
qed

text \<open>
  \<open>free_page\<close> undoes \<open>get_free_page\<close>: giving back the page that was just allocated
  restores the allocator of lesson 5 exactly. An address below \<open>LOW_MEMORY\<close> or not below
  \<open>HIGH_MEMORY\<close> has no entry in \<open>mem_map\<close>: freeing it is an access out of bounds.
\<close>

theorem free_page_roundtrip:
  assumes "get_free_page_l5 s = (p, s')" and "p \<noteq> 0"
  shows "free_page p s' = Inr s \<and>
    (\<forall>q t. free_page q t = Inl Out_Of_Bounds \<longleftrightarrow> \<not> (LOW_MEMORY \<le> q \<and> q < HIGH_MEMORY))"
proof
  show "free_page p s' = Inr s"
  proof (cases rule: get_free_page_l5_cases [of s])
    case (1 i)
    have "(mem_map s)(i := 0) = mem_map s" using 1(2) by auto
    then show ?thesis using 1 assms by (auto simp: free_page_def page_index)
  next
    case 2
    then show ?thesis using assms by simp
  qed
  have "unat ((q - LOW_MEMORY) div PAGE_SIZE) < PAGING_PAGES \<longleftrightarrow>
      LOW_MEMORY \<le> q \<and> q < HIGH_MEMORY" for q
  proof -
    have q: "unat q < 2 ^ 64" using unsigned_less [of q, where ?'a = nat] by simp
    have "unat (q - LOW_MEMORY) =
        (if 0x400000 \<le> unat q then unat q - 0x400000 else 2 ^ 64 + unat q - 0x400000)"
      by (simp add: unat_sub_if_size word_size map_values)
    then show ?thesis
      using q by (simp add: unat_div map_values word_le_nat_alt word_less_nat_alt
          div_less_iff_less_mult) linarith
  qed
  then show "\<forall>q t. free_page q t = Inl Out_Of_Bounds \<longleftrightarrow> \<not> (LOW_MEMORY \<le> q \<and> q < HIGH_MEMORY)"
    by (auto simp: free_page_def Let_def)
qed

theorem free_page_roundtrip_witness:
  "\<exists>s'. get_free_page_l5 boot_kernel = (LOW_MEMORY, s') \<and> free_page LOW_MEMORY s' = Inr boot_kernel"
proof -
  have "find_free (mem_map boot_kernel) 0 = Some 0"
    by (rule find_free_first) (simp_all add: boot_kernel_pages map_values)
  then obtain s' where run: "get_free_page_l5 boot_kernel = (LOW_MEMORY, s')"
    by (simp add: get_free_page_l5_def page_at_def)
  have "LOW_MEMORY \<noteq> 0" by (simp add: map_values)
  with run free_page_roundtrip [OF run] show ?thesis by blast
qed

end
