(* ===== verification/Page_Tables.thy ===== *)
theory Page_Tables
  imports Page_Alloc
begin

text \<open>
  Virtual memory (\<open>mm.c\<close> of lesson 6 with \<open>arm/mmu.h\<close>): the page table operations
  \<open>map_table\<close>, \<open>map_table_entry\<close>, \<open>map_page\<close>, and what is built on them,
  \<open>allocate_user_page\<close>, \<open>copy_virt_memory\<close> and \<open>do_mem_abort\<close>.

  The specification is an address space: a partial map from page numbers (as the four
  table indices) to physical pages. \<open>mmu_walk\<close> is the translation the hardware makes from
  the tables, as the README describes it; \<open>addr_space\<close> says which map the tables in memory
  stand for.
\<close>

unbundle bit_operations_syntax

section \<open>Descriptors\<close>

definition MM_TYPE_PAGE_TABLE :: u64 where "MM_TYPE_PAGE_TABLE = 0x3"
definition MM_TYPE_PAGE :: u64 where "MM_TYPE_PAGE = 0x3"
definition MM_TYPE_BLOCK :: u64 where "MM_TYPE_BLOCK = 0x1"
definition MM_ACCESS :: u64 where "MM_ACCESS = push_bit 10 1"
definition MM_ACCESS_PERMISSION :: u64 where "MM_ACCESS_PERMISSION = push_bit 6 1"
definition MT_DEVICE_nGnRnE :: u64 where "MT_DEVICE_nGnRnE = 0"
definition MT_NORMAL_NC :: u64 where "MT_NORMAL_NC = 1"

definition MMU_FLAGS :: u64 where
  "MMU_FLAGS = MM_TYPE_BLOCK OR push_bit 2 MT_NORMAL_NC OR MM_ACCESS"
definition MMU_DEVICE_FLAGS :: u64 where
  "MMU_DEVICE_FLAGS = MM_TYPE_BLOCK OR push_bit 2 MT_DEVICE_nGnRnE OR MM_ACCESS"
definition MMU_PTE_FLAGS :: u64 where
  "MMU_PTE_FLAGS = MM_TYPE_PAGE OR push_bit 2 MT_NORMAL_NC OR MM_ACCESS OR MM_ACCESS_PERMISSION"

lemma descriptor_values [layout_defs]:
  "MM_TYPE_PAGE_TABLE = 0x3" "MMU_FLAGS = 0x405" "MMU_DEVICE_FLAGS = 0x401"
  "MMU_PTE_FLAGS = 0x447"
  by (simp_all add: MM_TYPE_PAGE_TABLE_def MMU_FLAGS_def MMU_DEVICE_FLAGS_def MMU_PTE_FLAGS_def
      MM_TYPE_PAGE_def MM_TYPE_BLOCK_def MM_ACCESS_def MM_ACCESS_PERMISSION_def
      MT_DEVICE_nGnRnE_def MT_NORMAL_NC_def)

section \<open>The hardware's translation\<close>

text \<open>
  One table per shift, from the top: an invalid entry (bit 0 clear) translates nothing; an
  entry of type 3 is the next table, or the page at the last level; an entry of type 1 is a
  block, which the top level does not have. The access flag (bit 10) must be set.
  \<open>rd\<close> reads physical memory.
\<close>

definition table_index :: "nat \<Rightarrow> addr \<Rightarrow> u64" where
  "table_index shift va = drop_bit shift va AND (PTRS_PER_TABLE - 1)"

definition output_address :: "nat \<Rightarrow> u64 \<Rightarrow> u64" where
  "output_address shift e = e AND mask 48 AND NOT (mask shift)"

fun mmu_walk :: "(addr \<Rightarrow> u64) \<Rightarrow> addr \<Rightarrow> nat list \<Rightarrow> addr \<Rightarrow> addr option" where
  "mmu_walk rd tbl [] va = None"
| "mmu_walk rd tbl (shift # shifts) va =
     (let e = rd (tbl + 8 * table_index shift va)
      in if e AND 1 = 0 then None
         else if e AND 2 \<noteq> 0 \<and> shifts \<noteq> []
           then mmu_walk rd (output_address PAGE_SHIFT e) shifts va
         else if e AND MM_ACCESS = 0 then None
         else if e AND 2 \<noteq> 0 \<and> shift = PAGE_SHIFT \<or> e AND 2 = 0 \<and> shift \<noteq> PGD_SHIFT \<and> shift \<noteq> PAGE_SHIFT
           then Some (output_address shift e OR (va AND mask shift))
         else None)"

definition table_shifts :: "nat list" where
  "table_shifts = [PGD_SHIFT, PUD_SHIFT, PMD_SHIFT, PAGE_SHIFT]"

text \<open>The lower half of the address space is translated by the tables of \<open>ttbr0_el1\<close>, which
  the kernel's linear map shows at \<open>VA_START\<close>; the upper half is that map.\<close>

definition user_walk :: "memory \<Rightarrow> addr \<Rightarrow> addr \<Rightarrow> addr option" where
  "user_walk m ttbr va = mmu_walk (\<lambda>pa. m (pa + VA_START)) ttbr table_shifts va"

definition mmu_translate :: "addr \<Rightarrow> memory \<Rightarrow> addr \<Rightarrow> fault + addr" where
  "mmu_translate ttbr m va =
     (if VA_START \<le> va
      then if va - VA_START < PHYS_MEMORY_SIZE then Inr va else Inl (Translation_Fault va)
      else if va < push_bit 48 1
      then (case user_walk m ttbr va of
              Some pa \<Rightarrow> Inr (pa + VA_START) | None \<Rightarrow> Inl (Translation_Fault va))
      else Inl (Translation_Fault va))"

section \<open>The operations of mm.c\<close>

definition map_table_entry :: "addr \<Rightarrow> addr \<Rightarrow> addr \<Rightarrow> memory \<Rightarrow> memory" where
  "map_table_entry pte va pa m =
     (let index = drop_bit PAGE_SHIFT va; index = index AND (PTRS_PER_TABLE - 1);
          entry = pa OR MMU_PTE_FLAGS
      in m(pte + 8 * index := entry))"

text \<open>Returns the next level table and \<open>*new_table\<close>.\<close>

definition map_table :: "addr \<Rightarrow> nat \<Rightarrow> addr \<Rightarrow> kernel \<Rightarrow> addr \<times> bool \<times> kernel" where
  "map_table table shift va s =
     (let index = drop_bit shift va; index = index AND (PTRS_PER_TABLE - 1)
      in if mem s (table + 8 * index) = 0
         then (case get_free_page s of (next_level_table, s) \<Rightarrow>
             (let entry = next_level_table OR MM_TYPE_PAGE_TABLE
              in (next_level_table, True, s\<lparr>mem := (mem s)(table + 8 * index := entry)\<rparr>)))
         else (mem s (table + 8 * index) AND PAGE_MASK, False, s))"

text \<open>
  \<open>task->mm.kernel_pages[++task->mm.kernel_pages_count] = page\<close>, and
  \<open>task->mm.user_pages[task->mm.user_pages_count++] = p\<close>. Neither index is checked: the
  store goes where the compiled address computation puts it.
\<close>

definition push_kernel_page :: "addr \<Rightarrow> addr \<Rightarrow> memory \<Rightarrow> memory" where
  "push_kernel_page t page m =
     (let c = ld32 m (t + off_kernel_pages_count) + 1;
          m = st32 (t + off_kernel_pages_count) c m
      in m(t + off_kernel_pages + 8 * scast c := page))"

definition push_user_page :: "addr \<Rightarrow> user_page \<Rightarrow> memory \<Rightarrow> memory" where
  "push_user_page t p m =
     (let c = ld32 m (t + off_user_pages_count);
          m = st32 (t + off_user_pages_count) (c + 1) m;
          a = t + off_user_pages + 16 * scast c
      in m(a := phys_addr p, a + 8 := virt_addr p))"

definition set_mem :: "(memory \<Rightarrow> memory) \<Rightarrow> kernel \<Rightarrow> kernel" where
  "set_mem f s = s\<lparr>mem := f (mem s)\<rparr>"

definition map_page :: "addr \<Rightarrow> addr \<Rightarrow> addr \<Rightarrow> kernel \<Rightarrow> kernel" where
  "map_page t va page s =
     (let s = (if mem s (t + off_pgd) = 0
               then (case get_free_page s of (p, s) \<Rightarrow>
                   set_mem (\<lambda>m. push_kernel_page t (m (t + off_pgd)) m)
                     (set_mem (\<lambda>m. m(t + off_pgd := p)) s))
               else s);
          pgd = mem s (t + off_pgd)
      in case map_table (pgd + VA_START) PGD_SHIFT va s of (pud, new_table, s) \<Rightarrow>
         let s = (if new_table then set_mem (push_kernel_page t pud) s else s)
      in case map_table (pud + VA_START) PUD_SHIFT va s of (pmd, new_table, s) \<Rightarrow>
         let s = (if new_table then set_mem (push_kernel_page t pmd) s else s)
      in case map_table (pmd + VA_START) PMD_SHIFT va s of (pte, new_table, s) \<Rightarrow>
         let s = (if new_table then set_mem (push_kernel_page t pte) s else s);
             s = set_mem (map_table_entry (pte + VA_START) va page) s
      in set_mem (push_user_page t \<lparr>phys_addr = page, virt_addr = va\<rparr>) s)"

definition allocate_user_page :: "addr \<Rightarrow> addr \<Rightarrow> kernel \<Rightarrow> addr \<times> kernel" where
  "allocate_user_page t va s =
     (case get_free_page s of (page, s) \<Rightarrow>
        if page = 0 then (0, s)
        else (page + VA_START, map_page t va page s))"

text \<open>
  The loop of \<open>copy_virt_memory\<close>; the page count is read again on every turn. The result is
  the value the function returns, or the fault of a page of the parent that \<open>memcpy\<close>
  cannot read.
\<close>

function copy_virt_loop :: "addr \<Rightarrow> addr \<Rightarrow> nat \<Rightarrow> kernel \<Rightarrow> fault + int \<times> kernel" where
  "copy_virt_loop dst src i s =
     (if int i < sint (ld32 (mem s) (src + off_user_pages_count)) then
        let va = virt_addr (load_user_page (mem s) src i)
        in case allocate_user_page dst va s of (kernel_va, s) \<Rightarrow>
             if kernel_va = 0 then Inr (-1, s)
             else res_bind
               (memcpy (mmu_translate (ttbr0_el1 (cpu s))) kernel_va
                  (virt_addr (load_user_page (mem s) src i)) PAGE_SIZE (mem s))
               (\<lambda>m. copy_virt_loop dst src (Suc i) (s\<lparr>mem := m\<rparr>))
      else Inr (0, s))"
  by pat_completeness auto
termination
proof (relation "measure (\<lambda>(dst, src, i, s). 2 ^ 31 - i)")
  fix src i s assume "int i < sint (ld32 (mem s) (src + off_user_pages_count))"
  then have "int i < 2 ^ 31" using sint_lt [of "ld32 (mem s) (src + off_user_pages_count)"] by simp
  then have "2 ^ 31 - Suc i < 2 ^ 31 - i" by simp
  then show "((dst, src, Suc i, t), dst, src, i, s) \<in> measure (\<lambda>(dst, src, i, s). 2 ^ 31 - i)"
    for dst t by simp
qed simp

declare copy_virt_loop.simps [simp del]

definition copy_virt_memory :: "addr \<Rightarrow> kernel \<Rightarrow> fault + int \<times> kernel" where
  "copy_virt_memory dst s = copy_virt_loop dst (current s) 0 s"

definition do_mem_abort :: "addr \<Rightarrow> u64 \<Rightarrow> kernel \<Rightarrow> int \<times> kernel" where
  "do_mem_abort addr esr s =
     (let dfs = esr AND 0b111111
      in if dfs AND 0b111100 = 0b100
         then (case get_free_page s of (page, s) \<Rightarrow>
             if page = 0 then (-1, s)
             else let s = map_page (current s) (addr AND PAGE_MASK) page s;
                      s = s\<lparr>ind := ind s + 1\<rparr>
                  in if ind s > 2 then (-1, s) else (0, s))
         else (-1, s))"

end
