(* ===== verification/Address_Space.thy ===== *)
theory Address_Space
  imports Page_Tables
begin

text \<open>
  What the page tables in memory stand for: \<open>page_tables m tab A\<close> says that the tables
  \<open>tab\<close> (indexed by the path of table indices that leads to them) represent the address
  space \<open>A\<close> (a map from four indices to a physical page). The lemmas show that the hardware
  walk reads \<open>A\<close> off the tables and that \<open>map_page\<close> adds one page to it.
\<close>

unbundle bit_operations_syntax

section \<open>Descriptors of aligned pages\<close>

lemma page_aligned_bits: "page_aligned p \<Longrightarrow> n < 12 \<Longrightarrow> \<not> bit p n"
proof -
  assume p: "page_aligned p" and n: "n < 12"
  have "(2 :: nat) ^ 12 dvd unat p" using p by (simp add: page_aligned_def)
  then have "\<not> bit (unat p) n"
    using n by (metis bit_take_bit_iff bit_0 dvd_imp_mod_0 take_bit_eq_mod bot_nat_def bit_0_eq
        bot_apply bot_bool_def)
  then show ?thesis by (simp add: bit_unsigned_iff)
qed

lemma all_pages_aligned: "p \<in> all_pages \<Longrightarrow> page_aligned p"
  by (auto simp: all_pages_def page_at_aligned)

lemma all_pages_less: "p \<in> all_pages \<Longrightarrow> p < 2 ^ 48"
proof -
  assume "p \<in> all_pages"
  then obtain i where i: "i < PAGING_PAGES" "p = page_at i" by (auto simp: all_pages_def)
  have "unat p < 2 ^ 30" using page_at_unat [OF i(1)] i by (simp add: map_values)
  then show ?thesis by (simp add: word_less_nat_alt)
qed

lemma less_bits: "(p :: u64) < 2 ^ k \<Longrightarrow> k \<le> n \<Longrightarrow> \<not> bit p n"
  by (metis bit_take_bit_iff less_mask_eq take_bit_eq_mask not_le)

lemma page_word_bit:
  assumes "p \<in> all_pages" "bit p n"
  shows "12 \<le> n \<and> n < 48"
  using page_aligned_bits [OF all_pages_aligned [OF assms(1)], of n]
    less_bits [OF all_pages_less [OF assms(1)], of n] assms(2) by force

lemma page_and_small:
  assumes "p \<in> all_pages" "c < 4096"
  shows "p AND c = 0"
proof (rule bit_word_eqI)
  fix n
  have "\<not> bit p n" if "n < 12" using page_word_bit [OF assms(1)] that by force
  moreover have "\<not> bit c n" if "\<not> n < 12" using less_bits [of c 12 n] assms(2) that by simp
  ultimately show "bit (p AND c) n = bit (0 :: u64) n" by (auto simp: bit_simps)
qed

lemma page_and_high:
  assumes "p \<in> all_pages"
  shows "p AND NOT (mask 12) = p" and "p AND mask 48 = p"
  using page_word_bit [OF assms]
  by (auto intro!: bit_word_eqI simp: bit_simps) (meson not_le)

lemma small_and_high: "(c :: u64) < 4096 \<Longrightarrow> c AND NOT (mask 12) = 0"
  using less_bits [of c 12] by (auto intro!: bit_word_eqI simp: bit_simps)

lemma PAGE_MASK_mask: "PAGE_MASK = NOT (mask 12)"
  by (simp add: PAGE_MASK_def mask_eq_exp_minus_1)

lemma descriptor_output:
  assumes "p \<in> all_pages" "c < 4096"
  shows "(p OR c) AND PAGE_MASK = p" and "output_address PAGE_SHIFT (p OR c) = p"
proof -
  have "(p OR c) AND NOT (mask 12) = p"
    using page_and_high [OF assms(1)] small_and_high [OF assms(2)]
    by (simp add: bit.conj_disj_distrib2)
  then show "(p OR c) AND PAGE_MASK = p" by (simp only: PAGE_MASK_mask)
  have "c < 2 ^ 48" using assms(2) by (rule less_le_trans) simp
  then have "c AND mask 48 = c"
    using less_bits [of c 48] by (auto intro!: bit_word_eqI simp: bit_simps) (meson not_le)
  then have "(p OR c) AND mask 48 = p OR c"
    using page_and_high(2) [OF assms(1)] by (simp add: bit.conj_disj_distrib2)
  then show "output_address PAGE_SHIFT (p OR c) = p"
    using \<open>(p OR c) AND NOT (mask 12) = p\<close>
    by (simp add: output_address_def map_values flip: and.assoc)
qed

lemma descriptor_flags: "p \<in> all_pages \<Longrightarrow> d < 4096 \<Longrightarrow> (p OR c) AND d = c AND d"
  using page_and_small [of p d] by (simp add: bit.conj_disj_distrib2)

lemma table_descriptor:
  assumes "p \<in> all_pages"
  shows "(p OR 3) AND PAGE_MASK = p" and "(p OR 3) AND 1 \<noteq> 0" and "(p OR 3) AND 2 \<noteq> 0"
    and "output_address PAGE_SHIFT (p OR 3) = p" and "p OR 3 \<noteq> 0"
  using descriptor_output [OF assms, of 3] descriptor_flags [OF assms, of _ 3]
  by (auto simp: bit.disj_zero_right)

lemma page_descriptor:
  assumes "p \<in> all_pages"
  shows "(p OR MMU_PTE_FLAGS) AND 1 \<noteq> 0" and "(p OR MMU_PTE_FLAGS) AND 2 \<noteq> 0"
    and "(p OR MMU_PTE_FLAGS) AND MM_ACCESS \<noteq> 0"
    and "output_address PAGE_SHIFT (p OR MMU_PTE_FLAGS) = p" and "p OR MMU_PTE_FLAGS \<noteq> 0"
  using descriptor_output [OF assms, of "0x447"] descriptor_flags [OF assms, of _ "0x447"]
  by (auto simp: descriptor_values MM_ACCESS_def)

section \<open>Tables and the address space they stand for\<close>

type_synonym tables = "u64 list \<rightharpoonup> addr"
type_synonym space = "u64 list \<rightharpoonup> addr"

definition entry_word :: "tables \<Rightarrow> space \<Rightarrow> u64 list \<Rightarrow> u64 \<Rightarrow> u64" where
  "entry_word tab A k i =
     (if length k < 3 then (case tab (k @ [i]) of None \<Rightarrow> 0 | Some q \<Rightarrow> q OR MM_TYPE_PAGE_TABLE)
      else (case A (k @ [i]) of None \<Rightarrow> 0 | Some q \<Rightarrow> q OR MMU_PTE_FLAGS))"

definition page_tables :: "memory \<Rightarrow> tables \<Rightarrow> space \<Rightarrow> bool" where
  "page_tables m tab A \<longleftrightarrow>
     (\<forall>k p. tab k = Some p \<longrightarrow> length k \<le> 3 \<and> p \<in> all_pages) \<and>
     (\<forall>k k' p. tab k = Some p \<and> tab k' = Some p \<longrightarrow> k = k') \<and>
     (\<forall>k i. tab (k @ [i]) \<noteq> None \<or> A (k @ [i]) \<noteq> None \<longrightarrow> tab k \<noteq> None) \<and>
     ran A \<subseteq> all_pages \<and>
     (\<forall>k p i. tab k = Some p \<and> i < 512 \<longrightarrow> m (p + VA_START + 8 * i) = entry_word tab A k i)"

lemma page_tablesD:
  assumes "page_tables m tab A"
  shows "tab k = Some p \<Longrightarrow> length k \<le> 3" and "tab k = Some p \<Longrightarrow> p \<in> all_pages"
    and "tab k = Some p \<Longrightarrow> tab k' = Some p \<Longrightarrow> k = k'"
    and "tab (k @ [i]) \<noteq> None \<Longrightarrow> tab k \<noteq> None" and "A (k @ [i]) \<noteq> None \<Longrightarrow> tab k \<noteq> None"
    and "A k = Some p \<Longrightarrow> p \<in> all_pages"
    and "tab k = Some p \<Longrightarrow> i < 512 \<Longrightarrow> m (p + VA_START + 8 * i) = entry_word tab A k i"
  using assms unfolding page_tables_def by (blast intro: ranI)+

definition vpn :: "addr \<Rightarrow> u64 list" where
  "vpn va = map (\<lambda>shift. table_index shift va) table_shifts"

lemma table_index_less: "table_index shift va < 512"
  unfolding table_index_def
  by (rule le_less_trans [OF word_and_le1]) (simp add: map_values)

text \<open>One level of the walk, and the last one.\<close>

lemma walk_entry:
  assumes "page_tables m tab A" "tab k = Some p"
  shows "m (p + 8 * table_index shift va + VA_START) = entry_word tab A k (table_index shift va)"
  using page_tablesD(7) [OF assms table_index_less] by (simp add: algebra_simps)

lemma walk_step:
  assumes inv: "page_tables m tab A" and k: "tab k = Some p" "length k < 3" and sh: "shifts \<noteq> []"
  shows "mmu_walk (\<lambda>pa. m (pa + VA_START)) p (shift # shifts) va =
    (case tab (k @ [table_index shift va]) of
       None \<Rightarrow> None | Some q \<Rightarrow> mmu_walk (\<lambda>pa. m (pa + VA_START)) q shifts va)"
proof (cases "tab (k @ [table_index shift va])")
  case None
  then show ?thesis
    by (simp add: walk_entry [OF inv k(1)] entry_word_def k(2) Let_def)
next
  case (Some q)
  note page_tablesD(2) [OF inv Some]
  from table_descriptor [OF this] Some sh show ?thesis
    by (simp add: walk_entry [OF inv k(1)] entry_word_def k(2) Let_def descriptor_values)
qed

lemma walk_last:
  assumes inv: "page_tables m tab A" and k: "tab k = Some p" "length k = 3"
  shows "mmu_walk (\<lambda>pa. m (pa + VA_START)) p [PAGE_SHIFT] va =
    map_option (\<lambda>p. p OR (va AND mask PAGE_SHIFT)) (A (k @ [table_index PAGE_SHIFT va]))"
proof (cases "A (k @ [table_index PAGE_SHIFT va])")
  case None
  then show ?thesis
    by (simp add: walk_entry [OF inv k(1)] entry_word_def k(2) Let_def)
next
  case (Some q)
  note page_tablesD(6) [OF inv Some]
  from page_descriptor [OF this] Some show ?thesis
    by (simp add: walk_entry [OF inv k(1)] entry_word_def k(2) Let_def)
qed

text \<open>The walk of the hardware is a lookup in the address space.\<close>

lemma no_table_no_page:
  assumes inv: "page_tables m tab A" and k: "tab k = None"
  shows "ks \<noteq> [] \<Longrightarrow> A (k @ ks) = None \<and> tab (k @ ks) = None"
proof (induction ks rule: rev_induct)
  case (snoc i ks)
  have "tab (k @ ks) = None" using snoc.IH k by (cases "ks = []") auto
  then have "A ((k @ ks) @ [i]) = None" "tab ((k @ ks) @ [i]) = None"
    using page_tablesD(4,5) [OF inv, of "k @ ks" i] by blast+
  then show ?case by simp
qed simp

lemma walk_suffix:
  assumes inv: "page_tables m tab A"
  shows "tab k = Some p \<Longrightarrow> length k + length shifts = 3 \<Longrightarrow>
    mmu_walk (\<lambda>pa. m (pa + VA_START)) p (shifts @ [PAGE_SHIFT]) va =
      map_option (\<lambda>p. p OR (va AND mask PAGE_SHIFT))
        (A (k @ map (\<lambda>shift. table_index shift va) (shifts @ [PAGE_SHIFT])))"
proof (induction shifts arbitrary: k p)
  case Nil
  then show ?case using walk_last [OF inv] by simp
next
  case (Cons shift shifts)
  let ?k = "k @ [table_index shift va]"
  note step = walk_step [OF inv Cons.prems(1), of "shifts @ [PAGE_SHIFT]" shift va]
  show ?case
  proof (cases "tab ?k")
    case None
    then show ?thesis
      using step Cons.prems(2) no_table_no_page [OF inv None, of "map (\<lambda>shift. table_index shift va) (shifts @ [PAGE_SHIFT])"]
      by simp
  next
    case (Some q)
    then show ?thesis using step Cons.prems(2) Cons.IH [OF Some] by simp
  qed
qed

lemma walk_lookup:
  assumes inv: "page_tables m tab A" and root: "tab [] = Some r"
  shows "user_walk m r va = map_option (\<lambda>p. p OR (va AND mask PAGE_SHIFT)) (A (vpn va))"
  using walk_suffix [OF inv root, of "[PGD_SHIFT, PUD_SHIFT, PMD_SHIFT]" va]
  by (simp add: user_walk_def table_shifts_def vpn_def)


section \<open>Changing the tables\<close>

text \<open>Memory outside the tables does not matter.\<close>

lemma page_tables_frame:
  assumes inv: "page_tables m tab A"
    and same: "\<And>p y. p \<in> ran tab \<Longrightarrow> y < 4096 \<Longrightarrow> m' (p + VA_START + y) = m (p + VA_START + y)"
  shows "page_tables m' tab A"
proof -
  have "m' (p + VA_START + 8 * i) = m (p + VA_START + 8 * i)" if "tab k = Some p" "i < 512" for k p i
  proof (rule same)
    show "p \<in> ran tab" using that(1) by (rule ranI)
    have "unat i < 512" using that(2) by (simp add: word_less_nat_alt)
    then show "8 * i < 4096" by (simp add: word_less_nat_alt unat_word_ariths)
  qed
  then show ?thesis using inv unfolding page_tables_def by auto
qed

lemma table_entry_offset: "i < 512 \<Longrightarrow> 8 * i < (4096 :: u64)"
  by (simp add: word_less_nat_alt unat_word_ariths)

lemma kernel_page_neq:
  assumes "p \<in> all_pages" "q \<in> all_pages" "p \<noteq> q" "x < 4096" "y < 4096"
  shows "p + VA_START + x \<noteq> q + VA_START + y"
  using assms page_offset_neq [of "p + VA_START" "q + VA_START" x y]
  by (simp add: page_aligned_add all_pages_aligned VA_START_aligned)

lemma table_entry_inj:
  assumes "p \<in> all_pages" "q \<in> all_pages" "i < 512" "j < 512"
  shows "p + VA_START + 8 * i = q + VA_START + 8 * j \<longleftrightarrow> p = q \<and> i = j"
proof -
  have "8 * i = 8 * j \<longleftrightarrow> i = j"
  proof
    assume "8 * i = 8 * j"
    then have "unat (8 * i) = unat (8 * j)" by (simp only:)
    then have "8 * unat i = 8 * unat j"
      using assms(3,4) by (simp add: word_less_nat_alt unat_word_ariths)
    then show "i = j" by (simp only: nat_mult_eq_cancel1) (simp only: unsigned_word_eqI)
  qed simp
  then show ?thesis
    using page_offset_inj [of "p + VA_START" "q + VA_START" "8 * i" "8 * j"] assms
    by (simp add: page_aligned_add all_pages_aligned VA_START_aligned table_entry_offset)
qed

text \<open>A page is put in the last table.\<close>

lemma page_tables_map:
  assumes inv: "page_tables m tab A" and k: "tab k = Some p" "length k = 3"
    and i: "i < 512" and q: "q \<in> all_pages"
  shows "page_tables (m(p + VA_START + 8 * i := q OR MMU_PTE_FLAGS)) tab (A(k @ [i] \<mapsto> q))"
proof -
  let ?m = "m(p + VA_START + 8 * i := q OR MMU_PTE_FLAGS)" and ?A = "A(k @ [i] \<mapsto> q)"
  have "?m (p' + VA_START + 8 * i') = entry_word tab ?A k' i'" if t: "tab k' = Some p'" "i' < 512" for k' p' i'
  proof (cases "p' = p \<and> i' = i")
    case True
    then have "k' = k" using page_tablesD(3) [OF inv] t k by blast
    then show ?thesis using True k by (simp add: entry_word_def)
  next
    case False
    have "p' + VA_START + 8 * i' \<noteq> p + VA_START + 8 * i"
      using table_entry_inj [OF page_tablesD(2) [OF inv t(1)] page_tablesD(2) [OF inv k(1)] t(2) i]
        False by blast
    moreover have "k' @ [i'] \<noteq> k @ [i]" using False t(1) k(1) by auto
    ultimately show ?thesis using page_tablesD(7) [OF inv t] by (auto simp: entry_word_def)
  qed
  moreover have "ran ?A \<subseteq> all_pages"
    using inv q by (auto simp: page_tables_def ran_def split: if_splits)
  moreover have "tab k' \<noteq> None" if "tab (k' @ [i']) \<noteq> None \<or> ?A (k' @ [i']) \<noteq> None" for k' i'
    using that page_tablesD(4,5) [OF inv, of k' i'] k(1) by (auto split: if_splits)
  ultimately show ?thesis
    using inv unfolding page_tables_def by blast
qed

text \<open>A cleared page becomes a table.\<close>

lemma page_tables_new_table:
  assumes inv: "page_tables m tab A" and k: "tab k = Some p" "length k < 3" "tab (k @ [i]) = None"
    and i: "i < 512" and q: "q \<in> all_pages" "q \<notin> ran tab"
    and clear: "\<And>j. j < 512 \<Longrightarrow> m (q + VA_START + 8 * j) = 0"
  shows "page_tables (m(p + VA_START + 8 * i := q OR MM_TYPE_PAGE_TABLE)) (tab(k @ [i] \<mapsto> q)) A"
proof -
  let ?m = "m(p + VA_START + 8 * i := q OR MM_TYPE_PAGE_TABLE)" and ?tab = "tab(k @ [i] \<mapsto> q)"
  have p: "p \<in> all_pages" and pq: "p \<noteq> q"
    using page_tablesD(2) [OF inv k(1)] k(1) q(2) by (auto intro: ranI)
  have below: "tab (k @ [i] @ ks) = None" "A (k @ [i] @ ks) = None" if "ks \<noteq> []" for ks
    using no_table_no_page [OF inv k(3) that] by simp_all
  have "?m (p' + VA_START + 8 * i') = entry_word ?tab A k' i'" if t: "?tab k' = Some p'" "i' < 512" for k' p' i'
  proof (cases "k' = k @ [i]")
    case True
    then have "p' = q" using t(1) by simp
    moreover have "q + VA_START + 8 * i' \<noteq> p + VA_START + 8 * i"
      using table_entry_inj [OF q(1) p t(2) i] pq by blast
    ultimately show ?thesis
      using True clear [OF t(2)] below [of "[i']"] by (simp add: entry_word_def)
  next
    case False
    then have t': "tab k' = Some p'" using t(1) by simp
    show ?thesis
    proof (cases "p' = p \<and> i' = i")
      case True
      then have "k' = k" using page_tablesD(3) [OF inv t'] k(1) by blast
      then show ?thesis using True k(2) by (simp add: entry_word_def)
    next
      case False
      have "p' + VA_START + 8 * i' \<noteq> p + VA_START + 8 * i"
        using table_entry_inj [OF page_tablesD(2) [OF inv t'] p t(2) i] False by blast
      moreover have "k' @ [i'] \<noteq> k @ [i]" using False t' k(1) by auto
      ultimately show ?thesis using page_tablesD(7) [OF inv t' t(2)] by (auto simp: entry_word_def)
    qed
  qed
  moreover have "k' = k''" if "?tab k' = Some p'" "?tab k'' = Some p'" for k' k'' p'
    using that page_tablesD(3) [OF inv] q(2) by (auto split: if_splits intro: ranI)
  moreover have "length k' \<le> 3 \<and> p' \<in> all_pages" if "?tab k' = Some p'" for k' p'
    using that page_tablesD(1,2) [OF inv] k(2) q(1) by (auto split: if_splits)
  moreover have "?tab k' \<noteq> None" if "?tab (k' @ [i']) \<noteq> None \<or> A (k' @ [i']) \<noteq> None" for k' i'
    using that page_tablesD(4,5) [OF inv, of k' i'] k(1) by (auto split: if_splits)
  ultimately show ?thesis
    using inv unfolding page_tables_def by blast
qed

text \<open>A cleared page alone is the empty address space.\<close>

lemma page_tables_empty:
  assumes "q \<in> all_pages" "\<And>j. j < 512 \<Longrightarrow> m (q + VA_START + 8 * j) = 0"
  shows "page_tables m [[] \<mapsto> q] Map.empty"
  using assms by (auto simp: page_tables_def entry_word_def split: if_splits)


section \<open>Mapping a page\<close>

text \<open>A fresh page, as the table code gets it.\<close>

lemma fresh_page:
  assumes "used_pages_of s \<noteq> all_pages"
  obtains n mp where "n \<in> all_pages" "n \<notin> used_pages_of s"
    "get_free_page s = (n, s\<lparr>mem_map := mp, mem := memzero (n + VA_START) PAGE_SIZE (mem s)\<rparr>)"
    "\<forall>m. used_pages_of (s\<lparr>mem_map := mp, mem := m\<rparr>) = insert n (used_pages_of s)"
proof (cases rule: get_free_page_l5_cases [of s])
  case (1 i)
  have "used_pages_of (s\<lparr>mem_map := (mem_map s)(i := 1), mem := m\<rparr>) = insert (page_at i) (used_pages_of s)" for m
    using used_pages_of_mark [OF 1(1), of s]
      used_pages_of_cong [of "s\<lparr>mem_map := (mem_map s)(i := 1), mem := m\<rparr>" "s\<lparr>mem_map := (mem_map s)(i := 1)\<rparr>"]
    by simp
  with 1 show thesis
    by (intro that [of "page_at i" "(mem_map s)(i := 1)"]) (auto simp: all_pages_def used_pages_of_page)
next
  case 2
  with assms show thesis by blast
qed

text \<open>The task whose pages are recorded: its \<open>struct\<close> fills a page of its own.\<close>

definition kernel_slot :: "u32 \<Rightarrow> nat \<Rightarrow> u64" where
  "kernel_slot c j = off_kernel_pages + 8 * word_of_nat (unat c + 1 + j)"

definition recorded :: "addr \<Rightarrow> memory \<Rightarrow> memory \<Rightarrow> addr list \<Rightarrow> bool" where
  "recorded t m0 m new \<longleftrightarrow>
     ld32 m (t + off_kernel_pages_count) = ld32 m0 (t + off_kernel_pages_count) + word_of_nat (length new) \<and>
     (\<forall>j < length new. m (t + kernel_slot (ld32 m0 (t + off_kernel_pages_count)) j) = new ! j) \<and>
     (\<forall>y < 4096. y \<noteq> off_kernel_pages_count \<and>
        (\<forall>j < length new. y \<noteq> kernel_slot (ld32 m0 (t + off_kernel_pages_count)) j) \<longrightarrow> m (t + y) = m0 (t + y))"

lemma kernel_slot_unat: "unat c + 1 + j < 32 \<Longrightarrow> unat (kernel_slot c j) = 424 + 8 * (unat c + 1 + j)"
proof -
  have "unat (424 + 8 * word_of_nat n :: u64) = 424 + 8 * n" if "n < 32" for n
    using that by (simp add: unat_word_ariths unat_of_nat)
  then show "unat c + 1 + j < 32 \<Longrightarrow> unat (kernel_slot c j) = 424 + 8 * (unat c + 1 + j)"
    unfolding kernel_slot_def off_kernel_pages_def by blast
qed

lemma kernel_slot_neq:
  assumes "unat c + 1 + j < 32"
  shows "kernel_slot c j \<noteq> off_kernel_pages_count" "kernel_slot c j \<noteq> off_pgd"
    "kernel_slot c j < 4096" "i < j \<Longrightarrow> kernel_slot c i \<noteq> kernel_slot c j"
  using kernel_slot_unat [OF assms] kernel_slot_unat [of c i] assms
  by (auto simp: layout_defs word_less_nat_alt)

lemma small_index: "unat (c :: u32) < 2 ^ 31 \<Longrightarrow> (scast c :: u64) = word_of_nat (unat c)"
  using sint_eq_unat [of c] by (simp add: scast_eq)

lemma push_kernel_page_store:
  assumes "unat (ld32 m (t + off_kernel_pages_count)) < 31"
  shows "push_kernel_page t p m =
    (st32 (t + off_kernel_pages_count) (ld32 m (t + off_kernel_pages_count) + 1) m)
      (t + kernel_slot (ld32 m (t + off_kernel_pages_count)) 0 := p)"
proof -
  let ?c = "ld32 m (t + off_kernel_pages_count)"
  have "unat (?c + 1) = unat ?c + 1" using assms by (simp add: unat_word_ariths)
  then have "(scast (?c + 1) :: u64) = word_of_nat (unat ?c + 1)"
    using small_index [of "?c + 1"] assms by simp
  then show ?thesis
    unfolding push_kernel_page_def Let_def kernel_slot_def by (simp add: add.assoc)
qed

lemma recorded_push:
  assumes rec: "recorded t m0 m new"
    and cnt: "ld32 m0 (t + off_kernel_pages_count) = c" and room: "unat c + length new < 31"
  shows "recorded t m0 (push_kernel_page t p m) (new @ [p])"
    and "x \<noteq> t + off_kernel_pages_count \<Longrightarrow> x \<noteq> t + kernel_slot c (length new) \<Longrightarrow>
      push_kernel_page t p m x = m x"
proof -
  let ?now = "ld32 m (t + off_kernel_pages_count)"
  have c: "?now = c + word_of_nat (length new)"
    using rec unfolding recorded_def cnt by (rule conjunct1)
  then have uc: "unat ?now = unat c + length new"
    using room by (simp add: unat_word_ariths unat_of_nat)
  then have slot: "kernel_slot ?now 0 = kernel_slot c (length new)"
    by (simp add: kernel_slot_def)
  have push: "push_kernel_page t p m = (st32 (t + off_kernel_pages_count) (?now + 1) m)
      (t + kernel_slot c (length new) := p)"
    using push_kernel_page_store [of m t p] uc room slot by simp
  have neq: "kernel_slot c (length new) \<noteq> off_kernel_pages_count"
      "i < length new \<Longrightarrow> kernel_slot c i \<noteq> kernel_slot c (length new)"
      "i < length new \<Longrightarrow> kernel_slot c i \<noteq> off_kernel_pages_count" for i
    using kernel_slot_neq [of c "length new"] kernel_slot_neq [of c i] room by auto
  show "recorded t m0 (push_kernel_page t p m) (new @ [p])"
    unfolding push recorded_def cnt using rec neq c
    by (auto simp: recorded_def cnt nth_append less_Suc_eq)
  show "x \<noteq> t + off_kernel_pages_count \<Longrightarrow> x \<noteq> t + kernel_slot c (length new) \<Longrightarrow>
      push_kernel_page t p m x = m x"
    unfolding push by simp
qed

text \<open>
  What the table code may have done between \<open>s0\<close> and \<open>s\<close> while it mapped a page for the
  task at \<open>t\<close>: it took the pages \<open>new\<close>, made tables of them and recorded them; nothing else
  changed.
\<close>

definition table_step ::
    "addr \<Rightarrow> addr \<Rightarrow> kernel \<Rightarrow> tables \<Rightarrow> space \<Rightarrow> kernel \<Rightarrow> tables \<Rightarrow> addr list \<Rightarrow> bool" where
  "table_step t r s0 tab0 A s tab new \<longleftrightarrow>
     tab [] = Some r \<and> page_tables (mem s) tab A \<and> tab0 \<subseteq>\<^sub>m tab \<and> ran tab = ran tab0 \<union> set new \<and>
     distinct new \<and> set new \<inter> used_pages_of s0 = {} \<and>
     used_pages_of s = used_pages_of s0 \<union> set new \<and>
     s = s0\<lparr>mem := mem s, mem_map := mem_map s\<rparr> \<and>
     (\<forall>b y. page_aligned b \<and> y < 4096 \<and> b \<noteq> t \<and> b - VA_START \<notin> ran tab \<longrightarrow>
        mem s (b + y) = mem s0 (b + y)) \<and>
     recorded t ((mem s0)(t + off_pgd := r)) (mem s) new"

lemma count_of_pgd [simp]:
  "ld32 (m(t + off_pgd := r)) (t + off_kernel_pages_count) = ld32 m (t + off_kernel_pages_count)"
  by (simp add: ld32_def layout_defs)

lemma recorded_root:
  assumes "recorded t (m0(t + off_pgd := r)) m new"
    and "unat (ld32 m0 (t + off_kernel_pages_count)) + length new < 32"
  shows "m (t + off_pgd) = r"
proof -
  let ?c = "ld32 m0 (t + off_kernel_pages_count)"
  have "off_pgd \<noteq> kernel_slot ?c j" if "j < length new" for j
    using kernel_slot_neq(2) [of ?c j] that assms(2) by auto
  then show ?thesis
    using assms(1) by (auto simp: recorded_def layout_defs)
qed

text \<open>One level of \<open>map_page\<close>: \<open>map_table\<close> and the bookkeeping after it.\<close>

definition map_level :: "addr \<Rightarrow> nat \<Rightarrow> addr \<Rightarrow> addr \<Rightarrow> kernel \<Rightarrow> addr \<times> kernel" where
  "map_level t shift va p s =
     (case map_table (p + VA_START) shift va s of (n, new_table, s) \<Rightarrow>
        (n, if new_table then set_mem (push_kernel_page t n) s else s))"

lemma recorded_cong:
  assumes rec: "recorded t m0 m new" and same: "\<And>y. y < 4096 \<Longrightarrow> m' (t + y) = m (t + y)"
    and room: "unat (ld32 m0 (t + off_kernel_pages_count)) + length new < 32"
  shows "recorded t m0 m' new"
proof -
  have "ld32 m' (t + off_kernel_pages_count) = ld32 m (t + off_kernel_pages_count)"
    using same [of off_kernel_pages_count] by (simp add: ld32_def layout_defs)
  moreover have "m' (t + kernel_slot (ld32 m0 (t + off_kernel_pages_count)) j) =
      m (t + kernel_slot (ld32 m0 (t + off_kernel_pages_count)) j)" if "j < length new" for j
    using room that by (intro same kernel_slot_neq) simp
  ultimately show ?thesis
    using rec same unfolding recorded_def by simp
qed

lemma map_table_if:
  "map_table table shift va s =
    (if mem s (table + 8 * table_index shift va) = 0
     then (case get_free_page s of (n, s) \<Rightarrow>
         (n, True, s\<lparr>mem := (mem s)(table + 8 * table_index shift va := n OR MM_TYPE_PAGE_TABLE)\<rparr>))
     else (mem s (table + 8 * table_index shift va) AND PAGE_MASK, False, s))"
  by (simp add: map_table_def table_index_def Let_def)

lemma map_table_lookup:
  assumes inv: "page_tables (mem s) tab A" and k: "tab k = Some p" "length k < 3"
  shows "map_table (p + VA_START) shift va s =
    (case tab (k @ [table_index shift va]) of
       Some n \<Rightarrow> (n, False, s)
     | None \<Rightarrow> (case get_free_page s of (n, s) \<Rightarrow>
         (n, True, s\<lparr>mem := (mem s)(p + VA_START + 8 * table_index shift va := n OR MM_TYPE_PAGE_TABLE)\<rparr>)))"
proof -
  have e: "mem s (p + VA_START + 8 * table_index shift va) = entry_word tab A k (table_index shift va)"
    by (rule page_tablesD(7) [OF inv k(1) table_index_less])
  show ?thesis
  proof (cases "tab (k @ [table_index shift va])")
    case None
    then show ?thesis using e k(2) by (simp add: map_table_if entry_word_def)
  next
    case (Some n)
    then show ?thesis
      using e k(2) table_descriptor [OF page_tablesD(2) [OF inv Some]]
      by (simp add: map_table_if entry_word_def descriptor_values)
  qed
qed

text \<open>A fresh cleared page becomes a table: memory after \<open>map_table\<close>.\<close>

lemma memzero_clears:
  "j < 512 \<Longrightarrow> memzero p PAGE_SIZE m (p + 8 * j) = 0"
  using memzero_page_cleared [of "unat j" p m] by (simp add: word_less_nat_alt)

lemma new_table_memory:
  assumes inv: "page_tables m tab A" and k: "tab k = Some p" "length k < 3" "tab (k @ [i]) = None"
    and i: "i < 512" and n: "n \<in> all_pages" "n \<notin> ran tab"
  shows "page_tables ((memzero (n + VA_START) PAGE_SIZE m)(p + VA_START + 8 * i := n OR MM_TYPE_PAGE_TABLE))
      (tab(k @ [i] \<mapsto> n)) A"
    and "page_aligned b \<Longrightarrow> b \<noteq> n + VA_START \<Longrightarrow> b \<noteq> p + VA_START \<Longrightarrow> y < 4096 \<Longrightarrow>
      ((memzero (n + VA_START) PAGE_SIZE m)(p + VA_START + 8 * i := n OR MM_TYPE_PAGE_TABLE)) (b + y) = m (b + y)"
proof -
  have al: "page_aligned (x + VA_START)" if "x \<in> all_pages" for x
    using that by (intro page_aligned_add all_pages_aligned VA_START_aligned)
  have p: "p \<in> all_pages" by (rule page_tablesD(2) [OF inv k(1)])
  have "page_tables (memzero (n + VA_START) PAGE_SIZE m) tab A"
  proof (rule page_tables_frame [OF inv])
    fix p' y assume "p' \<in> ran tab" "y < (4096 :: u64)"
    then show "memzero (n + VA_START) PAGE_SIZE m (p' + VA_START + y) = m (p' + VA_START + y)"
      using n page_tablesD(2) [OF inv] by (intro memzero_page_other al) (auto simp: ran_def)
  qed
  then show "page_tables ((memzero (n + VA_START) PAGE_SIZE m)(p + VA_START + 8 * i := n OR MM_TYPE_PAGE_TABLE))
      (tab(k @ [i] \<mapsto> n)) A"
    by (rule page_tables_new_table [OF _ k i n]) (rule memzero_clears)
  show "((memzero (n + VA_START) PAGE_SIZE m)(p + VA_START + 8 * i := n OR MM_TYPE_PAGE_TABLE)) (b + y) = m (b + y)"
    if "page_aligned b" "b \<noteq> n + VA_START" "b \<noteq> p + VA_START" "y < 4096"
  proof -
    have "b + y \<noteq> p + VA_START + 8 * i"
      using that i by (intro page_offset_neq al p table_entry_offset)
    then show ?thesis
      using memzero_page_other [OF al [OF n(1)] that(1,2,4)] by simp
  qed
qed

text \<open>The task's own page: in use, and none of its tables, which are in use too.\<close>

definition task_page :: "kernel \<Rightarrow> tables \<Rightarrow> addr \<Rightarrow> addr \<Rightarrow> bool" where
  "task_page s tab q t \<longleftrightarrow>
     t = q + VA_START \<and> q \<in> used_pages_of s \<and> q \<notin> ran tab \<and> ran tab \<subseteq> used_pages_of s"

lemma task_pageD:
  assumes "task_page s tab q t"
  shows "t = q + VA_START" "q \<in> used_pages_of s" "q \<notin> ran tab" "ran tab \<subseteq> used_pages_of s"
    "q \<in> all_pages" "page_aligned t"
proof -
  show *: "t = q + VA_START" "q \<in> used_pages_of s" "q \<notin> ran tab" "ran tab \<subseteq> used_pages_of s"
    using assms by (simp_all add: task_page_def)
  show "q \<in> all_pages" using *(2) used_pages_subset by blast
  then show "page_aligned t"
    unfolding *(1) by (intro page_aligned_add all_pages_aligned VA_START_aligned)
qed

text \<open>One level keeps the account of the fresh pages.\<close>

lemma table_step_level:
  assumes tp: "task_page s0 tab0 q t" and step: "table_step t r s0 tab0 A s tab new"
    and k: "tab k = Some p" "length k < 3"
    and pages: "length new < card (all_pages - used_pages_of s0)"
    and room: "unat (ld32 (mem s0) (t + off_kernel_pages_count)) + length new < 31"
  shows "\<exists>n s' tab' new'. map_level t shift va p s = (n, s') \<and> table_step t r s0 tab0 A s' tab' new' \<and>
    length new' \<le> Suc (length new) \<and> tab' (k @ [table_index shift va]) = Some n"
proof (cases "tab (k @ [table_index shift va])")
  case (Some n)
  have "page_tables (mem s) tab A" using step by (simp add: table_step_def)
  from map_table_lookup [OF this k, of shift va] Some
  have "map_level t shift va p s = (n, s)" by (simp add: map_level_def)
  with step Some show ?thesis by (intro exI [of _ n] exI [of _ s] exI [of _ tab] exI [of _ new]) simp
next
  case None
  note t = task_pageD(1) [OF tp] and q = task_pageD(2,3) [OF tp] and tables_used = task_pageD(4) [OF tp]
    and t_aligned = task_pageD(6) [OF tp]
  have inv: "page_tables (mem s) tab A" and used: "used_pages_of s = used_pages_of s0 \<union> set new"
    using step by (simp_all add: table_step_def)
  have "all_pages \<noteq> used_pages_of s0 \<union> set new"
  proof
    assume "all_pages = used_pages_of s0 \<union> set new"
    then have "all_pages - used_pages_of s0 \<subseteq> set new" by auto
    then have "card (all_pages - used_pages_of s0) \<le> length new"
      by (meson List.finite_set card_length card_mono le_trans)
    then show False using pages by simp
  qed
  then have "used_pages_of s \<noteq> all_pages" using used by auto
  then obtain n mp where n: "n \<in> all_pages" "n \<notin> used_pages_of s"
    and get: "get_free_page s = (n, s\<lparr>mem_map := mp, mem := memzero (n + VA_START) PAGE_SIZE (mem s)\<rparr>)"
    and mark: "\<forall>m. used_pages_of (s\<lparr>mem_map := mp, mem := m\<rparr>) = insert n (used_pages_of s)"
    by (rule fresh_page)
  let ?i = "table_index shift va" and ?tab = "tab(k @ [table_index shift va] \<mapsto> n)"
  let ?m1 = "memzero (n + VA_START) PAGE_SIZE (mem s)"
  let ?m2 = "?m1(p + VA_START + 8 * ?i := n OR MM_TYPE_PAGE_TABLE)"
  let ?m3 = "push_kernel_page t n ?m2"
  let ?s = "s\<lparr>mem_map := mp, mem := ?m3\<rparr>"
  have run: "map_level t shift va p s = (n, ?s)"
    using map_table_lookup [OF inv k, of shift va] None get
    by (simp add: map_level_def set_mem_def)
  have ran: "ran tab \<subseteq> used_pages_of s" "q \<notin> ran tab" "q \<in> used_pages_of s"
    using step tables_used q by (auto simp: table_step_def)
  then have fresh: "n \<notin> ran tab" "n \<noteq> q" and p: "p \<in> all_pages" "p \<noteq> q"
    using n k(1) page_tablesD(2) [OF inv k(1)] by (auto intro: ranI)
  note mem2 = new_table_memory [OF inv k None table_index_less n(1) fresh(1)]
  let ?old = "(mem s0)(t + off_pgd := r)"
  have "recorded t ?old ?m2 new"
  proof (rule recorded_cong)
    show "recorded t ?old (mem s) new" using step by (simp add: table_step_def)
    show "?m2 (t + y) = mem s (t + y)" if "y < 4096" for y
      using that fresh p by (intro mem2(2) t_aligned) (auto simp: t)
  qed (use room in simp)
  note push = recorded_push [OF this count_of_pgd, OF room, where p = n]
  have other: "?m3 (b + y) = ?m2 (b + y)" if "page_aligned b" "b \<noteq> t" "y < 4096" for b y
    using page_offset_neq [OF that(1) t_aligned that(2,3)] kernel_slot_neq(3) [of "ld32 (mem s0) (t + off_kernel_pages_count)" "length new"] room
    by (intro push(2)) (auto simp: layout_defs)
  have tabs: "ran ?tab = insert n (ran tab)" "tab \<subseteq>\<^sub>m ?tab"
    using None by (auto simp: map_le_def)
  have "page_tables ?m3 ?tab A"
  proof (rule page_tables_frame [OF mem2(1)])
    fix p' y assume p': "p' \<in> ran ?tab" and y: "y < (4096 :: u64)"
    have "p' \<noteq> q" "p' \<in> all_pages"
      using p' fresh ran(2) n(1) page_tablesD(2) [OF inv] unfolding tabs(1) by (auto simp: ran_def)
    with y show "?m3 (p' + VA_START + y) = ?m2 (p' + VA_START + y)"
      by (intro other page_aligned_add all_pages_aligned VA_START_aligned) (auto simp: t)
  qed
  then have "page_tables (mem ?s) ?tab A" by simp
  moreover have "mem ?s (b + y) = mem s0 (b + y)"
    if b: "page_aligned b" "y < 4096" "b \<noteq> t" "b - VA_START \<notin> ran ?tab" for b y
  proof -
    have ne: "b \<noteq> n + VA_START" "b \<noteq> p + VA_START" "b - VA_START \<notin> ran tab"
      using b(4) k(1) unfolding tabs(1) by (auto intro: ranI)
    show ?thesis
      using other [OF b(1,3,2)] mem2(2) [OF b(1) ne(1,2) b(2)] step b ne(3)
      by (simp add: table_step_def)
  qed
  moreover have "?s = s0\<lparr>mem := mem ?s, mem_map := mem_map ?s\<rparr>"
    using step by (cases s, cases s0) (simp add: table_step_def)
  moreover have "tab0 \<subseteq>\<^sub>m ?tab"
    using step tabs(2) unfolding table_step_def by (blast intro: map_le_trans)
  moreover have "used_pages_of ?s = used_pages_of s0 \<union> set (new @ [n])"
    using mark used by simp
  moreover have "ran ?tab = ran tab0 \<union> set (new @ [n])" "distinct (new @ [n])"
      "set (new @ [n]) \<inter> used_pages_of s0 = {}"
    using step n(2) used unfolding tabs(1) table_step_def by auto
  moreover have "recorded t ?old (mem ?s) (new @ [n])" using push(1) by simp
  moreover have "?tab [] = Some r" using step by (simp add: table_step_def)
  ultimately have "table_step t r s0 tab0 A ?s ?tab (new @ [n])"
    unfolding table_step_def by blast
  with run show ?thesis by (intro exI [of _ n] exI [of _ ?s] exI [of _ ?tab] exI [of _ "new @ [n]"]) simp
qed

text \<open>The address space of a task, and the first step of \<open>map_page\<close>: the top table.\<close>

definition addr_space :: "kernel \<Rightarrow> addr \<Rightarrow> tables \<Rightarrow> space \<Rightarrow> bool" where
  "addr_space s t tab A \<longleftrightarrow>
     (if mem s (t + off_pgd) = 0 then tab = Map.empty \<and> A = Map.empty
      else tab [] = Some (mem s (t + off_pgd)) \<and> page_tables (mem s) tab A)"

definition ensure_pgd :: "addr \<Rightarrow> kernel \<Rightarrow> kernel" where
  "ensure_pgd t s =
     (if mem s (t + off_pgd) = 0
      then (case get_free_page s of (p, s) \<Rightarrow>
          set_mem (\<lambda>m. push_kernel_page t (m (t + off_pgd)) m) (set_mem (\<lambda>m. m(t + off_pgd := p)) s))
      else s)"

lemma map_page_levels:
  "map_page t va page s =
    (case map_level t PGD_SHIFT va (mem (ensure_pgd t s) (t + off_pgd)) (ensure_pgd t s) of (pud, s) \<Rightarrow>
     case map_level t PUD_SHIFT va pud s of (pmd, s) \<Rightarrow>
     case map_level t PMD_SHIFT va pmd s of (pte, s) \<Rightarrow>
       set_mem (push_user_page t \<lparr>phys_addr = page, virt_addr = va\<rparr>)
         (set_mem (map_table_entry (pte + VA_START) va page) s))"
  by (simp only: map_page_def map_level_def ensure_pgd_def Let_def split_beta fst_conv snd_conv)

lemma table_step_refl:
  assumes "page_tables (mem s0) tab0 A" "tab0 [] = Some (mem s0 (t + off_pgd))"
  shows "table_step t (mem s0 (t + off_pgd)) s0 tab0 A s0 tab0 []"
  using assms by (simp add: table_step_def recorded_def)

lemma ensure_pgd_step:
  assumes tp: "task_page s0 tab0 q t" and space: "addr_space s0 t tab0 A"
    and pages: "used_pages_of s0 \<noteq> all_pages"
    and room: "unat (ld32 (mem s0) (t + off_kernel_pages_count)) < 31"
  shows "\<exists>tab new. table_step t (mem (ensure_pgd t s0) (t + off_pgd)) s0 tab0 A (ensure_pgd t s0) tab new \<and>
    length new \<le> 1"
proof (cases "mem s0 (t + off_pgd) = 0")
  case False
  then show ?thesis
    using table_step_refl [of s0 tab0 A t] space
    by (intro exI [of _ tab0] exI [of _ "[]"]) (simp add: ensure_pgd_def addr_space_def)
next
  case True
  note t = task_pageD(1) [OF tp] and q = task_pageD(2,3) [OF tp] and tables_used = task_pageD(4) [OF tp]
    and t_aligned = task_pageD(6) [OF tp]
  obtain n mp where n: "n \<in> all_pages" "n \<notin> used_pages_of s0"
    and get: "get_free_page s0 = (n, s0\<lparr>mem_map := mp, mem := memzero (n + VA_START) PAGE_SIZE (mem s0)\<rparr>)"
    and mark: "\<forall>m. used_pages_of (s0\<lparr>mem_map := mp, mem := m\<rparr>) = insert n (used_pages_of s0)"
    using pages by (rule fresh_page)
  let ?m1 = "(memzero (n + VA_START) PAGE_SIZE (mem s0))(t + off_pgd := n)"
  let ?old = "(mem s0)(t + off_pgd := n)"
  let ?m2 = "push_kernel_page t n ?m1"
  let ?s = "s0\<lparr>mem_map := mp, mem := ?m2\<rparr>"
  have al: "page_aligned (n + VA_START)"
    by (intro page_aligned_add all_pages_aligned VA_START_aligned n)
  have nq: "n \<noteq> q" using n q by auto
  have same: "memzero (n + VA_START) PAGE_SIZE (mem s0) (b + y) = mem s0 (b + y)"
    if "page_aligned b" "b \<noteq> n + VA_START" "y < 4096" for b y
    by (rule memzero_page_other [OF al that(1,2,3)])
  have run: "ensure_pgd t s0 = ?s"
    using True get by (simp add: ensure_pgd_def set_mem_def)
  have "recorded t ?old ?old []" by (simp add: recorded_def)
  then have "recorded t ?old ?m1 []"
  proof (rule recorded_cong)
    show "?m1 (t + y) = ?old (t + y)" if "y < 4096" for y
      using same [OF t_aligned _ that] nq by (simp add: t)
  qed (use room in simp)
  have room0: "unat (ld32 (mem s0) (t + off_kernel_pages_count)) + length ([] :: addr list) < 31"
    using room by simp
  note push = recorded_push [OF \<open>recorded t ?old ?m1 []\<close> count_of_pgd room0, where p = n, unfolded list.size]
  have slots: "off_pgd < 4096" "off_kernel_pages_count < 4096"
      "kernel_slot (ld32 (mem s0) (t + off_kernel_pages_count)) 0 < 4096"
      "kernel_slot (ld32 (mem s0) (t + off_kernel_pages_count)) 0 \<noteq> off_pgd"
    using kernel_slot_neq [of "ld32 (mem s0) (t + off_kernel_pages_count)" 0] room by (auto simp: layout_defs)
  have other: "?m2 (b + y) = memzero (n + VA_START) PAGE_SIZE (mem s0) (b + y)"
    if "page_aligned b" "b \<noteq> t" "y < 4096" for b y
    using page_offset_neq [OF that(1) t_aligned that(2,3)] slots by (subst push(2)) auto
  have pgd': "?m2 (t + off_pgd) = n"
    using slots by (subst push(2)) (auto simp: layout_defs)
  have "page_tables ?m2 [[] \<mapsto> n] Map.empty"
  proof (rule page_tables_empty [OF n(1)])
    fix j assume "j < (512 :: u64)"
    then show "?m2 (n + VA_START + 8 * j) = 0"
      using nq by (subst other) (auto simp: al t table_entry_offset memzero_clears)
  qed
  moreover have "?m2 (b + y) = mem s0 (b + y)"
    if "page_aligned b" "y < 4096" "b \<noteq> t" "b - VA_START \<noteq> n" for b y
    using other [OF that(1,3,2)] same [OF that(1) _ that(2)] that(4) by fastforce
  moreover have "tab0 = Map.empty" "A = Map.empty"
    using space True by (simp_all add: addr_space_def)
  ultimately have "table_step t n s0 tab0 A ?s [[] \<mapsto> n] [n]"
    using push(1) n mark by (simp add: table_step_def)
  then show ?thesis unfolding run using pgd'
    by (intro exI [of _ "[[] \<mapsto> n]"] exI [of _ "[n]"]) simp
qed

lemma map_page_reaches:
  assumes tp: "task_page s0 tab0 q t" and space: "addr_space s0 t tab0 A"
    and pages: "4 \<le> card (all_pages - used_pages_of s0)"
    and room: "unat (ld32 (mem s0) (t + off_kernel_pages_count)) < 28"
  obtains r pte s tab new where
    "map_page t va page s0 = set_mem (push_user_page t \<lparr>phys_addr = page, virt_addr = va\<rparr>)
       (set_mem (map_table_entry (pte + VA_START) va page) s)"
    "table_step t r s0 tab0 A s tab new" "length new \<le> 4"
    "tab [table_index PGD_SHIFT va, table_index PUD_SHIFT va, table_index PMD_SHIFT va] = Some pte"
proof -
  have free: "used_pages_of s0 \<noteq> all_pages" using pages by auto
  define r where "r = mem (ensure_pgd t s0) (t + off_pgd)"
  have "unat (ld32 (mem s0) (t + off_kernel_pages_count)) < 31" using room by simp
  from ensure_pgd_step [OF tp space free this] obtain tab1 new1
    where 1: "table_step t r s0 tab0 A (ensure_pgd t s0) tab1 new1" "length new1 \<le> 1"
    unfolding r_def by blast
  have "tab1 [] = Some r" using 1(1) by (simp add: table_step_def)
  with table_step_level [OF tp 1(1), of "[]" r PGD_SHIFT va] 1(2) pages room obtain pud s2 tab2 new2
    where 2: "map_level t PGD_SHIFT va r (ensure_pgd t s0) = (pud, s2)"
      "table_step t r s0 tab0 A s2 tab2 new2" "length new2 \<le> 2" "tab2 [table_index PGD_SHIFT va] = Some pud"
    by fastforce
  with table_step_level [OF tp 2(2,4), of PUD_SHIFT va] pages room obtain pmd s3 tab3 new3
    where 3: "map_level t PUD_SHIFT va pud s2 = (pmd, s3)" "table_step t r s0 tab0 A s3 tab3 new3"
      "length new3 \<le> 3" "tab3 [table_index PGD_SHIFT va, table_index PUD_SHIFT va] = Some pmd"
    by fastforce
  with table_step_level [OF tp 3(2,4), of PMD_SHIFT va] pages room obtain pte s4 tab4 new4
    where 4: "map_level t PMD_SHIFT va pmd s3 = (pte, s4)" "table_step t r s0 tab0 A s4 tab4 new4"
      "length new4 \<le> 4"
      "tab4 [table_index PGD_SHIFT va, table_index PUD_SHIFT va, table_index PMD_SHIFT va] = Some pte"
    by fastforce
  show thesis
    using 2(1) 3(1) 4(1) by (intro that [OF _ 4(2,3,4)]) (simp add: map_page_levels r_def [symmetric])
qed

text \<open>The last two stores: the entry of the page, and the record in \<open>user_pages\<close>.\<close>

lemma map_table_entry_store:
  "map_table_entry pte va pa m = m(pte + 8 * table_index PAGE_SHIFT va := pa OR MMU_PTE_FLAGS)"
  by (simp add: map_table_entry_def table_index_def Let_def)

definition user_slot :: "u32 \<Rightarrow> u64" where
  "user_slot c = off_user_pages + 16 * word_of_nat (unat c)"

lemma user_slot_unat: "unat c < 16 \<Longrightarrow> unat (user_slot c) = 160 + 16 * unat c"
  "unat c < 16 \<Longrightarrow> unat (user_slot c + 8) = 168 + 16 * unat c"
proof -
  have "unat (160 + 16 * word_of_nat n :: u64) = 160 + 16 * n"
    "unat (160 + 16 * word_of_nat n + 8 :: u64) = 168 + 16 * n" if "n < 16" for n
    using that by (simp_all add: unat_word_ariths unat_of_nat)
  then show "unat c < 16 \<Longrightarrow> unat (user_slot c) = 160 + 16 * unat c"
    "unat c < 16 \<Longrightarrow> unat (user_slot c + 8) = 168 + 16 * unat c"
    unfolding user_slot_def off_user_pages_def by blast+
qed

lemma push_user_page_store:
  assumes "unat (ld32 m (t + off_user_pages_count)) < 16"
  shows "push_user_page t \<lparr>phys_addr = page, virt_addr = va\<rparr> m =
    (let c = ld32 m (t + off_user_pages_count)
     in (st32 (t + off_user_pages_count) (c + 1) m)
          (t + user_slot c := page, t + (user_slot c + 8) := va))"
  using small_index [of "ld32 m (t + off_user_pages_count)"] assms
  by (simp add: push_user_page_def user_slot_def Let_def add.assoc)


section \<open>The record of the pages in the task\<close>

text \<open>The pages appended to \<open>kernel_pages\<close>, after the entry the count points at.\<close>

definition record_pages :: "u64 list \<Rightarrow> nat \<Rightarrow> u64 list \<Rightarrow> u64 list" where
  "record_pages ps c new = take (Suc c) ps @ new @ drop (Suc c + length new) ps"

lemma record_pages_nth:
  assumes "c + length new < length ps" "i < length ps"
  shows "record_pages ps c new ! i =
    (if c < i \<and> i \<le> c + length new then new ! (i - Suc c) else ps ! i)"
  using assms by (auto simp: record_pages_def nth_append min_def)

lemma load_task_eqI:
  assumes "\<And>y. y < 144 \<Longrightarrow> m' (p + y) = m (p + y)"
    and "m' (p + off_pgd) = pgd M"
    and "ld32 m' (p + off_user_pages_count) = user_pages_count M"
    and "length (user_pages M) = 16"
    and "\<And>i. i < 16 \<Longrightarrow> load_user_page m' p i = user_pages M ! i"
    and "ld32 m' (p + off_kernel_pages_count) = kernel_pages_count M"
    and "length (kernel_pages M) = 16"
    and "\<And>i. i < 16 \<Longrightarrow> m' (p + off_kernel_pages + 8 * word_of_nat i) = kernel_pages M ! i"
  shows "load_task m' p = (load_task m p)\<lparr>mm := M\<rparr>"
proof -
  have "map (load_user_page m' p) [0..<16] = user_pages M"
    by (rule nth_equalityI) (simp_all add: assms)
  moreover have "load_words m' (p + off_kernel_pages) 16 = kernel_pages M"
    by (rule nth_equalityI) (simp_all add: assms)
  moreover have "load_context m' p = load_context m p"
    using assms(1) [of 0] by (simp add: load_context_def assms(1))
  ultimately show ?thesis
    using assms(2,3,6) by (simp add: load_task_def MAX_PROCESS_PAGES_def assms(1)
        off_state_def off_counter_def off_priority_def off_preempt_count_def off_flags_def)
qed

lemma user_offset_unat:
  assumes "i < 16"
  shows "unat (off_user_pages + 16 * word_of_nat i) = 160 + 16 * i"
    "unat (off_user_pages + 16 * word_of_nat i + 8) = 168 + 16 * i"
  using assms by (simp_all add: layout_defs unat_word_ariths unat_of_nat)

lemma kernel_offset_unat:
  "i < 16 \<Longrightarrow> unat (off_kernel_pages + 8 * word_of_nat i) = 424 + 8 * i"
  by (simp add: layout_defs unat_word_ariths unat_of_nat)

lemma load_task_lengths [simp]:
  "length (user_pages (mm (load_task m p))) = 16" "length (kernel_pages (mm (load_task m p))) = 16"
  by (simp_all add: load_task_def MAX_PROCESS_PAGES_def)

lemma load_task_nth:
  "i < 16 \<Longrightarrow> user_pages (mm (load_task m p)) ! i = load_user_page m p i"
  "i < 16 \<Longrightarrow> kernel_pages (mm (load_task m p)) ! i = m (p + off_kernel_pages + 8 * word_of_nat i)"
  by (simp_all add: load_task_def MAX_PROCESS_PAGES_def)

lemma recorded_task:
  assumes rec: "recorded t (m0(t + off_pgd := r)) m new"
    and room: "unat (kernel_pages_count (mm (load_task m0 t))) + length new < 16"
  shows "load_task m t = (load_task m0 t)\<lparr>mm := (mm (load_task m0 t))\<lparr>pgd := r,
      kernel_pages_count := kernel_pages_count (mm (load_task m0 t)) + word_of_nat (length new),
      kernel_pages := record_pages (kernel_pages (mm (load_task m0 t)))
        (unat (kernel_pages_count (mm (load_task m0 t)))) new\<rparr>\<rparr>"
proof -
  let ?c = "ld32 m0 (t + off_kernel_pages_count)"
  have c: "kernel_pages_count (mm (load_task m0 t)) = ?c" by (simp add: load_task_def)
  have slots: "unat (kernel_slot ?c j) = 424 + 8 * (unat ?c + 1 + j)" if "j < length new" for j
    using room that c by (intro kernel_slot_unat) simp
  have same: "m (t + y) = m0 (t + y)"
    if y: "unat y < 4096" "unat y \<noteq> 144" "unat y \<noteq> 416"
      "\<And>j. j < length new \<Longrightarrow> unat y \<noteq> 424 + 8 * (unat ?c + 1 + j)" for y
  proof -
    have "y < 4096" "y \<noteq> off_pgd" "y \<noteq> off_kernel_pages_count"
      using y(1-3) by (auto simp: word_less_nat_alt layout_defs)
    then show ?thesis
      using rec y(4) slots unfolding recorded_def by (metis add_left_cancel count_of_pgd fun_upd_other)
  qed
  have at: "m (t + kernel_slot ?c j) = new ! j" if "j < length new" for j
    using rec that unfolding recorded_def by simp
  have off: "m (t + y) = m0 (t + y)" if "unat y < 424" "unat y \<noteq> 144" "unat y \<noteq> 416" for y
    using that by (intro same) simp_all
  have word: "ld32 m (t + y) = ld32 m0 (t + y)" if "unat y < 424" "unat y \<noteq> 144" "unat y \<noteq> 416" for y
    using off [OF that] by (simp add: ld32_def)
  show ?thesis
  proof (rule load_task_eqI)
    fix y :: u64 assume "y < 144"
    then show "m (t + y) = m0 (t + y)"
      by (intro off) (auto simp: layout_defs word_less_nat_alt)
  next
    fix i :: nat assume i: "i < 16"
    have "m (t + (off_user_pages + 16 * word_of_nat i)) = m0 (t + (off_user_pages + 16 * word_of_nat i))"
      using user_offset_unat [OF i] i by (intro off) presburger+
    moreover have "m (t + (off_user_pages + 16 * word_of_nat i + 8)) = m0 (t + (off_user_pages + 16 * word_of_nat i + 8))"
      using user_offset_unat [OF i] i by (intro off) presburger+
    ultimately show "load_user_page m t i = user_pages ((mm (load_task m0 t))\<lparr>pgd := r,
      kernel_pages_count := kernel_pages_count (mm (load_task m0 t)) + word_of_nat (length new),
      kernel_pages := record_pages (kernel_pages (mm (load_task m0 t)))
        (unat (kernel_pages_count (mm (load_task m0 t)))) new\<rparr>) ! i"
      using i by (simp add: load_task_nth load_user_page_def add.assoc)
  next
    fix i :: nat assume i: "i < 16"
    let ?y = "off_kernel_pages + 8 * word_of_nat i"
    have y: "unat ?y = 424 + 8 * i" by (rule kernel_offset_unat [OF i])
    have nth: "record_pages (kernel_pages (mm (load_task m0 t))) (unat ?c) new ! i =
        (if unat ?c < i \<and> i \<le> unat ?c + length new then new ! (i - Suc (unat ?c)) else m0 (t + ?y))"
      using i room c by (subst record_pages_nth) (simp_all add: load_task_nth add.assoc)
    have "m (t + ?y) = record_pages (kernel_pages (mm (load_task m0 t))) (unat ?c) new ! i"
    proof (cases "unat ?c < i \<and> i \<le> unat ?c + length new")
      case True
      then have "?y = kernel_slot ?c (i - Suc (unat ?c))" by (simp add: kernel_slot_def)
      then show ?thesis using True at [of "i - Suc (unat ?c)"] unfolding nth by auto
    next
      case False
      have "m (t + ?y) = m0 (t + ?y)"
        using y i False by (intro same) auto
      then show ?thesis using False unfolding nth by auto
    qed
    then show "m (t + off_kernel_pages + 8 * word_of_nat i) = kernel_pages ((mm (load_task m0 t))\<lparr>pgd := r,
      kernel_pages_count := kernel_pages_count (mm (load_task m0 t)) + word_of_nat (length new),
      kernel_pages := record_pages (kernel_pages (mm (load_task m0 t)))
        (unat (kernel_pages_count (mm (load_task m0 t)))) new\<rparr>) ! i"
      by (simp add: c add.assoc)
  qed (use rec c word [of off_user_pages_count] recorded_root [OF rec] room in
      \<open>auto simp: recorded_def load_task_def layout_defs record_pages_def\<close>)
qed

lemma push_user_task:
  assumes room: "unat (user_pages_count (mm (load_task m t))) < 16"
  shows "load_task (push_user_page t u m) t = (load_task m t)\<lparr>mm := (mm (load_task m t))\<lparr>
      user_pages_count := user_pages_count (mm (load_task m t)) + 1,
      user_pages := (user_pages (mm (load_task m t)))[unat (user_pages_count (mm (load_task m t))) := u]\<rparr>\<rparr>"
proof -
  let ?c = "ld32 m (t + off_user_pages_count)" and ?m = "push_user_page t u m"
  have c: "user_pages_count (mm (load_task m t)) = ?c" by (simp add: load_task_def)
  have c16: "unat ?c < 16" using room c by simp
  have m: "?m = (st32 (t + off_user_pages_count) (?c + 1) m)
      (t + user_slot ?c := phys_addr u, t + (user_slot ?c + 8) := virt_addr u)"
    using push_user_page_store [of m t "phys_addr u" "virt_addr u"] c16
    by (cases u) (simp add: Let_def)
  note slot = user_slot_unat [OF c16]
  have same: "?m (t + y) = m (t + y)"
    if "unat y \<noteq> 152" "unat y \<noteq> 160 + 16 * unat ?c" "unat y \<noteq> 168 + 16 * unat ?c" for y
  proof -
    have "y \<noteq> off_user_pages_count" "y \<noteq> user_slot ?c" "y \<noteq> user_slot ?c + 8"
      using that slot by (auto simp: layout_defs)
    then show ?thesis unfolding m by simp
  qed
  have slots: "user_slot ?c + 8 \<noteq> user_slot ?c" "off_user_pages_count \<noteq> user_slot ?c"
      "off_user_pages_count \<noteq> user_slot ?c + 8"
    using slot by (auto simp: layout_defs)
  have up: "?m (t + user_slot ?c) = phys_addr u" "?m (t + (user_slot ?c + 8)) = virt_addr u"
    "ld32 ?m (t + off_user_pages_count) = ?c + 1"
    unfolding m using slots by auto
  show ?thesis
  proof (rule load_task_eqI)
    fix y :: u64 assume "y < 144"
    then show "?m (t + y) = m (t + y)"
      by (intro same) (auto simp: word_less_nat_alt)
  next
    fix i :: nat assume i: "i < 16"
    show "load_user_page ?m t i = user_pages ((mm (load_task m t))\<lparr>
      user_pages_count := user_pages_count (mm (load_task m t)) + 1,
      user_pages := (user_pages (mm (load_task m t)))[unat (user_pages_count (mm (load_task m t))) := u]\<rparr>) ! i"
    proof (cases "i = unat ?c")
      case True
      then have "off_user_pages + 16 * word_of_nat i = user_slot ?c" by (simp add: user_slot_def)
      then show ?thesis
        using up True c16 c by (simp add: load_user_page_def add.assoc)
    next
      case False
      have "?m (t + (off_user_pages + 16 * word_of_nat i)) = m (t + (off_user_pages + 16 * word_of_nat i))"
        using user_offset_unat [OF i] False by (intro same) presburger+
      moreover have "?m (t + (off_user_pages + 16 * word_of_nat i + 8)) = m (t + (off_user_pages + 16 * word_of_nat i + 8))"
        using user_offset_unat [OF i] False by (intro same) presburger+
      ultimately show ?thesis
        using i False c by (simp add: load_user_page_def load_task_nth add.assoc)
    qed
  next
    fix i :: nat assume i: "i < 16"
    have "?m (t + (off_kernel_pages + 8 * word_of_nat i)) = m (t + (off_kernel_pages + 8 * word_of_nat i))"
      using kernel_offset_unat [OF i] c16 i by (intro same) presburger+
    then show "?m (t + off_kernel_pages + 8 * word_of_nat i) = kernel_pages ((mm (load_task m t))\<lparr>
      user_pages_count := user_pages_count (mm (load_task m t)) + 1,
      user_pages := (user_pages (mm (load_task m t)))[unat (user_pages_count (mm (load_task m t))) := u]\<rparr>) ! i"
      using i by (simp add: load_task_nth add.assoc)
  qed (use same [of off_pgd] same [of off_kernel_pages_count] c16 up(3) c in
      \<open>auto simp: layout_defs load_task_def ld32_def\<close>)
qed


lemma push_user_other:
  assumes room: "unat (user_pages_count (mm (load_task m t))) < 16"
    and y: "unat y \<noteq> 152" "unat y < 160 \<or> 416 \<le> unat y"
  shows "push_user_page t u m (t + y) = m (t + y)"
proof -
  let ?c = "ld32 m (t + off_user_pages_count)"
  have c16: "unat ?c < 16" using room by (simp add: load_task_def)
  have "y \<noteq> off_user_pages_count" "y \<noteq> user_slot ?c" "y \<noteq> user_slot ?c + 8"
    using y user_slot_unat [OF c16] c16 by (auto simp: layout_defs)
  then show ?thesis
    using push_user_page_store [of m t "phys_addr u" "virt_addr u"] c16
    by (cases u) (simp add: Let_def)
qed

lemma push_user_outside:
  assumes room: "unat (user_pages_count (mm (load_task m t))) < 16"
    and b: "page_aligned t" "page_aligned b" "b \<noteq> t" "y < 4096"
  shows "push_user_page t u m (b + y) = m (b + y)"
proof -
  let ?c = "ld32 m (t + off_user_pages_count)"
  have c16: "unat ?c < 16" using room by (simp add: load_task_def)
  have "user_slot ?c < 4096" "user_slot ?c + 8 < 4096" "off_user_pages_count < 4096"
    using user_slot_unat [OF c16] c16 by (auto simp: layout_defs word_less_nat_alt)
  then have "b + y \<noteq> t + user_slot ?c" "b + y \<noteq> t + (user_slot ?c + 8)"
      "b + y \<noteq> t + off_user_pages_count"
    using page_offset_neq [OF b(2,1,3,4)] by blast+
  then show ?thesis
    using push_user_page_store [of m t "phys_addr u" "virt_addr u"] c16
    by (cases u) (simp add: Let_def)
qed

lemma load_task_small_cong:
  assumes u: "\<And>y. unat y < 552 \<Longrightarrow> m' (t + y) = m (t + y)"
  shows "load_task m' t = load_task m t"
proof -
  have "load_task m' t = (load_task m t)\<lparr>mm := mm (load_task m t)\<rparr>"
  proof (rule load_task_eqI)
    fix i :: nat assume i: "i < 16"
    have "m' (t + (off_user_pages + 16 * word_of_nat i)) = m (t + (off_user_pages + 16 * word_of_nat i))"
      "m' (t + (off_user_pages + 16 * word_of_nat i + 8)) = m (t + (off_user_pages + 16 * word_of_nat i + 8))"
      "m' (t + (off_kernel_pages + 8 * word_of_nat i)) = m (t + (off_kernel_pages + 8 * word_of_nat i))"
      using i user_offset_unat [OF i] kernel_offset_unat [OF i] by (intro u; linarith)+
    then show "load_user_page m' t i = user_pages (mm (load_task m t)) ! i"
        "m' (t + off_kernel_pages + 8 * word_of_nat i) = kernel_pages (mm (load_task m t)) ! i"
      using i by (simp_all add: load_task_nth load_user_page_def add.assoc)
  next
    fix y :: u64 assume "y < 144"
    then show "m' (t + y) = m (t + y)" by (intro u) (simp add: word_less_nat_alt)
  qed (use u [of off_pgd] u [of off_user_pages_count] u [of off_kernel_pages_count] in
      \<open>simp_all add: layout_defs load_task_def ld32_def\<close>)
  then show ?thesis by simp
qed

lemma load_task_cong: "(\<And>y. y < 4096 \<Longrightarrow> m' (t + y) = m (t + y)) \<Longrightarrow> load_task m' t = load_task m t"
  by (rule load_task_small_cong) (simp add: word_less_nat_alt)

section \<open>map_page\<close>

text \<open>The part of a task's page that is not its \<open>mm_struct\<close>.\<close>

definition outside_mm :: "u64 \<Rightarrow> bool" where
  "outside_mm y \<longleftrightarrow> y < 144 \<or> 552 \<le> y \<and> y < 4096"

lemma outside_mmD:
  assumes "outside_mm y"
  shows "y < 4096" "y \<noteq> off_pgd" "y \<noteq> off_kernel_pages_count" "unat y \<noteq> 152"
    "unat y < 160 \<or> 416 \<le> unat y" "unat c + 1 + j < 16 \<Longrightarrow> y \<noteq> kernel_slot c j"
  using assms kernel_slot_unat [of c j]
  by (auto simp: outside_mm_def layout_defs word_less_nat_alt word_le_nat_alt)

lemma map_page_spec:
  assumes tp: "task_page s tab q t" and space: "addr_space s t tab A"
    and page: "page \<in> all_pages"
    and pages: "4 \<le> card (all_pages - used_pages_of s)"
    and room: "unat (kernel_pages_count (mm (load_task (mem s) t))) < 12"
      "unat (user_pages_count (mm (load_task (mem s) t))) < 16"
  obtains r tab' new where
    "addr_space (map_page t va page s) t tab' (A(vpn va \<mapsto> page))"
    "mem (map_page t va page s) (t + off_pgd) = r" "r \<noteq> 0"
    "tab \<subseteq>\<^sub>m tab'" "ran tab' = ran tab \<union> set new" "length new \<le> 4" "distinct new"
    "set new \<inter> used_pages_of s = {}"
    "used_pages_of (map_page t va page s) = used_pages_of s \<union> set new"
    "map_page t va page s = s\<lparr>mem := mem (map_page t va page s), mem_map := mem_map (map_page t va page s)\<rparr>"
    "\<forall>b y. page_aligned b \<and> y < 4096 \<and> b \<noteq> t \<and> b - VA_START \<notin> ran tab' \<longrightarrow>
       mem (map_page t va page s) (b + y) = mem s (b + y)"
    "load_task (mem (map_page t va page s)) t = (load_task (mem s) t)\<lparr>mm := \<lparr>pgd = r,
       user_pages_count = user_pages_count (mm (load_task (mem s) t)) + 1,
       user_pages = (user_pages (mm (load_task (mem s) t)))[unat (user_pages_count (mm (load_task (mem s) t))) :=
         \<lparr>phys_addr = page, virt_addr = va\<rparr>],
       kernel_pages_count = kernel_pages_count (mm (load_task (mem s) t)) + word_of_nat (length new),
       kernel_pages = record_pages (kernel_pages (mm (load_task (mem s) t)))
         (unat (kernel_pages_count (mm (load_task (mem s) t)))) new\<rparr>\<rparr>"
    "\<forall>y. outside_mm y \<longrightarrow> mem (map_page t va page s) (t + y) = mem s (t + y)"
proof -
  note t = task_pageD [OF tp]
  have kc: "ld32 (mem s) (t + off_kernel_pages_count) = kernel_pages_count (mm (load_task (mem s) t))"
    by (simp add: load_task_def)
  obtain r pte s1 tab' new where run: "map_page t va page s =
      set_mem (push_user_page t \<lparr>phys_addr = page, virt_addr = va\<rparr>)
       (set_mem (map_table_entry (pte + VA_START) va page) s1)"
    and step: "table_step t r s tab A s1 tab' new" and len: "length new \<le> 4"
    and pte: "tab' [table_index PGD_SHIFT va, table_index PUD_SHIFT va, table_index PMD_SHIFT va] = Some pte"
  proof (rule map_page_reaches [OF tp space pages])
    show "unat (ld32 (mem s) (t + off_kernel_pages_count)) < 28" using room(1) kc by simp
  qed (rule that)
  have inv: "page_tables (mem s1) tab' A" and root: "tab' [] = Some r"
    and ran: "ran tab' = ran tab \<union> set new" and used: "used_pages_of s1 = used_pages_of s \<union> set new"
    and fresh: "distinct new" "set new \<inter> used_pages_of s = {}" "tab \<subseteq>\<^sub>m tab'"
    and other: "s1 = s\<lparr>mem := mem s1, mem_map := mem_map s1\<rparr>"
    and frame: "\<And>b y. page_aligned b \<Longrightarrow> y < 4096 \<Longrightarrow> b \<noteq> t \<Longrightarrow> b - VA_START \<notin> ran tab' \<Longrightarrow>
        mem s1 (b + y) = mem s (b + y)"
    and rec: "recorded t ((mem s)(t + off_pgd := r)) (mem s1) new"
    using step unfolding table_step_def by blast+
  have pte_page: "pte \<in> all_pages" and pte_q: "pte \<noteq> q"
    using page_tablesD(2) [OF inv pte] t(2,3) pte ran fresh(2) by (auto intro: ranI)
  let ?m2 = "map_table_entry (pte + VA_START) va page (mem s1)"
  let ?m3 = "push_user_page t \<lparr>phys_addr = page, virt_addr = va\<rparr> ?m2"
  have run': "map_page t va page s = s1\<lparr>mem := ?m3\<rparr>" by (simp add: run set_mem_def)
  have "page_tables ?m2 tab' (A(vpn va \<mapsto> page))"
    using page_tables_map [OF inv pte _ table_index_less page]
    by (simp add: map_table_entry_store vpn_def table_shifts_def)
  have entry: "?m2 (b + y) = mem s1 (b + y)" if "page_aligned b" "b \<noteq> pte + VA_START" "y < 4096" for b y
  proof -
    have "b + y \<noteq> pte + VA_START + 8 * table_index PAGE_SHIFT va"
      by (rule page_offset_neq [OF that(1) page_aligned_add [OF all_pages_aligned [OF pte_page]
            VA_START_aligned] that(2,3) table_entry_offset [OF table_index_less]])
    then show ?thesis by (simp add: map_table_entry_store)
  qed
  have task1: "load_task (mem s1) t = (load_task (mem s) t)\<lparr>mm := (mm (load_task (mem s) t))\<lparr>pgd := r,
      kernel_pages_count := kernel_pages_count (mm (load_task (mem s) t)) + word_of_nat (length new),
      kernel_pages := record_pages (kernel_pages (mm (load_task (mem s) t)))
        (unat (kernel_pages_count (mm (load_task (mem s) t)))) new\<rparr>\<rparr>"
    using room(1) len by (intro recorded_task [OF rec]) simp
  have "pte + VA_START \<noteq> t" using pte_q t(1) by simp
  then have task2: "load_task ?m2 t = load_task (mem s1) t"
    by (intro load_task_cong entry t(6)) auto
  have room2: "unat (user_pages_count (mm (load_task ?m2 t))) < 16"
    using room(2) by (simp add: task2 task1)
  have task3: "load_task ?m3 t = (load_task (mem s) t)\<lparr>mm := \<lparr>pgd = r,
       user_pages_count = user_pages_count (mm (load_task (mem s) t)) + 1,
       user_pages = (user_pages (mm (load_task (mem s) t)))[unat (user_pages_count (mm (load_task (mem s) t))) :=
         \<lparr>phys_addr = page, virt_addr = va\<rparr>],
       kernel_pages_count = kernel_pages_count (mm (load_task (mem s) t)) + word_of_nat (length new),
       kernel_pages = record_pages (kernel_pages (mm (load_task (mem s) t)))
         (unat (kernel_pages_count (mm (load_task (mem s) t)))) new\<rparr>\<rparr>"
    unfolding push_user_task [OF room2] task2 task1 by simp
  have out: "?m3 (b + y) = ?m2 (b + y)" if "page_aligned b" "b \<noteq> t" "y < 4096" for b y
    by (rule push_user_outside [OF room2 t(6) that])
  have r_page: "r \<in> all_pages" by (rule page_tablesD(2) [OF inv root])
  have pgd: "?m3 (t + off_pgd) = r"
    using arg_cong [OF task3, of "\<lambda>t. pgd (mm t)"] by (simp add: load_task_def)
  have "page_tables ?m3 tab' (A(vpn va \<mapsto> page))"
  proof (rule page_tables_frame [OF \<open>page_tables ?m2 tab' (A(vpn va \<mapsto> page))\<close>])
    fix p y assume p: "p \<in> ran tab'" and y: "y < (4096 :: u64)"
    have "p \<in> all_pages" "p \<noteq> q"
      using p page_tablesD(2) [OF inv] t(2,3) fresh(2) ran by (auto simp: ran_def)
    with y show "?m3 (p + VA_START + y) = ?m2 (p + VA_START + y)"
      by (intro out page_aligned_add all_pages_aligned VA_START_aligned) (auto simp: t(1))
  qed
  moreover have "r \<noteq> 0" using r_page page_at_nonzero by (auto simp: all_pages_def)
  ultimately have "addr_space (map_page t va page s) t tab' (A(vpn va \<mapsto> page))"
    using root pgd by (simp add: addr_space_def run')
  moreover have "\<forall>b y. page_aligned b \<and> y < 4096 \<and> b \<noteq> t \<and> b - VA_START \<notin> ran tab' \<longrightarrow>
       mem (map_page t va page s) (b + y) = mem s (b + y)"
  proof (intro allI impI; elim conjE)
    fix b y :: addr assume b: "page_aligned b" "y < 4096" "b \<noteq> t" "b - VA_START \<notin> ran tab'"
    have "b \<noteq> pte + VA_START" using b(4) pte by (auto intro: ranI)
    then show "mem (map_page t va page s) (b + y) = mem s (b + y)"
      using out [OF b(1,3,2)] entry [OF b(1) _ b(2)] frame [OF b] by (simp add: run')
  qed
  moreover have "map_page t va page s =
      s\<lparr>mem := mem (map_page t va page s), mem_map := mem_map (map_page t va page s)\<rparr>"
    unfolding run' using other by (cases s1, cases s) simp
  moreover have "used_pages_of (map_page t va page s) = used_pages_of s \<union> set new"
    unfolding run' used [symmetric] by (rule used_pages_of_cong) simp
  moreover have "mem (map_page t va page s) (t + y) = mem s (t + y)" if "outside_mm y" for y
  proof -
    note y = outside_mmD [OF that]
    have "?m3 (t + y) = ?m2 (t + y)" by (rule push_user_other [OF room2 y(4,5)])
    also have "\<dots> = mem s1 (t + y)"
      using \<open>pte + VA_START \<noteq> t\<close> by (intro entry t(6) y(1)) simp
    also have "\<dots> = mem s (t + y)"
      using rec y room(1) kc len unfolding recorded_def by (simp add: layout_defs)
    finally show ?thesis by (simp add: run')
  qed
  ultimately show thesis
    using that [of tab' r new] \<open>r \<noteq> 0\<close> pgd fresh ran len task3 by (simp add: run')
qed


text \<open>Another task, whose tables are others, keeps its address space and its pages.\<close>

lemma task_page_mono:
  "task_page s tab q t \<Longrightarrow> used_pages_of s \<subseteq> used_pages_of s' \<Longrightarrow> task_page s' tab q t"
  by (auto simp: task_page_def)

lemma addr_space_frame:
  assumes space: "addr_space s t tab A" and t: "page_aligned t"
    and same_t: "\<And>y. y < 4096 \<Longrightarrow> mem s' (t + y) = mem s (t + y)"
    and same: "\<And>p y. p \<in> ran tab \<Longrightarrow> y < 4096 \<Longrightarrow> mem s' (p + VA_START + y) = mem s (p + VA_START + y)"
  shows "addr_space s' t tab A"
proof -
  have "mem s' (t + off_pgd) = mem s (t + off_pgd)"
    by (intro same_t) (simp add: layout_defs)
  then show ?thesis
    using space page_tables_frame [of "mem s" tab A "mem s'"] same by (simp add: addr_space_def split: if_splits)
qed

definition apart :: "addr \<Rightarrow> tables \<Rightarrow> addr \<Rightarrow> tables \<Rightarrow> bool" where
  "apart q tab q2 tab2 \<longleftrightarrow> q \<noteq> q2 \<and> q2 \<notin> ran tab \<and> q \<notin> ran tab2 \<and> ran tab \<inter> ran tab2 = {}"

lemma map_page_other_task:
  assumes frame: "\<forall>b y. page_aligned b \<and> y < 4096 \<and> b \<noteq> t \<and> b - VA_START \<notin> ran tab' \<longrightarrow>
       mem s' (b + y) = mem s (b + y)"
    and ran: "ran tab' = ran tab \<union> set new" "set new \<inter> used_pages_of s = {}"
    and tp: "task_page s tab q t" and tp2: "task_page s tab2 q2 t2" and ap: "apart q tab q2 tab2"
    and space: "addr_space s t2 tab2 A2"
  shows "addr_space s' t2 tab2 A2" and "load_task (mem s') t2 = load_task (mem s) t2"
    and "apart q tab' q2 tab2"
    and "p \<in> used_pages_of s \<Longrightarrow> p \<noteq> q \<Longrightarrow> p \<notin> ran tab \<Longrightarrow> y < 4096 \<Longrightarrow>
      mem s' (p + VA_START + y) = mem s (p + VA_START + y)"
proof -
  note t = task_pageD [OF tp] and t2 = task_pageD [OF tp2]
  have page: "mem s' (p + VA_START + y) = mem s (p + VA_START + y)"
    if "p \<in> used_pages_of s" "p \<noteq> q" "p \<notin> ran tab" "y < 4096" for p y
    using that ran used_pages_subset [of s] t(1)
    by (intro frame [rule_format] conjI page_aligned_add all_pages_aligned VA_START_aligned) auto
  then show "p \<in> used_pages_of s \<Longrightarrow> p \<noteq> q \<Longrightarrow> p \<notin> ran tab \<Longrightarrow> y < 4096 \<Longrightarrow>
      mem s' (p + VA_START + y) = mem s (p + VA_START + y)" by blast
  have t2_same: "mem s' (t2 + y) = mem s (t2 + y)" if "y < 4096" for y
    using page [OF t2(2) _ _ that] ap t2(1) by (auto simp: apart_def)
  then show "load_task (mem s') t2 = load_task (mem s) t2" by (rule load_task_cong)
  show "addr_space s' t2 tab2 A2"
  proof (rule addr_space_frame [OF space t2(6) t2_same])
    fix p y assume "p \<in> ran tab2" "y < (4096 :: u64)"
    then show "mem s' (p + VA_START + y) = mem s (p + VA_START + y)"
      using ap t2(4) by (intro page) (auto simp: apart_def)
  qed
  show "apart q tab' q2 tab2" using ap ran t2 by (auto simp: apart_def)
qed

text \<open>What a walk finds in an address space.\<close>

lemma addr_space_walk:
  assumes "addr_space s t tab A" "mem s (t + off_pgd) \<noteq> 0"
  shows "user_walk (mem s) (mem s (t + off_pgd)) va = map_option (\<lambda>p. p OR (va AND mask PAGE_SHIFT)) (A (vpn va))"
  using assms by (intro walk_lookup [where tab = tab]) (auto simp: addr_space_def)

lemma page_or_offset:
  assumes "p \<in> all_pages"
  shows "p OR (va AND mask PAGE_SHIFT) = p + (va AND mask PAGE_SHIFT)"
proof -
  have "p AND (va AND mask PAGE_SHIFT) = 0"
  proof (rule page_and_small [OF assms])
    show "va AND mask PAGE_SHIFT < 4096"
      using and_mask_less_size [of 12 va] by (simp add: map_values word_size)
  qed
  then show ?thesis using word_plus_and_or [of p "va AND mask PAGE_SHIFT"] by simp
qed


text \<open>Taking a page for oneself does not disturb a task either.\<close>

lemma memzero_keeps:
  assumes n: "n \<in> all_pages" "n \<notin> used_pages_of s" and p: "p \<in> used_pages_of s" and y: "y < 4096"
  shows "memzero (n + VA_START) PAGE_SIZE m (p + VA_START + y) = m (p + VA_START + y)"
  using n p used_pages_subset [of s]
  by (intro memzero_page_other page_aligned_add all_pages_aligned VA_START_aligned y) auto

lemma fresh_page_keeps:
  assumes n: "n \<in> all_pages" "n \<notin> used_pages_of s"
    and tp: "task_page s tab q t" and space: "addr_space s t tab A"
    and s1: "s1 = s\<lparr>mem_map := mp, mem := memzero (n + VA_START) PAGE_SIZE (mem s)\<rparr>"
  shows "addr_space s1 t tab A" "load_task (mem s1) t = load_task (mem s) t"
    "y < 4096 \<Longrightarrow> mem s1 (t + y) = mem s (t + y)"
proof -
  note t = task_pageD [OF tp]
  show *: "mem s1 (t + y) = mem s (t + y)" if "y < 4096" for y
    using memzero_keeps [OF n t(2) that] by (simp add: t(1) s1)
  then show "load_task (mem s1) t = load_task (mem s) t" by (intro load_task_cong)
  show "addr_space s1 t tab A"
  proof (rule addr_space_frame [OF space t(6) *])
    fix p y assume "p \<in> ran tab" "y < (4096 :: u64)"
    then show "mem s1 (p + VA_START + y) = mem s (p + VA_START + y)"
      using memzero_keeps [OF n] t(4) by (auto simp: s1)
  qed
qed

lemma vpn_page_mask: "vpn (va AND PAGE_MASK) = vpn va"
proof -
  have "table_index k (va AND PAGE_MASK) = table_index k va" if "12 \<le> k" for k
  proof -
    have "drop_bit k (va AND PAGE_MASK) = drop_bit k va"
      unfolding PAGE_MASK_mask using that
      by (intro bit_word_eqI) (auto simp: bit_simps dest: bit_imp_le_length)
    then show ?thesis by (simp only: table_index_def)
  qed
  moreover have "12 \<le> PGD_SHIFT" "12 \<le> PUD_SHIFT" "12 \<le> PMD_SHIFT" "12 \<le> PAGE_SHIFT"
    by (simp_all add: map_values)
  ultimately show ?thesis by (simp only: vpn_def table_shifts_def list.map)
qed

lemma card_free_insert:
  "n \<in> all_pages \<Longrightarrow> n \<notin> used \<Longrightarrow> card (all_pages - insert n used) = card (all_pages - used) - 1"
  by (metis Diff_insert card_Diff_singleton Diff_iff)

end
