(* ===== verification/Virtual_Memory.thy ===== *)
theory Virtual_Memory
  imports Address_Space
begin

text \<open>
  The properties of virtual memory: what \<open>map_page\<close> makes of an address space and of the
  other tasks, what \<open>copy_virt_memory\<close> gives a child, and what \<open>do_mem_abort\<close> does with a
  fault.
\<close>

unbundle bit_operations_syntax

section \<open>A concrete state\<close>

text \<open>Lesson 6 with two tasks that have no page tables yet, in the first two pages.\<close>

definition two_tasks :: kernel where
  "two_tasks = boot_kernel\<lparr>mem := (\<lambda>_. 0), mem_map := (\<lambda>i. if i < 3 then 1 else 0),
     current := page_at 0 + VA_START\<rparr>"

lemma two_tasks_current: "current two_tasks = page_at 0 + VA_START" "ind two_tasks = 1"
  by (simp_all add: two_tasks_def boot_kernel_def initial_kernel_def)

lemma two_tasks_used: "used_pages_of two_tasks = {page_at 0, page_at 1, page_at 2}"
proof -
  have "{i. i < PAGING_PAGES \<and> i < 3} = {0, 1, 2}"
    by (auto simp: map_values)
  then have "page_at ` {i. i < PAGING_PAGES \<and> i < 3} = {page_at 0, page_at 1, page_at 2}" by simp
  moreover have "used_pages_of two_tasks = page_at ` {i. i < PAGING_PAGES \<and> i < 3}"
    by (auto simp: used_pages_of_def two_tasks_def)
  ultimately show ?thesis by simp
qed

lemma two_tasks_free: "257021 \<le> card (all_pages - used_pages_of two_tasks)"
proof -
  have "card all_pages - card (used_pages_of two_tasks) \<le> card (all_pages - used_pages_of two_tasks)"
    by (rule diff_card_le_card_Diff) (simp add: two_tasks_used)
  moreover have "card (used_pages_of two_tasks) \<le> 3"
    by (simp add: two_tasks_used card_insert_if)
  ultimately show ?thesis by (simp add: card_all_pages map_values)
qed

lemma two_tasks_room: "4 \<le> card (all_pages - used_pages_of two_tasks)"
  using two_tasks_free by simp

lemma two_tasks_tasks:
  "task_page two_tasks Map.empty (page_at 0) (page_at 0 + VA_START)"
  "task_page two_tasks Map.empty (page_at 1) (page_at 1 + VA_START)"
  by (simp_all add: task_page_def two_tasks_used)

lemma two_tasks_apart: "apart (page_at 0) Map.empty (page_at 1) Map.empty"
  by (simp add: apart_def page_at_inj map_values)

lemma two_tasks_space: "addr_space two_tasks t Map.empty Map.empty"
  by (simp add: addr_space_def two_tasks_def)

lemma two_tasks_counts:
  "unat (kernel_pages_count (mm (load_task (mem two_tasks) t))) < 12"
  "unat (user_pages_count (mm (load_task (mem two_tasks) t))) < 16"
  by (simp_all add: load_task_def two_tasks_def ld32_def)

lemma page_2: "page_at 2 \<in> all_pages"
  by (simp add: all_pages_def map_values)

section \<open>map_page\<close>

text \<open>
  C1. \<open>map_page(task, va, page)\<close> refines the update of a map. If the task's tables stand for
  the address space \<open>A\<close> (a task without a top table for the empty one), there are 4 free
  pages and the two arrays of \<open>mm_struct\<close> have room, then afterwards they stand for \<open>A\<close>
  with \<open>va\<close>'s page mapped to \<open>page\<close>: the MMU's walk from the task's \<open>pgd\<close> finds \<open>page\<close>
  (with the offset of the address) for each address in \<open>va\<close>'s page and what it found before
  for all the others. At most 4 pages that were free become tables; all other tables stay.
\<close>

theorem map_page_refines:
  assumes "task_page s tab q t" and "addr_space s t tab A" and "page \<in> all_pages"
    and "4 \<le> card (all_pages - used_pages_of s)"
    and "unat (kernel_pages_count (mm (load_task (mem s) t))) < 12"
    and "unat (user_pages_count (mm (load_task (mem s) t))) < 16"
  shows "\<exists>tab' new. addr_space (map_page t va page s) t tab' (A(vpn va \<mapsto> page)) \<and>
      tab \<subseteq>\<^sub>m tab' \<and> ran tab' = ran tab \<union> set new \<and> length new \<le> 4 \<and> distinct new \<and>
      set new \<inter> used_pages_of s = {} \<and>
      used_pages_of (map_page t va page s) = used_pages_of s \<union> set new \<and>
      (\<forall>va'. user_walk (mem (map_page t va page s)) (mem (map_page t va page s) (t + off_pgd)) va' =
         (if vpn va' = vpn va then Some (page + (va' AND mask PAGE_SHIFT))
          else if mem s (t + off_pgd) = 0 then None
          else user_walk (mem s) (mem s (t + off_pgd)) va'))"
proof -
  obtain r tab' new where spec:
    "addr_space (map_page t va page s) t tab' (A(vpn va \<mapsto> page))"
    "mem (map_page t va page s) (t + off_pgd) = r" "r \<noteq> 0"
    "tab \<subseteq>\<^sub>m tab'" "ran tab' = ran tab \<union> set new" "length new \<le> 4" "distinct new"
    "set new \<inter> used_pages_of s = {}"
    "used_pages_of (map_page t va page s) = used_pages_of s \<union> set new"
    using map_page_spec [OF assms] by metis
  have walk: "user_walk (mem (map_page t va page s)) r va' =
      map_option (\<lambda>p. p OR (va' AND mask PAGE_SHIFT)) ((A(vpn va \<mapsto> page)) (vpn va'))" for va'
    using addr_space_walk [OF spec(1)] spec(2,3) by simp
  have "user_walk (mem (map_page t va page s)) r va' =
      (if vpn va' = vpn va then Some (page + (va' AND mask PAGE_SHIFT))
       else if mem s (t + off_pgd) = 0 then None
       else user_walk (mem s) (mem s (t + off_pgd)) va')" for va'
    using addr_space_walk [OF assms(2), of va'] assms(2) page_or_offset [OF assms(3)]
    unfolding walk by (auto simp: addr_space_def)
  with spec show ?thesis by blast
qed

theorem map_page_refines_witness:
  "\<exists>s'. s' = map_page (page_at 0 + VA_START) 0x1000 (page_at 2) two_tasks \<and>
     user_walk (mem s') (mem s' (page_at 0 + VA_START + off_pgd)) 0x1008 = Some (page_at 2 + 8)"
proof -
  have "vpn 0x1008 = vpn 0x1000"
    by (simp add: vpn_def table_shifts_def table_index_def map_values drop_bit_eq_div)
  moreover have "(0x1008 :: u64) AND mask PAGE_SHIFT = 8"
    by (simp add: map_values mask_eq_exp_minus_1)
  ultimately show ?thesis
    using map_page_refines [OF two_tasks_tasks(1) two_tasks_space page_2 two_tasks_room two_tasks_counts,
        of "0x1000"] by auto
qed

text \<open>
  C2. Isolation: mapping a page for one task leaves every other task alone. Its struct, its
  tables, the translation of each of its addresses and the contents of every page in use
  that is neither the mapping task's own page nor one of its tables are what they were, and
  the two tasks' tables stay apart. As in the refinement, there are four free pages for the tables, and
  fewer than 12 tables and 16 pages are recorded.
\<close>

theorem map_page_isolates:
  assumes "task_page s tab q t" and "addr_space s t tab A" and "page \<in> all_pages"
    and "4 \<le> card (all_pages - used_pages_of s)"
    and "unat (kernel_pages_count (mm (load_task (mem s) t))) < 12"
    and "unat (user_pages_count (mm (load_task (mem s) t))) < 16"
    and "task_page s tab2 q2 t2" and "addr_space s t2 tab2 A2" and "apart q tab q2 tab2"
  shows "addr_space (map_page t va page s) t2 tab2 A2 \<and>
    load_task (mem (map_page t va page s)) t2 = load_task (mem s) t2 \<and>
    (mem s (t2 + off_pgd) \<noteq> 0 \<longrightarrow>
      (\<forall>va'. user_walk (mem (map_page t va page s)) (mem (map_page t va page s) (t2 + off_pgd)) va' =
         user_walk (mem s) (mem s (t2 + off_pgd)) va')) \<and>
    (\<forall>p \<in> used_pages_of s. p \<noteq> q \<and> p \<notin> ran tab \<longrightarrow>
      (\<forall>y < 4096. mem (map_page t va page s) (p + VA_START + y) = mem s (p + VA_START + y)))"
proof -
  obtain tab' :: tables and new where spec: "ran tab' = ran tab \<union> set new" "set new \<inter> used_pages_of s = {}"
    and frame: "\<forall>b y. page_aligned b \<and> y < 4096 \<and> b \<noteq> t \<and> b - VA_START \<notin> ran tab' \<longrightarrow>
       mem (map_page t va page s) (b + y) = mem s (b + y)"
    by (rule map_page_spec [OF assms(1-6), of va]) (rule that)
  note other = map_page_other_task [OF frame spec assms(1,7,9,8)]
  have task: "load_task (mem (map_page t va page s)) t2 = load_task (mem s) t2"
    by (rule other(2))
  then have "mem (map_page t va page s) (t2 + off_pgd) = mem s (t2 + off_pgd)"
    using arg_cong [OF task, of "\<lambda>t. pgd (mm t)"] by (simp add: load_task_def)
  then have "user_walk (mem (map_page t va page s)) (mem (map_page t va page s) (t2 + off_pgd)) va' =
      user_walk (mem s) (mem s (t2 + off_pgd)) va'" if "mem s (t2 + off_pgd) \<noteq> 0" for va'
    using addr_space_walk [OF other(1), of va'] addr_space_walk [OF assms(8), of va'] that by simp
  with other(1,4) task show ?thesis by auto
qed

theorem map_page_isolates_witness:
  "load_task (mem (map_page (page_at 0 + VA_START) 0x1000 (page_at 2) two_tasks)) (page_at 1 + VA_START) =
    load_task (mem two_tasks) (page_at 1 + VA_START)"
  using map_page_isolates [OF two_tasks_tasks(1) two_tasks_space page_2 two_tasks_room two_tasks_counts
      two_tasks_tasks(2) two_tasks_space two_tasks_apart, of "0x1000"]
  by blast

text \<open>
  The record in the task: \<open>map_page\<close> appends the page to \<open>user_pages\<close> and the tables it
  made to \<open>kernel_pages\<close>, counts them, sets \<open>pgd\<close> to the top table, and leaves the rest of
  the struct alone. As the count is incremented before it is used as index, entry 0 of
  \<open>kernel_pages\<close> is never written.
\<close>

theorem map_page_records:
  assumes "task_page s tab q t" and "addr_space s t tab A" and "page \<in> all_pages"
    and "4 \<le> card (all_pages - used_pages_of s)"
    and "unat (kernel_pages_count (mm (load_task (mem s) t))) < 12"
    and "unat (user_pages_count (mm (load_task (mem s) t))) < 16"
  shows "\<exists>r new. load_task (mem (map_page t va page s)) t = (load_task (mem s) t)\<lparr>mm := \<lparr>pgd = r,
       user_pages_count = user_pages_count (mm (load_task (mem s) t)) + 1,
       user_pages = (user_pages (mm (load_task (mem s) t)))[unat (user_pages_count (mm (load_task (mem s) t))) :=
         \<lparr>phys_addr = page, virt_addr = va\<rparr>],
       kernel_pages_count = kernel_pages_count (mm (load_task (mem s) t)) + word_of_nat (length new),
       kernel_pages = record_pages (kernel_pages (mm (load_task (mem s) t)))
         (unat (kernel_pages_count (mm (load_task (mem s) t)))) new\<rparr>\<rparr> \<and>
     set new = used_pages_of (map_page t va page s) - used_pages_of s \<and> length new \<le> 4 \<and>
     kernel_pages (mm (load_task (mem (map_page t va page s)) t)) ! 0 = kernel_pages (mm (load_task (mem s) t)) ! 0"
proof -
  obtain r new where spec: "length new \<le> 4" "set new \<inter> used_pages_of s = {}"
    "used_pages_of (map_page t va page s) = used_pages_of s \<union> set new"
    "load_task (mem (map_page t va page s)) t = (load_task (mem s) t)\<lparr>mm := \<lparr>pgd = r,
       user_pages_count = user_pages_count (mm (load_task (mem s) t)) + 1,
       user_pages = (user_pages (mm (load_task (mem s) t)))[unat (user_pages_count (mm (load_task (mem s) t))) :=
         \<lparr>phys_addr = page, virt_addr = va\<rparr>],
       kernel_pages_count = kernel_pages_count (mm (load_task (mem s) t)) + word_of_nat (length new),
       kernel_pages = record_pages (kernel_pages (mm (load_task (mem s) t)))
         (unat (kernel_pages_count (mm (load_task (mem s) t)))) new\<rparr>\<rparr>"
    using map_page_spec [OF assms] by metis
  moreover have "record_pages (kernel_pages (mm (load_task (mem s) t)))
      (unat (kernel_pages_count (mm (load_task (mem s) t)))) new ! 0 = kernel_pages (mm (load_task (mem s) t)) ! 0"
    using spec(1) assms(5) by (subst record_pages_nth) auto
  ultimately show ?thesis by (intro exI [of _ r] exI [of _ new]) auto
qed

theorem map_page_records_witness:
  "user_pages_count (mm (load_task (mem (map_page (page_at 0 + VA_START) 0x1000 (page_at 2) two_tasks))
     (page_at 0 + VA_START))) = 1"
  using map_page_records [OF two_tasks_tasks(1) two_tasks_space page_2 two_tasks_room two_tasks_counts,
      of "0x1000"]
  by (auto simp: two_tasks_def load_task_def ld32_def)

text \<open>
  The memory in which \<open>map_page\<close> records the page: the tables' entries are made, and the new
  tables recorded, also past the end of the array.
\<close>

lemma map_page_pushes:
  assumes tp: "task_page s tab q t" and space: "addr_space s t tab A" and page: "page \<in> all_pages"
    and pages: "4 \<le> card (all_pages - used_pages_of s)"
    and room: "unat (kernel_pages_count (mm (load_task (mem s) t))) \<le> 15"
  obtains r m new where "mem (map_page t va page s) = push_user_page t \<lparr>phys_addr = page, virt_addr = va\<rparr> m"
    "recorded t ((mem s)(t + off_pgd := r)) m new" "length new \<le> 4"
    "used_pages_of (map_page t va page s) = used_pages_of s \<union> set new" "set new \<inter> used_pages_of s = {}"
    "tab = Map.empty \<longrightarrow> new \<noteq> []"
proof -
  note t = task_pageD [OF tp]
  have kc: "unat (ld32 (mem s) (t + off_kernel_pages_count)) < 28" using room by (simp add: load_task_def)
  obtain r pte s1 tab' new where run: "map_page t va page s =
      set_mem (push_user_page t \<lparr>phys_addr = page, virt_addr = va\<rparr>)
       (set_mem (map_table_entry (pte + VA_START) va page) s1)"
    and step: "table_step t r s tab A s1 tab' new" and len: "length new \<le> 4"
    and pte: "tab' [table_index PGD_SHIFT va, table_index PUD_SHIFT va, table_index PMD_SHIFT va] = Some pte"
    by (rule map_page_reaches [OF tp space pages kc]) (rule that)
  have inv: "page_tables (mem s1) tab' A" and ran: "ran tab' = ran tab \<union> set new" and used: "used_pages_of s1 = used_pages_of s \<union> set new"
    and fresh: "set new \<inter> used_pages_of s = {}" and rec: "recorded t ((mem s)(t + off_pgd := r)) (mem s1) new"
    using step unfolding table_step_def by blast+
  have pte_page: "pte \<in> all_pages" and pte_q: "pte \<noteq> q"
    using page_tablesD(2) [OF inv pte] t(2,3) pte ran fresh by (auto intro: ranI)
  let ?m = "map_table_entry (pte + VA_START) va page (mem s1)"
  have "?m (t + y) = mem s1 (t + y)" if "y < 4096" for y
  proof -
    have "t + y \<noteq> pte + VA_START + 8 * table_index PAGE_SHIFT va"
      using pte_q t(1) by (intro page_offset_neq [OF t(6) page_aligned_add [OF all_pages_aligned [OF pte_page]
            VA_START_aligned] _ that table_entry_offset [OF table_index_less]]) simp
    then show ?thesis by (simp add: map_table_entry_store)
  qed
  then have "recorded t ((mem s)(t + off_pgd := r)) ?m new"
    using len kc by (intro recorded_cong [OF rec]) (simp_all add: count_of_pgd)
  moreover have "mem (map_page t va page s) = push_user_page t \<lparr>phys_addr = page, virt_addr = va\<rparr> ?m"
    by (simp add: run set_mem_def)
  moreover have "used_pages_of (map_page t va page s) = used_pages_of s \<union> set new"
    unfolding run used [symmetric] by (rule used_pages_of_cong) (simp add: set_mem_def)
  moreover have "tab = Map.empty \<longrightarrow> new \<noteq> []" using ran pte by (auto dest: ranI)
  ultimately show thesis using that len fresh by blast
qed

lemma recorded_user_count:
  assumes "recorded t ((m0 :: memory)(t + off_pgd := r)) m new" "unat (ld32 m0 (t + off_kernel_pages_count)) + length new < 32"
  shows "ld32 m (t + off_user_pages_count) = ld32 m0 (t + off_user_pages_count)"
proof -
  have "off_user_pages_count \<noteq> kernel_slot (ld32 m0 (t + off_kernel_pages_count)) j" if "j < length new" for j
    using kernel_slot_unat [of "ld32 m0 (t + off_kernel_pages_count)" j] assms(2) that by (auto simp: layout_defs)
  then have "m (t + off_user_pages_count) = m0 (t + off_user_pages_count)"
    using assms(1) by (simp add: recorded_def count_of_pgd) (simp add: layout_defs)
  then show ?thesis by (simp add: ld32_def)
qed

text \<open>The 17th entry of \<open>user_pages\<close>.\<close>

lemma push_user_17th:
  assumes "user_pages_count (mm (load_task m t)) = 16"
  shows "user_pages_count (mm (load_task (push_user_page t u m) t)) = 17"
    and "kernel_pages_count (mm (load_task (push_user_page t u m) t)) = ucast (phys_addr u)"
    and "kernel_pages (mm (load_task (push_user_page t u m) t)) ! 0 = virt_addr u"
proof -
  have "ld32 m (t + off_user_pages_count) = 16" using assms by (simp add: load_task_def)
  then have m: "push_user_page t u m = (st32 (t + off_user_pages_count) 17 m)
      (t + off_kernel_pages_count := phys_addr u, t + off_kernel_pages := virt_addr u)"
    by (simp add: push_user_page_def Let_def layout_defs add.commute)
  have "t + off_kernel_pages_count \<noteq> t + off_kernel_pages"
    "t + off_user_pages_count \<noteq> t + off_kernel_pages" "t + off_user_pages_count \<noteq> t + off_kernel_pages_count"
    by (simp_all add: layout_defs)
  then have "ld32 (push_user_page t u m) (t + off_kernel_pages_count) = ucast (phys_addr u)"
      "push_user_page t u m (t + off_kernel_pages) = virt_addr u"
      "ld32 (push_user_page t u m) (t + off_user_pages_count) = ld32 (st32 (t + off_user_pages_count) 17 m) (t + off_user_pages_count)"
    unfolding m by (simp_all add: ld32_def)
  then show "user_pages_count (mm (load_task (push_user_page t u m) t)) = 17"
    "kernel_pages_count (mm (load_task (push_user_page t u m) t)) = ucast (phys_addr u)"
    "kernel_pages (mm (load_task (push_user_page t u m) t)) ! 0 = virt_addr u"
    by (simp_all add: load_task_nth) (simp_all add: load_task_def)
qed

text \<open>
  C25. \<open>map_page\<close> bounds neither array. With 16 user pages recorded it goes on: the 17th is stored past
  the end of \<open>user_pages\<close>, over \<open>kernel_pages_count\<close>, which becomes the low half of the page's
  address, and over \<open>kernel_pages[0]\<close>, which becomes its virtual address. With 15 tables
  recorded, the next one the mapping makes is stored in the word after the end of the struct.
\<close>

theorem page_arrays_overflow:
  assumes "task_page s tab q t" and "addr_space s t tab A" and "page \<in> all_pages"
    and "4 \<le> card (all_pages - used_pages_of s)"
    and "unat (kernel_pages_count (mm (load_task (mem s) t))) \<le> 15"
  shows "(user_pages_count (mm (load_task (mem s) t)) = 16 \<longrightarrow>
      user_pages_count (mm (load_task (mem (map_page t va page s)) t)) = 17 \<and>
      kernel_pages_count (mm (load_task (mem (map_page t va page s)) t)) = ucast page \<and>
      kernel_pages (mm (load_task (mem (map_page t va page s)) t)) ! 0 = va) \<and>
    (kernel_pages_count (mm (load_task (mem s) t)) = 15 \<and> unat (user_pages_count (mm (load_task (mem s) t))) < 16 \<and>
        used_pages_of (map_page t va page s) \<noteq> used_pages_of s \<longrightarrow>
      mem (map_page t va page s) (t + 8 * word_of_nat (length (task_words (load_task (mem s) t))))
        \<in> used_pages_of (map_page t va page s) - used_pages_of s)"
proof -
  obtain r m new where run: "mem (map_page t va page s) = push_user_page t \<lparr>phys_addr = page, virt_addr = va\<rparr> m"
    and rec: "recorded t ((mem s)(t + off_pgd := r)) m new" "length new \<le> 4"
    and used: "used_pages_of (map_page t va page s) = used_pages_of s \<union> set new" "set new \<inter> used_pages_of s = {}"
    by (rule map_page_pushes [OF assms]) (rule that)
  have "ld32 m (t + off_user_pages_count) = ld32 (mem s) (t + off_user_pages_count)"
    using recorded_user_count [OF rec(1)] rec(2) assms(5) by (simp add: load_task_def)
  then have count: "user_pages_count (mm (load_task m t)) = user_pages_count (mm (load_task (mem s) t))"
    by (simp add: load_task_def)
  have over: "mem (map_page t va page s) (t + 552) = new ! 0"
    if k: "kernel_pages_count (mm (load_task (mem s) t)) = 15" and u: "unat (user_pages_count (mm (load_task (mem s) t))) < 16"
      and n: "new \<noteq> []"
  proof -
    have "ld32 (mem s) (t + off_kernel_pages_count) = 15" using k by (simp add: load_task_def)
    then have "m (t + kernel_slot 15 0) = new ! 0"
      using rec(1) n by (simp add: recorded_def count_of_pgd)
    moreover have "kernel_slot 15 0 = 552" by (simp add: kernel_slot_def layout_defs)
    ultimately show ?thesis using push_user_other [of m t 552] u count by (simp add: run)
  qed
  have "length (task_words (load_task (mem s) t)) = 69"
    by (rule length_task_words) (simp_all add: load_task_def MAX_PROCESS_PAGES_def)
  moreover have "new \<noteq> [] \<Longrightarrow> new ! 0 \<in> used_pages_of (map_page t va page s) - used_pages_of s"
    using used by (cases new) auto
  moreover have "new \<noteq> []" if "used_pages_of (map_page t va page s) \<noteq> used_pages_of s"
    using that used(1) by auto
  ultimately show ?thesis
    using over push_user_17th [of m t "\<lparr>phys_addr = page, virt_addr = va\<rparr>"] count by (simp add: run)
qed

text \<open>A task that has counted 16 user pages, and one that has counted 15 tables.\<close>

definition counted :: "u64 \<Rightarrow> u64 \<Rightarrow> kernel" where
  "counted off c = two_tasks\<lparr>mem := (\<lambda>_. 0)(page_at 0 + VA_START + off := c)\<rparr>"

lemma two_tasks_counted:
  assumes "off \<in> {off_user_pages_count, off_kernel_pages_count}"
  shows "task_page (counted off c) Map.empty (page_at 0) (page_at 0 + VA_START)"
    and "addr_space (counted off c) (page_at 0 + VA_START) Map.empty Map.empty"
    and "used_pages_of (counted off c) = used_pages_of two_tasks"
proof -
  show used: "used_pages_of (counted off c) = used_pages_of two_tasks"
    by (rule used_pages_of_cong) (simp add: counted_def)
  show "task_page (counted off c) Map.empty (page_at 0) (page_at 0 + VA_START)"
    using two_tasks_tasks(1) by (rule task_page_mono) (simp add: used)
  show "addr_space (counted off c) (page_at 0 + VA_START) Map.empty Map.empty"
    using assms by (auto simp: addr_space_def counted_def two_tasks_def layout_defs)
qed

lemma two_tasks_count_values:
  "user_pages_count (mm (load_task (mem (counted off_user_pages_count 16)) (page_at 0 + VA_START))) = 16"
  "kernel_pages_count (mm (load_task (mem (counted off_user_pages_count 16)) (page_at 0 + VA_START))) = 0"
  "user_pages_count (mm (load_task (mem (counted off_kernel_pages_count 15)) (page_at 0 + VA_START))) = 0"
  "kernel_pages_count (mm (load_task (mem (counted off_kernel_pages_count 15)) (page_at 0 + VA_START))) = 15"
  by (simp_all add: load_task_def ld32_def counted_def two_tasks_def layout_defs)

theorem page_arrays_overflow_witness:
  "kernel_pages_count (mm (load_task (mem (map_page (page_at 0 + VA_START) 0x7000 (page_at 2)
      (counted off_user_pages_count 16))) (page_at 0 + VA_START))) = ucast (page_at 2) \<and>
   mem (map_page (page_at 0 + VA_START) 0x7000 (page_at 2)
      (counted off_kernel_pages_count 15)) (page_at 0 + VA_START + 552) \<noteq> 0"
proof -
  let ?t = "page_at 0 + VA_START"
  let ?u = "counted off_user_pages_count 16" and ?k = "counted off_kernel_pages_count 15"
  note u = two_tasks_counted [of off_user_pages_count 16] and k = two_tasks_counted [of off_kernel_pages_count 15]
  have room: "4 \<le> card (all_pages - used_pages_of ?u)" "4 \<le> card (all_pages - used_pages_of ?k)"
    using two_tasks_room u(3) k(3) by simp_all
  have kroom: "unat (kernel_pages_count (mm (load_task (mem ?k) ?t))) \<le> 15" by (simp add: two_tasks_count_values)
  have "used_pages_of (map_page ?t 0x7000 (page_at 2) ?k) \<noteq> used_pages_of ?k"
  proof (rule map_page_pushes [OF k(1,2) page_2 room(2) kroom])
    fix r m and new :: "addr list"
    assume "used_pages_of (map_page ?t 0x7000 (page_at 2) ?k) = used_pages_of ?k \<union> set new"
      "set new \<inter> used_pages_of ?k = {}" "Map.empty = Map.empty \<longrightarrow> new \<noteq> []"
    then show ?thesis by (cases new) auto
  qed simp_all
  moreover have "length (task_words (load_task (mem ?k) ?t)) = 69"
    by (rule length_task_words) (simp_all add: load_task_def MAX_PROCESS_PAGES_def)
  ultimately have "mem (map_page ?t 0x7000 (page_at 2) ?k) (?t + 552) \<in> used_pages_of (map_page ?t 0x7000 (page_at 2) ?k)"
    using page_arrays_overflow [OF k(1,2) page_2 room(2) kroom, of "0x7000"] by (simp add: two_tasks_count_values)
  then have "mem (map_page ?t 0x7000 (page_at 2) ?k) (?t + 552) \<noteq> 0"
    using page_at_nonzero by (auto simp: used_pages_of_def)
  moreover have "unat (kernel_pages_count (mm (load_task (mem ?u) ?t))) \<le> 15" by (simp add: two_tasks_count_values)
  then have "kernel_pages_count (mm (load_task (mem (map_page ?t 0x7000 (page_at 2) ?u)) ?t)) = ucast (page_at 2)"
    using page_arrays_overflow [OF u(1,2) page_2 room(1), of "0x7000"] by (simp add: two_tasks_count_values)
  ultimately show ?thesis by blast
qed

text \<open>
  C24. Running out of pages. \<open>map_table\<close> does not look at what \<open>get_free_page\<close> returned: with
  no page left, a missing table becomes a valid descriptor of physical address 0, the caller
  gets 0 as the next table, and the mapping goes on in the memory at physical address 0.
\<close>

theorem map_table_out_of_memory:
  assumes "\<forall>i < PAGING_PAGES. mem_map s i \<noteq> 0" and "mem s (table + 8 * table_index shift va) = 0"
  shows "map_table table shift va s =
      (0, True, s\<lparr>mem := (mem s)(table + 8 * table_index shift va := MM_TYPE_PAGE_TABLE)\<rparr>) \<and>
    output_address PAGE_SHIFT MM_TYPE_PAGE_TABLE = 0"
proof -
  have "get_free_page s = (0, s)"
    using assms(1) find_free_None [of "mem_map s" 0] by (simp add: get_free_page_def)
  then show ?thesis
    using assms(2) by (simp add: map_table_if output_address_def descriptor_values map_values mask_eq_exp_minus_1)
qed

theorem map_table_out_of_memory_witness:
  "fst (map_table VA_START PGD_SHIFT 0 (boot_kernel\<lparr>mem := (\<lambda>_. 0), mem_map := (\<lambda>_. 1)\<rparr>)) = 0"
  using map_table_out_of_memory [of "boot_kernel\<lparr>mem := (\<lambda>_. 0), mem_map := (\<lambda>_. 1)\<rparr>" VA_START PGD_SHIFT 0]
  by simp

section \<open>Faults\<close>

definition translation_fault :: "u64 \<Rightarrow> bool" where
  "translation_fault esr \<longleftrightarrow> esr AND 0b111100 = 0b100"

lemma fault_status: "((esr :: u64) AND 0b111111) AND 0b111100 = 0b100 \<longleftrightarrow> translation_fault esr"
  by (simp add: translation_fault_def and.assoc)

text \<open>
  C21. \<open>do_mem_abort\<close> on every branch. A fault that is not a translation fault, or one when
  no page is left, is answered with -1 and changes nothing. Otherwise a page that was free,
  all zeros, is mapped at the faulting address in the current task and \<open>ind\<close> is counted up;
  the answer is 0 the first time after boot (\<open>ind\<close> starts at 1) and -1 from then on,
  although the page has been mapped. This is for no free page or at least five, and with fewer than 12
  tables and 16 pages recorded: with one to four the tables may run out in the middle
  (\<open>map_table_out_of_memory\<close>), and past 16 pages the record overflows (\<open>page_arrays_overflow\<close>).
\<close>

theorem do_mem_abort_spec:
  assumes "task_page s tab q (current s)" and "addr_space s (current s) tab A"
    and "used_pages_of s = all_pages \<or> 5 \<le> card (all_pages - used_pages_of s)"
    and "unat (kernel_pages_count (mm (load_task (mem s) (current s)))) < 12"
    and "unat (user_pages_count (mm (load_task (mem s) (current s)))) < 16"
  shows "if \<not> translation_fault esr \<or> used_pages_of s = all_pages then do_mem_abort a esr s = (-1, s)
    else \<exists>s' page tab'. do_mem_abort a esr s = (if ind s < 2 then 0 else -1, s') \<and>
      ind s' = ind s + 1 \<and> page \<in> all_pages \<and> page \<notin> used_pages_of s \<and>
      addr_space s' (current s) tab' (A(vpn a \<mapsto> page)) \<and>
      user_walk (mem s') (mem s' (current s + off_pgd)) a = Some (page + (a AND mask PAGE_SHIFT)) \<and>
      (\<forall>i < 512. mem s' (page + VA_START + 8 * i) = 0)"
proof (cases "translation_fault esr \<and> used_pages_of s \<noteq> all_pages")
  case False
  moreover have "get_free_page s = (0, s)" if "used_pages_of s = all_pages"
    using that by (cases rule: get_free_page_l5_cases [of s]) (auto simp: used_all_pages)
  ultimately show ?thesis by (auto simp: do_mem_abort_def fault_status Let_def)
next
  case True
  let ?t = "current s" and ?va = "a AND PAGE_MASK"
  from True have "used_pages_of s \<noteq> all_pages" by blast
  then obtain n mp where n: "n \<in> all_pages" "n \<notin> used_pages_of s"
    and get: "get_free_page s = (n, s\<lparr>mem_map := mp, mem := memzero (n + VA_START) PAGE_SIZE (mem s)\<rparr>)"
    and mark: "\<forall>m. used_pages_of (s\<lparr>mem_map := mp, mem := m\<rparr>) = insert n (used_pages_of s)"
    by (rule fresh_page)
  define s1 where s1: "s1 = s\<lparr>mem_map := mp, mem := memzero (n + VA_START) PAGE_SIZE (mem s)\<rparr>"
  have used1: "used_pages_of s1 = insert n (used_pages_of s)" unfolding s1 using mark by blast
  note keep = fresh_page_keeps [OF n assms(1,2) s1]
  have tp1: "task_page s1 tab q ?t"
    by (rule task_page_mono [OF assms(1)]) (auto simp: used1)
  have room: "4 \<le> card (all_pages - used_pages_of s1)"
    using assms(3) True n by (simp add: used1 card_free_insert)
  have counts: "unat (kernel_pages_count (mm (load_task (mem s1) ?t))) < 12"
      "unat (user_pages_count (mm (load_task (mem s1) ?t))) < 16"
    using assms(4,5) by (simp_all add: keep(2))
  obtain r tab' new where spec:
    "addr_space (map_page ?t ?va n s1) ?t tab' (A(vpn ?va \<mapsto> n))"
    "mem (map_page ?t ?va n s1) (?t + off_pgd) = r" "r \<noteq> 0"
    "ran tab' = ran tab \<union> set new" "set new \<inter> used_pages_of s1 = {}"
    "map_page ?t ?va n s1 = s1\<lparr>mem := mem (map_page ?t ?va n s1), mem_map := mem_map (map_page ?t ?va n s1)\<rparr>"
    "\<forall>b y. page_aligned b \<and> y < 4096 \<and> b \<noteq> ?t \<and> b - VA_START \<notin> ran tab' \<longrightarrow>
       mem (map_page ?t ?va n s1) (b + y) = mem s1 (b + y)"
    by (rule map_page_spec [OF tp1 keep(1) n(1) room counts, of ?va]) (rule that)
  let ?s2 = "map_page ?t ?va n s1"
  let ?s' = "?s2\<lparr>ind := ind s + 1\<rparr>"
  have cur: "ind ?s2 = ind s"
    using arg_cong [OF spec(6), of ind] by (simp add: s1)
  have get1: "get_free_page s = (n, s1)" "current s1 = ?t" by (simp_all add: get s1)
  have "n \<noteq> 0" using n(1) page_at_nonzero by (auto simp: all_pages_def)
  then have run: "do_mem_abort a esr s = (if ind s < 2 then 0 else -1, ?s')"
    using True by (simp add: do_mem_abort_def fault_status Let_def get1 cur)
  have space: "addr_space ?s' ?t tab' (A(vpn a \<mapsto> n))"
    using spec(1) by (simp add: addr_space_def vpn_page_mask)
  have "user_walk (mem ?s') (mem ?s' (?t + off_pgd)) a = Some (n + (a AND mask PAGE_SHIFT))"
    using addr_space_walk [OF space, of a] spec(2,3) page_or_offset [OF n(1)] by simp
  moreover have "mem ?s' (n + VA_START + 8 * i) = 0" if i: "i < 512" for i
  proof -
    have "n \<noteq> q" "n \<notin> ran tab'"
      using n spec(4,5) task_pageD(2,4) [OF assms(1)] by (auto simp: used1)
    then have "mem ?s2 (n + VA_START + 8 * i) = mem s1 (n + VA_START + 8 * i)"
      using spec(7) task_pageD(1) [OF assms(1)] table_entry_offset [OF i] n(1)
      by (auto simp: page_aligned_add all_pages_aligned VA_START_aligned)
    then show ?thesis using memzero_clears [OF i] by (simp add: s1)
  qed
  ultimately have "do_mem_abort a esr s = (if ind s < 2 then 0 else -1, ?s') \<and>
      ind ?s' = ind s + 1 \<and> n \<in> all_pages \<and> n \<notin> used_pages_of s \<and>
      addr_space ?s' ?t tab' (A(vpn a \<mapsto> n)) \<and>
      user_walk (mem ?s') (mem ?s' (?t + off_pgd)) a = Some (n + (a AND mask PAGE_SHIFT)) \<and>
      (\<forall>i < 512. mem ?s' (n + VA_START + 8 * i) = 0)"
    using run n space by (intro conjI allI impI) (assumption | simp)+
  then show ?thesis using True by (subst if_not_P) blast+
qed

theorem do_mem_abort_spec_witness:
  "fst (do_mem_abort 0x2008 0b000110 two_tasks) = 0 \<and> do_mem_abort 0x2008 0b001110 two_tasks = (-1, two_tasks)"
proof -
  have room: "5 \<le> card (all_pages - used_pages_of two_tasks)" using two_tasks_free by simp
  then have full: "used_pages_of two_tasks \<noteq> all_pages" by auto
  have yes: "translation_fault 0b000110" and no: "\<not> translation_fault 0b001110"
    by (simp_all add: translation_fault_def)
  have task: "task_page two_tasks Map.empty (page_at 0) (current two_tasks)"
    unfolding two_tasks_current by (rule two_tasks_tasks)
  note spec = do_mem_abort_spec [OF task two_tasks_space disjI2 [OF room] two_tasks_counts]
  show ?thesis
    using spec [of "0b000110" "0x2008"] spec [of "0b001110" "0x2008"] yes no full
    by (auto simp: two_tasks_current)
qed

end
