(* ===== verification/Copy_Virt.thy ===== *)
theory Copy_Virt
  imports Virtual_Memory
begin

text \<open>
  \<open>copy_virt_memory\<close>, the memory half of \<open>fork\<close>: what \<open>memcpy\<close> copies through the MMU, one
  turn of the loop, and the property that the child gets a copy of its own of each of the
  parent's pages.
\<close>

unbundle bit_operations_syntax

section \<open>memcpy through the MMU\<close>

lemma load_words_Suc: "load_words m a (Suc n) = m a # load_words m (a + 8) n"
proof (rule nth_equalityI)
  fix i assume "i < length (load_words m a (Suc n))"
  then show "load_words m a (Suc n) ! i = (m a # load_words m (a + 8) n) ! i"
    by (cases i) (simp_all add: algebra_simps)
qed simp

lemma load_words_0 [simp]: "load_words m a 0 = []"
  by (simp add: load_words_def)

lemma memcpy_run:
  assumes tr: "\<And>m'. (\<And>x. (\<And>j. j < k \<Longrightarrow> x \<noteq> dp + 8 * word_of_nat j) \<Longrightarrow> m' x = m0 x) \<Longrightarrow>
      (\<forall>j < k. tr m' (src + 8 * word_of_nat j) = Inr (sq + 8 * word_of_nat j) \<and>
               tr m' (dst + 8 * word_of_nat j) = Inr (dp + 8 * word_of_nat j))"
    and apart: "\<And>i j. i < k \<Longrightarrow> j < k \<Longrightarrow> sq + 8 * word_of_nat i \<noteq> dp + 8 * word_of_nat j"
  shows "d = Suc d' \<Longrightarrow> i + d = k \<Longrightarrow> rounds n = d \<Longrightarrow>
    (\<And>x. (\<And>j. j < k \<Longrightarrow> x \<noteq> dp + 8 * word_of_nat j) \<Longrightarrow> m x = m0 x) \<Longrightarrow>
    memcpy tr (dst + 8 * word_of_nat i) (src + 8 * word_of_nat i) n m =
      Inr (store_words (dp + 8 * word_of_nat i) (load_words m0 (sq + 8 * word_of_nat i) d) m)"
proof (induction d' arbitrary: d i n m)
  case 0
  have "i < k" using 0 by simp
  then have t: "tr m (src + 8 * word_of_nat i) = Inr (sq + 8 * word_of_nat i)"
      "tr m (dst + 8 * word_of_nat i) = Inr (dp + 8 * word_of_nat i)"
    using tr [OF 0(4)] by blast+
  have "\<not> 8 < sint n" using 0 rounds_step [of n] rounds_pos [of "n - 8"] by fastforce
  moreover have "m (sq + 8 * word_of_nat i) = m0 (sq + 8 * word_of_nat i)"
    using apart \<open>i < k\<close> by (intro 0(4)) blast
  ultimately show ?case
    using 0 t by (simp add: memcpy.simps [of tr "dst + _"] load_words_Suc fun_eq_iff)
next
  case (Suc e)
  let ?m = "m(dp + 8 * word_of_nat i := m0 (sq + 8 * word_of_nat i))"
  have "i < k" using Suc.prems by simp
  then have t: "tr m (src + 8 * word_of_nat i) = Inr (sq + 8 * word_of_nat i)"
      "tr m (dst + 8 * word_of_nat i) = Inr (dp + 8 * word_of_nat i)"
    using tr [OF Suc.prems(4)] by blast+
  have more: "8 < sint n" using Suc.prems rounds_last [of n] by fastforce
  have val: "m (sq + 8 * word_of_nat i) = m0 (sq + 8 * word_of_nat i)"
    using apart \<open>i < k\<close> by (intro Suc.prems(4)) blast
  have next_addr: "a + 8 * word_of_nat i + 8 = a + 8 * word_of_nat (Suc i)" for a :: u64
    by (simp add: algebra_simps)
  have "memcpy tr (dst + 8 * word_of_nat (Suc i)) (src + 8 * word_of_nat (Suc i)) (n - 8) ?m =
      Inr (store_words (dp + 8 * word_of_nat (Suc i)) (load_words m0 (sq + 8 * word_of_nat (Suc i)) (Suc e)) ?m)"
  proof (rule Suc.IH)
    show "rounds (n - 8) = Suc e" using Suc.prems(1,3) rounds_step [OF more] by simp
    show "?m x = m0 x" if "\<And>j. j < k \<Longrightarrow> x \<noteq> dp + 8 * word_of_nat j" for x
      using that [OF \<open>i < k\<close>] Suc.prems(4) [OF that] by simp
  qed (use Suc.prems in auto)
  moreover have "memcpy tr (dst + 8 * word_of_nat i) (src + 8 * word_of_nat i) n m =
      memcpy tr (dst + 8 * word_of_nat (Suc i)) (src + 8 * word_of_nat (Suc i)) (n - 8) ?m"
    unfolding memcpy.simps [of tr "dst + 8 * word_of_nat i" "src + 8 * word_of_nat i" n m]
    by (simp only: t more val if_True res_bind_simps next_addr)
  ultimately show ?case
    using Suc.prems(1) by (simp only: load_words_Suc store_words.simps next_addr)
qed

lemma memcpy_page:
  assumes tr: "\<And>m'. (\<And>x. (\<And>j. j < 512 \<Longrightarrow> x \<noteq> dp + 8 * word_of_nat j) \<Longrightarrow> m' x = m x) \<Longrightarrow>
      (\<forall>j < 512. tr m' (src + 8 * word_of_nat j) = Inr (sq + 8 * word_of_nat j) \<and>
               tr m' (dst + 8 * word_of_nat j) = Inr (dp + 8 * word_of_nat j))"
    and pages: "page_aligned sq" "page_aligned dp" "sq \<noteq> dp"
  shows "memcpy tr dst src PAGE_SIZE m = Inr (store_words dp (load_words m sq 512) m)"
proof -
  have "sq + 8 * word_of_nat i \<noteq> dp + 8 * word_of_nat j" if "i < 512" "j < 512" for i j
    using that by (intro page_offset_neq pages page_run_offset(1)) simp_all
  then have "memcpy tr (dst + 8 * word_of_nat 0) (src + 8 * word_of_nat 0) PAGE_SIZE m =
      Inr (store_words (dp + 8 * word_of_nat 0) (load_words m (sq + 8 * word_of_nat 0) 512) m)"
  proof (rule memcpy_run [where k = 512 and d' = 511 and ?m0.0 = m, rotated])
    show "rounds PAGE_SIZE = 512" by (simp only: map_values rounds_page)
  qed (simp_all add: tr)
  then show ?thesis by simp
qed

section \<open>Translation of a whole page\<close>

lemma aligned_and_small:
  assumes "page_aligned p" "c < 4096"
  shows "p AND c = 0"
proof (rule bit_word_eqI)
  fix n
  have "\<not> bit p n" if "n < 12" using page_aligned_bits [OF assms(1) that] .
  moreover have "\<not> bit c n" if "\<not> n < 12" using less_bits [of c 12 n] assms(2) that by simp
  ultimately show "bit (p AND c) n = bit (0 :: u64) n" by (auto simp: bit_simps)
qed

lemma aligned_plus_or: "page_aligned p \<Longrightarrow> c < 4096 \<Longrightarrow> p + c = p OR c"
  using word_plus_and_or [of p c] aligned_and_small [of p c] by simp

lemma drop_small: "(y :: u64) < 4096 \<Longrightarrow> 12 \<le> k \<Longrightarrow> drop_bit k y = 0"
  using less_bits [of y 12] by (intro bit_word_eqI) (auto simp: bit_simps)

lemma vpn_offset:
  assumes "page_aligned va" "y < 4096"
  shows "vpn (va + y) = vpn va" and "(va + y) AND mask PAGE_SHIFT = y"
proof -
  have "table_index k (va + y) = table_index k va" if "12 \<le> k" for k
    by (simp only: table_index_def aligned_plus_or [OF assms] drop_bit_or drop_small [OF assms(2) that]
        or.right_neutral)
  moreover have "12 \<le> PGD_SHIFT" "12 \<le> PUD_SHIFT" "12 \<le> PMD_SHIFT" "12 \<le> PAGE_SHIFT"
    by (simp_all add: map_values)
  ultimately show "vpn (va + y) = vpn va" by (simp only: vpn_def table_shifts_def list.map)
  have "va AND mask 12 = 0"
    using page_aligned_bits [OF assms(1)] by (intro bit_word_eqI) (auto simp: bit_simps)
  moreover have "y AND mask 12 = y"
    using less_bits [of y 12] assms(2) by (intro bit_word_eqI) (auto simp: bit_simps not_le [symmetric])
  ultimately show "(va + y) AND mask PAGE_SHIFT = y"
    unfolding aligned_plus_or [OF assms] map_values by (simp add: bit.conj_disj_distrib2)
qed

lemma user_translate:
  assumes inv: "page_tables m tab A" "tab [] = Some r" and p: "A (vpn va) = Some p"
    and va: "page_aligned va" "va < push_bit 48 1" and y: "y < 4096"
  shows "mmu_translate r m (va + y) = Inr (p + VA_START + y)"
proof -
  have page: "p \<in> all_pages" by (rule page_tablesD(6) [OF inv(1) p])
  have low: "va + y < push_bit 48 1"
  proof -
    have "unat va < 281474976710656" using va(2) by (simp add: word_less_nat_alt)
    moreover obtain k where "unat va = 4096 * k"
      using va(1) unfolding page_aligned_def by (rule dvdE)
    moreover have "unat y < 4096" using y by (simp add: word_less_nat_alt)
    moreover have "k < 68719476736" using calculation by linarith
    ultimately have "unat (va + y) < 281474976710656"
      unfolding page_aligned_add_unat [OF va(1) y] by linarith
    then show ?thesis by (simp add: word_less_nat_alt)
  qed
  then have "\<not> VA_START \<le> va + y"
    unfolding map_values word_less_nat_alt word_le_nat_alt by simp
  moreover have "user_walk m r (va + y) = Some (p + y)"
    using walk_lookup [OF inv, of "va + y"] p vpn_offset [OF va(1) y]
      aligned_plus_or [OF all_pages_aligned [OF page] y] by simp
  ultimately show ?thesis using low by (simp add: mmu_translate_def)
qed

lemma kernel_translate:
  assumes p: "p \<in> all_pages" and y: "y < 4096"
  shows "mmu_translate r m (p + VA_START + y) = Inr (p + VA_START + y)" and "p + VA_START \<noteq> 0"
proof -
  obtain i where i: "i < PAGING_PAGES" "p = page_at i" using p by (auto simp: all_pages_def)
  have up: "unat p = 0x400000 + 4096 * i" "i < 257024"
    using page_at_unat [OF i(1)] i by (simp_all add: map_values)
  have uy: "unat y < 4096" using y by (simp add: word_less_nat_alt)
  have "unat (p + y) = unat p + unat y"
    by (rule page_aligned_add_unat [OF all_pages_aligned [OF p] y])
  then have py: "unat (p + y) < 0x40000000" using up uy by simp
  have "unat VA_START = 0xffff000000000000" by (simp add: map_values)
  moreover have "unat (p + VA_START) = (unat p + unat VA_START) mod 2 ^ 64"
    by (simp add: unat_word_ariths)
  moreover have "unat p < 0x1000000000000" using up by simp
  ultimately have v: "unat (p + VA_START) = unat p + 0xffff000000000000" by simp
  have "unat (p + VA_START + y) = unat (p + VA_START) + unat y"
    by (rule page_aligned_add_unat [OF page_aligned_add [OF all_pages_aligned [OF p] VA_START_aligned] y])
  then have "VA_START \<le> p + VA_START + y"
    unfolding word_le_nat_alt v by (simp add: map_values)
  moreover have "p + VA_START + y - VA_START < PHYS_MEMORY_SIZE"
    using py by (simp add: word_less_nat_alt map_values)
  ultimately show "mmu_translate r m (p + VA_START + y) = Inr (p + VA_START + y)"
    by (simp add: mmu_translate_def)
  show "p + VA_START \<noteq> 0" using v by (metis add_is_0 unat_0 zero_neq_numeral)
qed

section \<open>allocate_user_page\<close>

lemma task_user_pages_of_step:
  assumes "load_task m' t = (load_task m t)\<lparr>mm := M\<rparr>"
  shows "mm (load_task m' t) = M"
  using assms by simp

lemma allocate_user_page_run:
  assumes tp: "task_page s tab q t" and space: "addr_space s t tab A"
    and free: "5 \<le> card (all_pages - used_pages_of s)"
    and room: "unat (kernel_pages_count (mm (load_task (mem s) t))) < 12"
      "unat (user_pages_count (mm (load_task (mem s) t))) < 16"
  obtains p tab' new s' where
    "allocate_user_page t va s = (p + VA_START, s')" "p \<in> all_pages" "p \<notin> used_pages_of s" "p \<notin> ran tab'"
    "addr_space s' t tab' (A(vpn va \<mapsto> p))" "mem s' (t + off_pgd) \<noteq> 0"
    "ran tab' = ran tab \<union> set new" "length new \<le> 4" "set new \<inter> insert p (used_pages_of s) = {}"
    "used_pages_of s' = insert p (used_pages_of s) \<union> set new" "length new = card (set new)"
    "s' = s\<lparr>mem := mem s', mem_map := mem_map s'\<rparr>"
    "\<forall>b y. page_aligned b \<and> y < 4096 \<and> b \<noteq> t \<and> b \<noteq> p + VA_START \<and> b - VA_START \<notin> ran tab' \<longrightarrow>
       mem s' (b + y) = mem s (b + y)"
    "\<forall>i < 512. mem s' (p + VA_START + 8 * i) = 0"
    "kernel_pages_count (mm (load_task (mem s') t)) =
       kernel_pages_count (mm (load_task (mem s) t)) + word_of_nat (length new)"
    "user_pages_count (mm (load_task (mem s') t)) = user_pages_count (mm (load_task (mem s) t)) + 1"
    "user_pages (mm (load_task (mem s') t)) = (user_pages (mm (load_task (mem s) t)))
       [unat (user_pages_count (mm (load_task (mem s) t))) := \<lparr>phys_addr = p, virt_addr = va\<rparr>]"
    "\<forall>y. outside_mm y \<longrightarrow> mem s' (t + y) = mem s (t + y)" "tab \<subseteq>\<^sub>m tab'"
proof -
  have "used_pages_of s \<noteq> all_pages" using free by auto
  then obtain p mp where p: "p \<in> all_pages" "p \<notin> used_pages_of s"
    and get: "get_free_page s = (p, s\<lparr>mem_map := mp, mem := memzero (p + VA_START) PAGE_SIZE (mem s)\<rparr>)"
    and mark: "\<forall>m. used_pages_of (s\<lparr>mem_map := mp, mem := m\<rparr>) = insert p (used_pages_of s)"
    by (rule fresh_page)
  define s1 where s1: "s1 = s\<lparr>mem_map := mp, mem := memzero (p + VA_START) PAGE_SIZE (mem s)\<rparr>"
  have used1: "used_pages_of s1 = insert p (used_pages_of s)" unfolding s1 using mark by blast
  note keep = fresh_page_keeps [OF p tp space s1]
  have tp1: "task_page s1 tab q t"
    by (rule task_page_mono [OF tp]) (auto simp: used1)
  have free1: "4 \<le> card (all_pages - used_pages_of s1)"
    using free p by (simp add: used1 card_free_insert)
  have room1: "unat (kernel_pages_count (mm (load_task (mem s1) t))) < 12"
      "unat (user_pages_count (mm (load_task (mem s1) t))) < 16"
    using room by (simp_all add: keep(2))
  obtain r tab' new where spec:
    "addr_space (map_page t va p s1) t tab' (A(vpn va \<mapsto> p))"
    "mem (map_page t va p s1) (t + off_pgd) = r" "r \<noteq> 0"
    "ran tab' = ran tab \<union> set new" "length new \<le> 4" "distinct new"
    "set new \<inter> used_pages_of s1 = {}"
    "used_pages_of (map_page t va p s1) = used_pages_of s1 \<union> set new"
    "map_page t va p s1 = s1\<lparr>mem := mem (map_page t va p s1), mem_map := mem_map (map_page t va p s1)\<rparr>"
    "\<forall>b y. page_aligned b \<and> y < 4096 \<and> b \<noteq> t \<and> b - VA_START \<notin> ran tab' \<longrightarrow>
       mem (map_page t va p s1) (b + y) = mem s1 (b + y)"
    "load_task (mem (map_page t va p s1)) t = (load_task (mem s1) t)\<lparr>mm := \<lparr>pgd = r,
       user_pages_count = user_pages_count (mm (load_task (mem s1) t)) + 1,
       user_pages = (user_pages (mm (load_task (mem s1) t)))[unat (user_pages_count (mm (load_task (mem s1) t))) :=
         \<lparr>phys_addr = p, virt_addr = va\<rparr>],
       kernel_pages_count = kernel_pages_count (mm (load_task (mem s1) t)) + word_of_nat (length new),
       kernel_pages = record_pages (kernel_pages (mm (load_task (mem s1) t)))
         (unat (kernel_pages_count (mm (load_task (mem s1) t)))) new\<rparr>\<rparr>"
    "\<forall>y. outside_mm y \<longrightarrow> mem (map_page t va p s1) (t + y) = mem s1 (t + y)" "tab \<subseteq>\<^sub>m tab'"
    by (rule map_page_spec [OF tp1 keep(1) p(1) free1 room1, of va]) (rule that)
  let ?s' = "map_page t va p s1"
  have "p \<noteq> 0" using p(1) page_at_nonzero by (auto simp: all_pages_def)
  have run: "allocate_user_page t va s = (p + VA_START, ?s')"
    using \<open>p \<noteq> 0\<close> by (simp add: allocate_user_page_def get s1 [symmetric])
  have pt: "p \<notin> ran tab'" "p \<noteq> q"
    using p spec(4,7) task_pageD(2,4) [OF tp] by (auto simp: used1)
  have al: "page_aligned (p + VA_START)" "p + VA_START \<noteq> t"
    using p(1) pt(2) task_pageD(1) [OF tp]
    by (simp_all add: page_aligned_add all_pages_aligned VA_START_aligned)
  have frame: "\<forall>b y. page_aligned b \<and> y < 4096 \<and> b \<noteq> t \<and> b \<noteq> p + VA_START \<and> b - VA_START \<notin> ran tab' \<longrightarrow>
       mem ?s' (b + y) = mem s (b + y)"
    using spec(10) memzero_page_other [OF al(1)] by (simp add: s1)
  have clear: "\<forall>i < 512. mem ?s' (p + VA_START + 8 * i) = 0"
    using spec(10) al pt(1) table_entry_offset memzero_clears by (simp add: s1)
  have other: "?s' = s\<lparr>mem := mem ?s', mem_map := mem_map ?s'\<rparr>"
    using spec(9) by (cases ?s', cases s) (simp add: s1)
  show thesis
    by (rule that [OF run p pt(1) spec(1) _ spec(4,5) _ _ _ other frame clear])
      (use spec(2,3,6,7,8,12,13) keep(3) outside_mmD(1) in
        \<open>simp_all add: used1 distinct_card keep(2) task_user_pages_of_step [OF spec(11)]\<close>)
qed

section \<open>The loop\<close>

text \<open>
  The parent: its address space \<open>A\<close> is active, and each of its recorded user pages is
  mapped at a page-aligned user address, at pages of its own.
\<close>

definition nth_va :: "task_struct \<Rightarrow> nat \<Rightarrow> addr" where
  "nth_va T j = virt_addr (user_pages (mm T) ! j)"

definition page_count :: "task_struct \<Rightarrow> nat" where
  "page_count T = unat (user_pages_count (mm T))"

definition parent_pages :: "kernel \<Rightarrow> task_struct \<Rightarrow> space \<Rightarrow> addr set \<Rightarrow> bool" where
  "parent_pages s T A own \<longleftrightarrow>
     (\<forall>j < page_count T. page_aligned (nth_va T j) \<and> nth_va T j < push_bit 48 1 \<and>
        (\<exists>p. A (vpn (nth_va T j)) = Some p \<and> p \<in> used_pages_of s - own)) \<and>
     inj_on (\<lambda>j. vpn (nth_va T j)) {..<page_count T}"

definition same_page :: "memory \<Rightarrow> addr \<Rightarrow> memory \<Rightarrow> addr \<Rightarrow> bool" where
  "same_page m p m' p' \<longleftrightarrow> (\<forall>j < 512. m (p + VA_START + 8 * word_of_nat j) = m' (p' + VA_START + 8 * word_of_nat j))"

text \<open>Pages that stay as they are: all that are not free, and not the child's own.\<close>

definition untouched :: "kernel \<Rightarrow> addr \<Rightarrow> addr \<Rightarrow> bool" where
  "untouched s tc b \<longleftrightarrow> page_aligned b \<and> b \<noteq> tc \<and> b - VA_START \<notin> all_pages - used_pages_of s"

lemma used_untouched:
  assumes "p \<in> used_pages_of s" "p + VA_START \<noteq> tc"
  shows "untouched s tc (p + VA_START)"
  using assms used_pages_subset [of s]
  by (auto simp: untouched_def page_aligned_add all_pages_aligned VA_START_aligned)

text \<open>After \<open>i\<close> turns: the first \<open>i\<close> pages are copied, the parent is as it was.\<close>

definition copying :: "kernel \<Rightarrow> addr \<Rightarrow> addr \<Rightarrow> tables \<Rightarrow> space \<Rightarrow> addr \<Rightarrow> addr \<Rightarrow> nat \<Rightarrow>
    kernel \<Rightarrow> tables \<Rightarrow> space \<Rightarrow> bool" where
  "copying s0 tp qp tabP AP tc qc i s tabC AC \<longleftrightarrow>
     task_page s tabC qc tc \<and> addr_space s tc tabC AC \<and>
     task_page s tabP qp tp \<and> addr_space s tp tabP AP \<and> load_task (mem s) tp = load_task (mem s0) tp \<and>
     apart qc tabC qp tabP \<and>
     unat (kernel_pages_count (mm (load_task (mem s) tc))) \<le> 4 * i \<and>
     user_pages_count (mm (load_task (mem s) tc)) = word_of_nat i \<and>
     (\<forall>j < i. nth_va (load_task (mem s) tc) j = nth_va (load_task (mem s0) tp) j) \<and>
     5 * (page_count (load_task (mem s0) tp) - i) \<le> card (all_pages - used_pages_of s) \<and>
     qc \<in> used_pages_of s0 \<and> used_pages_of s0 \<subseteq> used_pages_of s \<and>
     s = s0\<lparr>mem := mem s, mem_map := mem_map s\<rparr> \<and>
     ran tabC \<inter> used_pages_of s0 = {} \<and>
     (\<forall>b. untouched s0 tc b \<longrightarrow> (\<forall>y < 4096. mem s (b + y) = mem s0 (b + y))) \<and>
     (\<forall>y. outside_mm y \<longrightarrow> mem s (tc + y) = mem s0 (tc + y)) \<and>
     dom AC = {vpn (nth_va (load_task (mem s0) tp) j) | j. j < i} \<and> inj_on AC (dom AC) \<and>
     ran AC \<subseteq> used_pages_of s - used_pages_of s0 - ran tabC \<and>
     (\<forall>j < i. same_page (mem s) (the (AC (vpn (nth_va (load_task (mem s0) tp) j))))
        (mem s0) (the (AP (vpn (nth_va (load_task (mem s0) tp) j)))))"

lemma same_page_memory:
  assumes "same_page m p m0 p0" "\<And>y. y < 4096 \<Longrightarrow> m' (p + VA_START + y) = m (p + VA_START + y)"
  shows "same_page m' p m0 p0"
  using assms page_run_offset(1) by (simp add: same_page_def)

text \<open>The copy of one page: what \<open>memcpy\<close> leaves in memory.\<close>

lemma copy_page:
  assumes src: "page_tables m tab A" "tab [] = Some r" "A (vpn va) = Some pp"
      "page_aligned va" "va < push_bit 48 1"
    and dst: "p \<in> all_pages" "p \<noteq> pp" "p \<notin> ran tab"
  shows "memcpy (mmu_translate r) (p + VA_START) va PAGE_SIZE m =
      Inr (store_words (p + VA_START) (load_words m (pp + VA_START) 512) m)"
proof (rule memcpy_page)
  have pp: "pp \<in> all_pages" by (rule page_tablesD(6) [OF src(1,3)])
  show "page_aligned (pp + VA_START)" "page_aligned (p + VA_START)" "pp + VA_START \<noteq> p + VA_START"
    using dst pp by (simp_all add: page_aligned_add all_pages_aligned VA_START_aligned)
  fix m' assume same: "\<And>x. (\<And>j. j < 512 \<Longrightarrow> x \<noteq> p + VA_START + 8 * word_of_nat j) \<Longrightarrow> m' x = m x"
  have "page_tables m' tab A"
  proof (rule page_tables_frame [OF src(1)])
    fix p' y assume p': "p' \<in> ran tab" and y: "y < (4096 :: u64)"
    have "p' \<in> all_pages" "p' \<noteq> p" using p' dst page_tablesD(2) [OF src(1)] by (auto simp: ran_def)
    then show "m' (p' + VA_START + y) = m (p' + VA_START + y)"
      using kernel_page_neq [OF _ dst(1) _ y page_run_offset(1)] by (intro same) simp
  qed
  from user_translate [OF this src(2-5)] kernel_translate(1) [OF dst(1)]
  show "\<forall>j<512. mmu_translate r m' (va + 8 * word_of_nat j) = Inr (pp + VA_START + 8 * word_of_nat j) \<and>
      mmu_translate r m' (p + VA_START + 8 * word_of_nat j) = Inr (p + VA_START + 8 * word_of_nat j)"
    using page_run_offset(1) by simp
qed

lemma copied_page:
  assumes p: "p \<in> all_pages"
  shows "same_page (store_words (p + VA_START) (load_words m (pp + VA_START) 512) m) p m pp"
    and "p' \<in> all_pages \<Longrightarrow> p' \<noteq> p \<Longrightarrow> y < 4096 \<Longrightarrow>
      store_words (p + VA_START) (load_words m (pp + VA_START) 512) m (p' + VA_START + y) = m (p' + VA_START + y)"
proof -
  show "same_page (store_words (p + VA_START) (load_words m (pp + VA_START) 512) m) p m pp"
    by (simp add: same_page_def store_words_inside)
  show "p' \<in> all_pages \<Longrightarrow> p' \<noteq> p \<Longrightarrow> y < 4096 \<Longrightarrow>
      store_words (p + VA_START) (load_words m (pp + VA_START) 512) m (p' + VA_START + y) = m (p' + VA_START + y)"
    using p by (intro store_words_other_page) (simp_all add: page_aligned_add all_pages_aligned VA_START_aligned)
qed

lemma card_after:
  assumes "p \<in> all_pages" "p \<notin> U" "set new \<inter> insert p U = {}" "length new = card (set new)"
    "length new \<le> 4" "set new \<subseteq> all_pages" "5 * Suc k \<le> card (all_pages - U)"
  shows "5 * k \<le> card (all_pages - (insert p U \<union> set new))"
proof -
  have "all_pages - (insert p U \<union> set new) = (all_pages - U) - insert p (set new)" by auto
  moreover have "card (insert p (set new)) \<le> 5"
    using assms(4,5) by (simp add: card_insert_if)
  moreover have "card (all_pages - U) - card (insert p (set new)) \<le> card ((all_pages - U) - insert p (set new))"
    by (rule diff_card_le_card_Diff) simp
  ultimately show ?thesis using assms(7) by simp
qed

lemma copy_step:
  assumes cp: "copying s0 tp qp tabP AP tc qc i s tabC AC"
    and i: "i < page_count (load_task (mem s0) tp)" and n: "page_count (load_task (mem s0) tp) \<le> 3"
    and parent: "parent_pages s0 (load_task (mem s0) tp) AP (insert qc (insert qp (ran tabP)))"
    and root: "mem s0 (tp + off_pgd) \<noteq> 0" "ttbr0_el1 (cpu s0) = mem s0 (tp + off_pgd)"
  shows "\<exists>s' tabC' AC'. copy_virt_loop tc tp i s = copy_virt_loop tc tp (Suc i) s' \<and>
    copying s0 tp qp tabP AP tc qc (Suc i) s' tabC' AC'"
proof -
  define T where "T = load_task (mem s0) tp"
  define va where "va = nth_va T i"
  have tpC: "task_page s tabC qc tc" and spC: "addr_space s tc tabC AC"
    and tpP: "task_page s tabP qp tp" and spP: "addr_space s tp tabP AP"
    and T: "load_task (mem s) tp = T" and ap: "apart qc tabC qp tabP"
    and kc: "unat (kernel_pages_count (mm (load_task (mem s) tc))) \<le> 4 * i"
    and uc: "user_pages_count (mm (load_task (mem s) tc)) = word_of_nat i"
    and vas: "\<forall>j < i. nth_va (load_task (mem s) tc) j = nth_va T j"
    and free: "5 * (page_count T - i) \<le> card (all_pages - used_pages_of s)"
    and mono: "used_pages_of s0 \<subseteq> used_pages_of s" and qc_old: "qc \<in> used_pages_of s0"
    and other: "s = s0\<lparr>mem := mem s, mem_map := mem_map s\<rparr>"
    and newtabs: "ran tabC \<inter> used_pages_of s0 = {}"
    and kept_all: "\<forall>b. untouched s0 tc b \<longrightarrow> (\<forall>y < 4096. mem s (b + y) = mem s0 (b + y))"
    and own: "\<forall>y. outside_mm y \<longrightarrow> mem s (tc + y) = mem s0 (tc + y)"
    and domA: "dom AC = {vpn (nth_va T j) | j. j < i}" "inj_on AC (dom AC)"
    and ranA: "ran AC \<subseteq> used_pages_of s - used_pages_of s0 - ran tabC"
    and same: "\<forall>j < i. same_page (mem s) (the (AC (vpn (nth_va T j)))) (mem s0) (the (AP (vpn (nth_va T j))))"
    using cp unfolding copying_def T_def [symmetric] by blast+
  have i3: "i < 3" "i < page_count T" using i n by (simp_all add: T_def)
  obtain pp where pp: "AP (vpn va) = Some pp" "pp \<in> used_pages_of s0" "pp \<noteq> qc" "pp \<noteq> qp" "pp \<notin> ran tabP"
    and va: "page_aligned va" "va < push_bit 48 1"
    using parent i unfolding parent_pages_def T_def [symmetric] va_def by auto
  have room: "5 \<le> card (all_pages - used_pages_of s)" using free i3(2) by simp
  have kc12: "unat (kernel_pages_count (mm (load_task (mem s) tc))) < 12" using kc i3 by simp
  have ui: "unat (user_pages_count (mm (load_task (mem s) tc))) = i"
    using i3 by (simp add: uc unat_of_nat)
  then have uc16: "unat (user_pages_count (mm (load_task (mem s) tc))) < 16" using i3 by simp
  obtain p tabC1 new s1 where
    alloc: "allocate_user_page tc va s = (p + VA_START, s1)" and p: "p \<in> all_pages" "p \<notin> used_pages_of s" "p \<notin> ran tabC1"
    and sp1: "addr_space s1 tc tabC1 (AC(vpn va \<mapsto> p))"
    and tab1: "ran tabC1 = ran tabC \<union> set new" "length new \<le> 4" "set new \<inter> insert p (used_pages_of s) = {}"
    and used1: "used_pages_of s1 = insert p (used_pages_of s) \<union> set new" and lnew: "length new = card (set new)"
    and other1: "s1 = s\<lparr>mem := mem s1, mem_map := mem_map s1\<rparr>"
    and frame1: "\<forall>b y. page_aligned b \<and> y < 4096 \<and> b \<noteq> tc \<and> b \<noteq> p + VA_START \<and> b - VA_START \<notin> ran tabC1 \<longrightarrow>
       mem s1 (b + y) = mem s (b + y)"
    and kc1: "kernel_pages_count (mm (load_task (mem s1) tc)) =
       kernel_pages_count (mm (load_task (mem s) tc)) + word_of_nat (length new)"
    and uc1: "user_pages_count (mm (load_task (mem s1) tc)) = user_pages_count (mm (load_task (mem s) tc)) + 1"
    and ups1: "user_pages (mm (load_task (mem s1) tc)) = (user_pages (mm (load_task (mem s) tc)))
       [unat (user_pages_count (mm (load_task (mem s) tc))) := \<lparr>phys_addr = p, virt_addr = va\<rparr>]"
    and own1: "\<forall>y. outside_mm y \<longrightarrow> mem s1 (tc + y) = mem s (tc + y)"
    by (rule allocate_user_page_run [OF tpC spC room kc12 uc16, of va]) (rule that)
  note tC = task_pageD [OF tpC] and tP = task_pageD [OF tpP]
  have kept: "mem s (x + VA_START + y) = mem s0 (x + VA_START + y)"
    if "x \<in> used_pages_of s0 - {qc}" "y < 4096" for x y
    using kept_all used_untouched [of x s0 tc] that by (simp add: tC(1))
  have keep1: "mem s1 (x + VA_START + y) = mem s (x + VA_START + y)"
    if "x \<in> used_pages_of s" "x \<noteq> qc" "x \<notin> ran tabC" "y < 4096" for x y
    using that tab1 p used_pages_subset [of s] tC(1)
    by (intro frame1 [rule_format] conjI page_aligned_add all_pages_aligned VA_START_aligned) auto
  let ?m2 = "store_words (p + VA_START) (load_words (mem s1) (pp + VA_START) 512) (mem s1)"
  let ?s2 = "s1\<lparr>mem := ?m2\<rparr>"
  have keep2: "?m2 (x + VA_START + y) = mem s1 (x + VA_START + y)" if "x \<in> all_pages" "x \<noteq> p" "y < 4096" for x y
    by (rule copied_page(2) [OF p(1) that])
  have used2: "used_pages_of ?s2 = used_pages_of s1" by (rule used_pages_of_cong) simp
  \<comment> \<open>the parent after the allocation\<close>
  have qp: "qp \<in> all_pages" "qp \<noteq> qc" "qp \<notin> ran tabC" and qc: "qc \<in> all_pages" "qc \<notin> ran tabP"
    and tabsCP: "ran tabC \<inter> ran tabP = {}"
    using ap tC tP by (auto simp: apart_def)
  have T1: "load_task (mem s1) tp = T"
    unfolding T [symmetric] using keep1 [OF tP(2) qp(2,3)] by (intro load_task_cong) (simp add: tP(1))
  have spP1: "addr_space s1 tp tabP AP"
  proof (rule addr_space_frame [OF spP tP(6)])
    show "mem s1 (tp + y) = mem s (tp + y)" if "y < 4096" for y
      using keep1 [OF tP(2) qp(2,3) that] by (simp add: tP(1))
    show "mem s1 (x + VA_START + y) = mem s (x + VA_START + y)" if "x \<in> ran tabP" "y < 4096" for x y
      using that tP(4) qc(2) tabsCP by (intro keep1) auto
  qed
  have pgd: "mem s1 (tp + off_pgd) = mem s0 (tp + off_pgd)"
    using arg_cong [OF T1 [unfolded T_def], of "\<lambda>t. pgd (mm t)"] by (simp add: load_task_def)
  have tables: "page_tables (mem s1) tabP AP" "tabP [] = Some (ttbr0_el1 (cpu s1))"
    using spP1 root pgd arg_cong [OF other1, of cpu] arg_cong [OF other, of cpu]
    by (auto simp: addr_space_def)
  \<comment> \<open>one turn of the loop\<close>
  have src: "virt_addr (load_user_page (mem s) tp i) = va" "virt_addr (load_user_page (mem s1) tp i) = va"
    using load_task_nth(1) [of i "mem s" tp] load_task_nth(1) [of i "mem s1" tp] i3
    by (simp_all add: T T1 va_def nth_va_def)
  have "sint (user_pages_count (mm T)) = int (page_count T)"
    using n unfolding page_count_def by (intro sint_eq_unat) (simp add: T_def)
  moreover have "user_pages_count (mm T) = ld32 (mem s) (tp + off_user_pages_count)"
    unfolding T [symmetric] by (simp add: load_task_def)
  ultimately have "int i < sint (ld32 (mem s) (tp + off_user_pages_count))"
    using i3(2) by simp
  moreover have "p \<noteq> pp" "p \<notin> ran tabP" "p \<noteq> qp" "p \<noteq> qc"
    using p(2) pp(2) mono tP(2,4) tC(2) by auto
  note pneq = this
  moreover have "memcpy (mmu_translate (ttbr0_el1 (cpu s1))) (p + VA_START) va PAGE_SIZE (mem s1) = Inr ?m2"
    by (rule copy_page [OF tables pp(1) va p(1) pneq(1,2)])
  ultimately have run: "copy_virt_loop tc tp i s = copy_virt_loop tc tp (Suc i) ?s2"
    using kernel_translate(2) [OF p(1), of 0]
    by (subst copy_virt_loop.simps) (simp add: Let_def src alloc)
  \<comment> \<open>the invariant\<close>
  have mono2: "used_pages_of s \<subseteq> used_pages_of ?s2" unfolding used2 used1 by auto
  have new_pages: "set new \<subseteq> all_pages"
    using used_pages_subset [of s1] unfolding used1 by auto
  have keepC: "?m2 (tc + y) = mem s1 (tc + y)" if "y < 4096" for y
    using keep2 [OF qc(1) _ that] pneq(4) by (simp add: tC(1))
  have taskC2: "load_task ?m2 tc = load_task (mem s1) tc" by (intro load_task_cong keepC)
  have tpC2: "task_page ?s2 tabC1 qc tc"
    using tC tab1 mono2 unfolding task_page_def tab1(1) used2 used1 by auto
  have spC2: "addr_space ?s2 tc tabC1 (AC(vpn va \<mapsto> p))"
  proof (rule addr_space_frame [OF sp1 tC(6)])
    show "mem ?s2 (tc + y) = mem s1 (tc + y)" if "y < 4096" for y using keepC [OF that] by simp
    show "mem ?s2 (x + VA_START + y) = mem s1 (x + VA_START + y)" if "x \<in> ran tabC1" "y < 4096" for x y
      using keep2 [of x y] that p(3) new_pages tC(4) used_pages_subset [of s] unfolding tab1(1) by auto
  qed
  have keepS: "?m2 (x + VA_START + y) = mem s (x + VA_START + y)"
    if "x \<in> used_pages_of s" "x \<noteq> qc" "x \<notin> ran tabC" "y < 4096" for x y
    using keep1 [OF that] keep2 [of x y] that p(2) used_pages_subset [of s] by auto
  have spP2: "addr_space ?s2 tp tabP AP"
  proof (rule addr_space_frame [OF spP tP(6)])
    show "mem ?s2 (tp + y) = mem s (tp + y)" if "y < 4096" for y
      using keepS [OF tP(2) qp(2,3) that] by (simp add: tP(1))
    show "mem ?s2 (x + VA_START + y) = mem s (x + VA_START + y)" if "x \<in> ran tabP" "y < 4096" for x y
      using keepS [of x y] that tP(4) qc(2) tabsCP by auto
  qed
  have T2: "load_task ?m2 tp = load_task (mem s0) tp"
    unfolding T_def [symmetric] T [symmetric] using keepS [OF tP(2) qp(2,3)]
    by (intro load_task_cong) (simp add: tP(1))
  have inj: "inj_on (\<lambda>j. vpn (nth_va T j)) {..<page_count T}"
    using parent unfolding parent_pages_def T_def [symmetric] by blast
  have fresh_va: "vpn va \<notin> dom AC"
  proof
    assume "vpn va \<in> dom AC"
    then obtain j where "j < i" "vpn (nth_va T i) = vpn (nth_va T j)"
      unfolding domA(1) va_def by blast
    with inj_onD [OF inj, of i j] i3(2) show False by simp
  qed
  have p_new: "p \<notin> ran AC" using ranA p(2) by auto
  have in_page: "p' \<in> used_pages_of s" "p' \<noteq> qc" "p' \<notin> ran tabC" if "p' \<in> ran AC" for p'
    using that ranA qc_old by auto
  have others2: "?s2 = s0\<lparr>mem := mem ?s2, mem_map := mem_map ?s2\<rparr>"
    using other1 other by (cases s1, cases s, cases s0) simp
  have "copying s0 tp qp tabP AP tc qc (Suc i) ?s2 tabC1 (AC(vpn va \<mapsto> p))"
    unfolding copying_def T_def [symmetric]
  proof (intro conjI)
    show "task_page ?s2 tabP qp tp" by (rule task_page_mono [OF tpP mono2])
    show "load_task (mem ?s2) tp = T" using T2 by (simp add: T_def)
    show "apart qc tabC1 qp tabP"
      using ap tab1(3) tP(2,4) unfolding apart_def tab1(1) by auto
    show "unat (kernel_pages_count (mm (load_task (mem ?s2) tc))) \<le> 4 * Suc i"
      using kc tab1(2) i3 by (simp add: taskC2 kc1 unat_word_ariths unat_of_nat)
    show "user_pages_count (mm (load_task (mem ?s2) tc)) = word_of_nat (Suc i)"
      by (simp add: taskC2 uc1 uc)
    show "\<forall>j < Suc i. nth_va (load_task (mem ?s2) tc) j = nth_va T j"
      using vas i3(1) by (auto simp: nth_va_def taskC2 ups1 ui less_Suc_eq va_def [unfolded nth_va_def])
    have "page_count T - i = Suc (page_count T - Suc i)" using i3(2) by simp
    then show "5 * (page_count T - Suc i) \<le> card (all_pages - used_pages_of ?s2)"
      using card_after [OF p(1,2) tab1(3) lnew tab1(2) new_pages] free unfolding used2 used1 by simp
    show "used_pages_of s0 \<subseteq> used_pages_of ?s2" using mono mono2 by blast
    show "ran tabC1 \<inter> used_pages_of s0 = {}" using newtabs tab1 mono by auto
    show "\<forall>b. untouched s0 tc b \<longrightarrow> (\<forall>y < 4096. mem ?s2 (b + y) = mem s0 (b + y))"
    proof (intro allI impI)
      fix b y assume b: "untouched s0 tc b" and y: "y < (4096 :: u64)"
      then have al: "page_aligned b" "b \<noteq> tc" and free: "b - VA_START \<notin> all_pages - used_pages_of s0"
        by (simp_all add: untouched_def)
      have "ran tabC1 \<subseteq> all_pages - used_pages_of s0" "p \<in> all_pages - used_pages_of s0"
        using tab1(1,3) newtabs mono new_pages tC(4) used_pages_subset [of s] p by auto
      with free have ne: "b - VA_START \<notin> ran tabC1" "b \<noteq> p + VA_START" by auto
      have "?m2 (b + y) = mem s1 (b + y)"
        using p(1) ne(2) al(1) y
        by (intro store_words_other_page) (simp_all add: page_aligned_add all_pages_aligned VA_START_aligned)
      also have "\<dots> = mem s (b + y)" using frame1 al ne y by blast
      finally show "mem ?s2 (b + y) = mem s0 (b + y)" using kept_all b y by simp
    qed
    show "\<forall>y. outside_mm y \<longrightarrow> mem ?s2 (tc + y) = mem s0 (tc + y)"
      using keepC own own1 outside_mmD(1) by simp
    show "dom (AC(vpn va \<mapsto> p)) = {vpn (nth_va T j) | j. j < Suc i}"
      using domA(1) by (auto simp: va_def less_Suc_eq)
    show "inj_on (AC(vpn va \<mapsto> p)) (dom (AC(vpn va \<mapsto> p)))"
      using domA(2) fresh_va p_new by (auto simp: inj_on_def ran_def dom_def)
    show "ran (AC(vpn va \<mapsto> p)) \<subseteq> used_pages_of ?s2 - used_pages_of s0 - ran tabC1"
      using ranA p mono tab1 fresh_va unfolding used2 used1 by (auto simp: ran_def)
    show "\<forall>j < Suc i. same_page (mem ?s2) (the ((AC(vpn va \<mapsto> p)) (vpn (nth_va T j))))
        (mem s0) (the (AP (vpn (nth_va T j))))"
    proof (intro allI impI)
      fix j assume "j < Suc i"
      then consider "j < i" | "j = i" by linarith
      then show "same_page (mem ?s2) (the ((AC(vpn va \<mapsto> p)) (vpn (nth_va T j))))
        (mem s0) (the (AP (vpn (nth_va T j))))"
      proof cases
        case 1
        then have "vpn (nth_va T j) \<in> dom AC" unfolding domA(1) by blast
        then obtain p' where p': "AC (vpn (nth_va T j)) = Some p'" "vpn (nth_va T j) \<noteq> vpn va"
          using fresh_va by (metis domD)
        have "same_page (mem ?s2) p' (mem s0) (the (AP (vpn (nth_va T j))))"
        proof (rule same_page_memory)
          show "same_page (mem s) p' (mem s0) (the (AP (vpn (nth_va T j))))"
            using same 1 p'(1) by auto
          show "mem ?s2 (p' + VA_START + y) = mem s (p' + VA_START + y)" if "y < 4096" for y
            using keepS [OF in_page that] p'(1) by (auto intro: ranI)
        qed
        then show ?thesis using p' by simp
      next
        case 2
        have "pp \<in> used_pages_of s" "pp \<notin> ran tabC" using pp(2) mono newtabs by auto
        then have "mem s1 (pp + VA_START + y) = mem s0 (pp + VA_START + y)" if "y < 4096" for y
          using keep1 [of pp y] kept [of pp y] pp(2,3) that by auto
        then have "same_page ?m2 p (mem s0) pp"
          using copied_page(1) [OF p(1), of "mem s1" pp] page_run_offset(1)
          unfolding same_page_def by simp
        then show ?thesis using 2 pp(1) by (simp add: va_def)
      qed
    qed
  qed (use tpC2 spC2 spP2 qc_old domA others2 in auto)
  with run show ?thesis by blast
qed

lemma copy_loop:
  assumes "page_count (load_task (mem s0) tp) \<le> 3"
    and "parent_pages s0 (load_task (mem s0) tp) AP (insert qc (insert qp (ran tabP)))"
    and "mem s0 (tp + off_pgd) \<noteq> 0" "ttbr0_el1 (cpu s0) = mem s0 (tp + off_pgd)"
  shows "i + d = page_count (load_task (mem s0) tp) \<Longrightarrow> copying s0 tp qp tabP AP tc qc i s tabC AC \<Longrightarrow>
    \<exists>s' tabC' AC'. copy_virt_loop tc tp i s = Inr (0, s') \<and>
      copying s0 tp qp tabP AP tc qc (page_count (load_task (mem s0) tp)) s' tabC' AC'"
proof (induction d arbitrary: i s tabC AC)
  case 0
  let ?T = "load_task (mem s0) tp"
  have "load_task (mem s) tp = ?T" using 0(2) by (simp add: copying_def)
  then have c: "ld32 (mem s) (tp + off_user_pages_count) = user_pages_count (mm ?T)"
    by (metis (no_types, lifting) load_task_def mm_struct.select_convs(2) task_struct.select_convs(7))
  have "sint (user_pages_count (mm ?T)) = int (page_count ?T)"
    using assms(1) unfolding page_count_def by (intro sint_eq_unat) simp
  then have "copy_virt_loop tc tp i s = Inr (0, s)"
    using 0(1) c by (subst copy_virt_loop.simps) simp
  moreover have "copying s0 tp qp tabP AP tc qc (page_count ?T) s tabC AC" using 0 by simp
  ultimately show ?case by blast
next
  case (Suc d)
  then have "i < page_count (load_task (mem s0) tp)" by simp
  from copy_step [OF Suc.prems(2) this assms] obtain s1 tabC1 AC1 where
    "copy_virt_loop tc tp i s = copy_virt_loop tc tp (Suc i) s1"
    "copying s0 tp qp tabP AP tc qc (Suc i) s1 tabC1 AC1" by blast
  with Suc.IH [of "Suc i" s1 tabC1 AC1] Suc.prems(1) show ?case by auto
qed

lemma copying_start:
  assumes "task_page s tabP qp tp" "addr_space s tp tabP AP" "qc \<in> used_pages_of s" "qc \<notin> ran tabP" "qc \<noteq> qp"
    and "load_task (mem s) (qc + VA_START) = T" "pgd (mm T) = 0" "user_pages_count (mm T) = 0" "kernel_pages_count (mm T) = 0"
    and "5 * page_count (load_task (mem s) tp) \<le> card (all_pages - used_pages_of s)"
  shows "copying s tp qp tabP AP (qc + VA_START) qc 0 s Map.empty Map.empty"
proof -
  have "mem s (qc + VA_START + off_pgd) = 0"
    using assms(7) unfolding assms(6) [symmetric] by (simp add: load_task_def)
  then show ?thesis
    using assms by (simp add: copying_def task_page_def addr_space_def apart_def)
qed

section \<open>The whole copy\<close>

lemma copy_virt_run:
  assumes "task_page s tabP qp (current s)" and "addr_space s (current s) tabP AP"
    and "mem s (current s + off_pgd) \<noteq> 0" and "ttbr0_el1 (cpu s) = mem s (current s + off_pgd)"
    and "T = load_task (mem s) (current s)" and "page_count T \<le> 3"
    and "parent_pages s T AP (insert qc (insert qp (ran tabP)))"
    and "qc \<in> used_pages_of s" and "qc \<notin> ran tabP" and "qc \<noteq> qp"
    and "C = load_task (mem s) (qc + VA_START)" and "pgd (mm C) = 0"
    and "user_pages_count (mm C) = 0" and "kernel_pages_count (mm C) = 0"
    and "5 * page_count T \<le> card (all_pages - used_pages_of s)"
  shows "\<exists>s' tabC AC. copy_virt_memory (qc + VA_START) s = Inr (0, s') \<and>
      addr_space s' (qc + VA_START) tabC AC \<and> dom AC = {vpn (nth_va T j) | j. j < page_count T} \<and>
      inj_on AC (dom AC) \<and> addr_space s' (current s) tabP AP \<and> load_task (mem s') (current s) = T \<and>
      user_pages_count (mm (load_task (mem s') (qc + VA_START))) = user_pages_count (mm T) \<and>
      s' = s\<lparr>mem := mem s', mem_map := mem_map s'\<rparr> \<and> used_pages_of s \<subseteq> used_pages_of s' \<and>
      ran tabC \<inter> used_pages_of s = {} \<and>
      ran tabC \<subseteq> used_pages_of s' \<and> ran AC \<inter> ran tabC = {} \<and>
      (\<forall>j < page_count T. nth_va (load_task (mem s') (qc + VA_START)) j = nth_va T j) \<and>
      (\<forall>b. untouched s (qc + VA_START) b \<longrightarrow> (\<forall>y < 4096. mem s' (b + y) = mem s (b + y))) \<and>
      (\<forall>y. outside_mm y \<longrightarrow> mem s' (qc + VA_START + y) = mem s (qc + VA_START + y)) \<and>
      (\<forall>va p'. AC (vpn va) = Some p' \<longrightarrow> p' \<in> used_pages_of s' - used_pages_of s \<and>
         user_walk (mem s') (mem s' (qc + VA_START + off_pgd)) va = Some (p' + (va AND mask PAGE_SHIFT)) \<and>
         same_page (mem s') p' (mem s) (the (AP (vpn va))))"
proof -
  have start: "copying s (current s) qp tabP AP (qc + VA_START) qc 0 s Map.empty Map.empty"
    using assms(15) unfolding assms(5)
    by (rule copying_start [OF assms(1,2,8-10) assms(11) [symmetric] assms(12-14)])
  have "0 + page_count T = page_count (load_task (mem s) (current s))" by (simp add: assms(5))
  from copy_loop [OF assms(6) [unfolded assms(5)] assms(7) [unfolded assms(5)] assms(3,4) this start]
  obtain s' tabC AC where run: "copy_virt_memory (qc + VA_START) s = Inr (0, s')"
    and cp: "copying s (current s) qp tabP AP (qc + VA_START) qc (page_count T) s' tabC AC"
    unfolding assms(5) [symmetric] copy_virt_memory_def by blast
  note facts = cp [unfolded copying_def assms(5) [symmetric]]
  have spC: "addr_space s' (qc + VA_START) tabC AC" and domA: "dom AC = {vpn (nth_va T j) | j. j < page_count T}"
    and ranA: "ran AC \<subseteq> used_pages_of s' - used_pages_of s - ran tabC"
    and same: "\<forall>j < page_count T. same_page (mem s') (the (AC (vpn (nth_va T j)))) (mem s) (the (AP (vpn (nth_va T j))))"
    using facts by blast+
  have uc: "user_pages_count (mm (load_task (mem s') (qc + VA_START))) = user_pages_count (mm T)"
  proof -
    have "user_pages_count (mm (load_task (mem s') (qc + VA_START))) = word_of_nat (page_count T)"
      using facts by blast
    then show ?thesis by (simp add: page_count_def)
  qed
  have "task_page s' tabC qc (qc + VA_START)" using facts by blast
  then have tabs: "ran tabC \<subseteq> used_pages_of s'" "ran AC \<inter> ran tabC = {}"
    using task_pageD(4) ranA by blast+
  have "p' \<in> used_pages_of s' - used_pages_of s \<and>
      user_walk (mem s') (mem s' (qc + VA_START + off_pgd)) va = Some (p' + (va AND mask PAGE_SHIFT)) \<and>
      same_page (mem s') p' (mem s) (the (AP (vpn va)))" if va: "AC (vpn va) = Some p'" for va p'
  proof (intro conjI)
    show used: "p' \<in> used_pages_of s' - used_pages_of s" using va ranA by (auto intro: ranI)
    then have "p' \<in> all_pages" using used_pages_subset by blast
    moreover have "mem s' (qc + VA_START + off_pgd) \<noteq> 0" using spC va by (auto simp: addr_space_def)
    ultimately show "user_walk (mem s') (mem s' (qc + VA_START + off_pgd)) va = Some (p' + (va AND mask PAGE_SHIFT))"
      using addr_space_walk [OF spC, of va] va page_or_offset by simp
    obtain j where "j < page_count T" "vpn va = vpn (nth_va T j)" using domA va by blast
    then show "same_page (mem s') p' (mem s) (the (AP (vpn va)))" using same va by auto
  qed
  moreover note run uc tabs
  moreover have "addr_space s' (current s) tabP AP" "load_task (mem s') (current s) = T" "inj_on AC (dom AC)"
      "s' = s\<lparr>mem := mem s', mem_map := mem_map s'\<rparr>" "used_pages_of s \<subseteq> used_pages_of s'"
      "ran tabC \<inter> used_pages_of s = {}" "\<forall>j < page_count T. nth_va (load_task (mem s') (qc + VA_START)) j = nth_va T j"
      "\<forall>b. untouched s (qc + VA_START) b \<longrightarrow> (\<forall>y < 4096. mem s' (b + y) = mem s (b + y))"
      "\<forall>y. outside_mm y \<longrightarrow> mem s' (qc + VA_START + y) = mem s (qc + VA_START + y)"
    using facts by blast+
  ultimately show ?thesis using spC domA
    by (intro exI [of _ s'] exI [of _ tabC] exI [of _ AC] conjI) (assumption | blast)+
qed

section \<open>Property\<close>

text \<open>
  C6. \<open>copy_virt_memory(child)\<close>, called when the current task (its tables active in
  \<open>ttbr0_el1\<close>) has at most 3 recorded user pages, each mapped, and 5 free pages for each of
  them: it returns 0, and the child, which had no pages, gets a new page for every one of
  the parent's. At every address of such a page the child's page tables lead to a page that
  was free before, different for different pages, with the contents of the parent's page;
  the child's record lists the parent's addresses, and its pages and tables are different pages.
  The parent's struct and tables, every page that was not free and, of the child's own page,
  all but its \<open>mm_struct\<close> keep their contents. (More pages may overflow \<open>kernel_pages\<close>, which map_page does not check.)
\<close>

theorem copy_virt_memory_copies:
  assumes "task_page s tabP qp (current s)" and "addr_space s (current s) tabP AP"
    and "mem s (current s + off_pgd) \<noteq> 0" and "ttbr0_el1 (cpu s) = mem s (current s + off_pgd)"
    and "T = load_task (mem s) (current s)" and "page_count T \<le> 3"
    and "parent_pages s T AP (insert qc (insert qp (ran tabP)))"
    and "qc \<in> used_pages_of s" and "qc \<notin> ran tabP" and "qc \<noteq> qp"
    and "C = load_task (mem s) (qc + VA_START)" and "pgd (mm C) = 0"
    and "user_pages_count (mm C) = 0" and "kernel_pages_count (mm C) = 0"
    and "5 * page_count T \<le> card (all_pages - used_pages_of s)"
  shows "\<exists>s' tabC AC. copy_virt_memory (qc + VA_START) s = Inr (0, s') \<and>
      addr_space s' (qc + VA_START) tabC AC \<and> dom AC = {vpn (nth_va T j) | j. j < page_count T} \<and>
      inj_on AC (dom AC) \<and> addr_space s' (current s) tabP AP \<and> load_task (mem s') (current s) = T \<and>
      user_pages_count (mm (load_task (mem s') (qc + VA_START))) = user_pages_count (mm T) \<and>
      s' = s\<lparr>mem := mem s', mem_map := mem_map s'\<rparr> \<and> used_pages_of s \<subseteq> used_pages_of s' \<and>
      ran tabC \<inter> used_pages_of s = {} \<and>
      ran tabC \<subseteq> used_pages_of s' \<and> ran AC \<inter> ran tabC = {} \<and>
      (\<forall>j < page_count T. nth_va (load_task (mem s') (qc + VA_START)) j = nth_va T j) \<and>
      (\<forall>b. untouched s (qc + VA_START) b \<longrightarrow> (\<forall>y < 4096. mem s' (b + y) = mem s (b + y))) \<and>
      (\<forall>y. outside_mm y \<longrightarrow> mem s' (qc + VA_START + y) = mem s (qc + VA_START + y)) \<and>
      (\<forall>va p'. AC (vpn va) = Some p' \<longrightarrow> p' \<in> used_pages_of s' - used_pages_of s \<and>
         user_walk (mem s') (mem s' (qc + VA_START + off_pgd)) va = Some (p' + (va AND mask PAGE_SHIFT)) \<and>
         same_page (mem s') p' (mem s) (the (AP (vpn va))))"
  by (rule copy_virt_run [OF assms])

text \<open>A parent with one page: the first of \<open>two_tasks\<close>, after a page was mapped at 0x1000.\<close>

definition one_page :: kernel where
  "one_page = (let s = map_page (page_at 0 + VA_START) 0x1000 (page_at 2) two_tasks
     in s\<lparr>cpu := reset_cpu\<lparr>ttbr0_el1 := mem s (page_at 0 + VA_START + off_pgd)\<rparr>\<rparr>)"

theorem copy_virt_memory_copies_witness:
  "\<exists>s'. copy_virt_memory (page_at 1 + VA_START) one_page = Inr (0, s') \<and>
    user_pages_count (mm (load_task (mem s') (page_at 1 + VA_START))) = 1"
proof -
  let ?t = "page_at 0 + VA_START" and ?s = "map_page (page_at 0 + VA_START) 0x1000 (page_at 2) two_tasks"
  have zero: "mem two_tasks = (\<lambda>_. 0)" by (simp add: two_tasks_def)
  obtain r tab new where spec:
    "addr_space ?s ?t tab (Map.empty(vpn 0x1000 \<mapsto> page_at 2))" "mem ?s (?t + off_pgd) = r" "r \<noteq> 0"
    "ran tab = ran (Map.empty :: tables) \<union> set new" "length new \<le> 4" "distinct new"
    "set new \<inter> used_pages_of two_tasks = {}" "used_pages_of ?s = used_pages_of two_tasks \<union> set new"
    "?s = two_tasks\<lparr>mem := mem ?s, mem_map := mem_map ?s\<rparr>"
    "\<forall>b y. page_aligned b \<and> y < 4096 \<and> b \<noteq> ?t \<and> b - VA_START \<notin> ran tab \<longrightarrow> mem ?s (b + y) = mem two_tasks (b + y)"
    "load_task (mem ?s) ?t = (load_task (mem two_tasks) ?t)\<lparr>mm := \<lparr>pgd = r,
       user_pages_count = user_pages_count (mm (load_task (mem two_tasks) ?t)) + 1,
       user_pages = (user_pages (mm (load_task (mem two_tasks) ?t)))
         [unat (user_pages_count (mm (load_task (mem two_tasks) ?t))) := \<lparr>phys_addr = page_at 2, virt_addr = 0x1000\<rparr>],
       kernel_pages_count = kernel_pages_count (mm (load_task (mem two_tasks) ?t)) + word_of_nat (length new),
       kernel_pages = record_pages (kernel_pages (mm (load_task (mem two_tasks) ?t)))
         (unat (kernel_pages_count (mm (load_task (mem two_tasks) ?t)))) new\<rparr>\<rparr>"
    by (rule map_page_spec [OF two_tasks_tasks(1) two_tasks_space page_2 two_tasks_room two_tasks_counts,
          of "0x1000"]) (rule that)
  have one: "mem one_page = mem ?s" "current one_page = ?t" "ttbr0_el1 (cpu one_page) = r"
      "used_pages_of one_page = used_pages_of ?s"
    using spec(2) arg_cong [OF spec(9), of current]
    by (simp_all add: one_page_def Let_def two_tasks_current used_pages_of_def)
  have neq: "page_at 1 \<noteq> page_at 0" "page_at 2 \<noteq> page_at 0" "page_at 2 \<noteq> page_at 1"
    by (simp_all add: page_at_inj map_values)
  have tp: "task_page one_page tab (page_at 0) (current one_page)"
    using spec(4,7) by (auto simp: task_page_def one spec(8) two_tasks_used)
  have space: "addr_space one_page (current one_page) tab (Map.empty(vpn 0x1000 \<mapsto> page_at 2))"
    using spec(1) by (simp add: addr_space_def one)
  have T: "page_count (load_task (mem one_page) (current one_page)) = 1"
      "user_pages_count (mm (load_task (mem one_page) (current one_page))) = 1"
      "nth_va (load_task (mem one_page) (current one_page)) 0 = 0x1000"
    unfolding page_count_def nth_va_def one spec(11) by (simp_all add: zero load_task_def ld32_def MAX_PROCESS_PAGES_def)
  have child: "load_task (mem one_page) (page_at 1 + VA_START) = load_task (\<lambda>_. 0) (page_at 1 + VA_START)"
    unfolding one zero [symmetric]
  proof (rule load_task_cong)
    have "page_aligned (page_at 1 + VA_START)" by (rule kernel_page_aligned) (simp add: map_values)
    moreover fix y :: u64 assume "y < 4096"
    ultimately show "mem ?s (page_at 1 + VA_START + y) = mem two_tasks (page_at 1 + VA_START + y)"
      using spec(4,7) neq by (intro spec(10) [rule_format]) (auto simp: two_tasks_used)
  qed
  have parent: "parent_pages one_page (load_task (mem one_page) (current one_page))
      (Map.empty(vpn 0x1000 \<mapsto> page_at 2)) (insert (page_at 1) (insert (page_at 0) (ran tab)))"
    unfolding parent_pages_def T(1)
  proof (intro conjI allI impI)
    fix j :: nat assume "j < 1"
    then have j: "nth_va (load_task (mem one_page) (current one_page)) j = 0x1000" using T(3) by simp
    show "page_aligned (nth_va (load_task (mem one_page) (current one_page)) j)"
        "nth_va (load_task (mem one_page) (current one_page)) j < push_bit 48 1"
      unfolding j by (simp_all add: page_aligned_def)
    have "page_at 2 \<in> used_pages_of one_page" "page_at 2 \<notin> ran tab"
      using spec(4,7) by (auto simp: one(4) spec(8) two_tasks_used)
    then show "\<exists>p. (Map.empty(vpn 0x1000 \<mapsto> page_at 2)) (vpn (nth_va (load_task (mem one_page) (current one_page)) j)) = Some p \<and>
        p \<in> used_pages_of one_page - insert (page_at 1) (insert (page_at 0) (ran tab))"
      unfolding j using neq by simp
  qed (simp add: inj_on_def)
  have "card (all_pages - used_pages_of two_tasks) - card (set new) \<le> card (all_pages - used_pages_of two_tasks - set new)"
    by (rule diff_card_le_card_Diff) simp
  then have "5 \<le> card (all_pages - used_pages_of two_tasks - set new)"
    using two_tasks_free spec(5) card_length [of new] by linarith
  moreover have "all_pages - used_pages_of two_tasks - set new = all_pages - used_pages_of one_page"
    unfolding one(4) spec(8) by auto
  ultimately have free: "5 * page_count (load_task (mem one_page) (current one_page)) \<le> card (all_pages - used_pages_of one_page)"
    by (simp add: T)
  have c: "page_at 1 \<in> used_pages_of one_page" "page_at 1 \<notin> ran tab"
    using spec(4,7) by (auto simp: one spec(8) two_tasks_used)
  have pgd: "mem one_page (current one_page + off_pgd) \<noteq> 0"
      "ttbr0_el1 (cpu one_page) = mem one_page (current one_page + off_pgd)"
    using spec(2,3) by (simp_all add: one)
  have few: "page_count (load_task (mem one_page) (current one_page)) \<le> 3" by (simp add: T)
  have empty: "pgd (mm (load_task (mem one_page) (page_at 1 + VA_START))) = 0"
      "user_pages_count (mm (load_task (mem one_page) (page_at 1 + VA_START))) = 0"
      "kernel_pages_count (mm (load_task (mem one_page) (page_at 1 + VA_START))) = 0"
    unfolding child by (simp_all add: load_task_def ld32_def)
  obtain s' where "copy_virt_memory (page_at 1 + VA_START) one_page = Inr (0, s')"
    "user_pages_count (mm (load_task (mem s') (page_at 1 + VA_START))) =
     user_pages_count (mm (load_task (mem one_page) (current one_page)))"
    using copy_virt_memory_copies [OF tp space pgd refl few parent c neq(1) refl empty free] by blast
  then show ?thesis unfolding T(2) by blast
qed

end
