(* ===== verification/Sched.thy ===== *)
theory Sched
  imports Page_Alloc
begin

text \<open>
  The scheduler (\<open>sched.c\<close>, \<open>sched.S\<close>): preemption counters, the choice of the next task,
  the context switch, the timer tick and the end of a process, for lessons 4, 5 and 6. The
  loop of \<open>_schedule\<close> is the same in all three; the lessons differ in \<open>switch_to\<close> (lesson 6
  loads the page tables of the next task) and in \<open>exit_process\<close> (lesson 5 frees a stack).

  A call of \<open>_schedule\<close> that switches tasks does not return to its caller: the processor goes
  on in the next task, at the address \<open>cpu_switch_to\<close> loaded into \<open>x30\<close>. That is inside the
  task's own earlier call of \<open>_schedule\<close>, or \<open>ret_from_fork\<close>, which calls \<open>schedule_tail\<close>:
  in both cases the next thing done is \<open>preempt_enable()\<close>, for the new \<open>current\<close>. The model
  of \<open>_schedule\<close> ends with that call.
\<close>

unbundle bit_operations_syntax

section \<open>Fields of a task\<close>

definition get_field :: "u64 \<Rightarrow> addr \<Rightarrow> kernel \<Rightarrow> u64" where
  "get_field off p s = mem s (p + off)"

definition set_field :: "u64 \<Rightarrow> addr \<Rightarrow> u64 \<Rightarrow> kernel \<Rightarrow> kernel" where
  "set_field off p v s = s\<lparr>mem := (mem s)(p + off := v)\<rparr>"

lemmas fields [field_defs] = get_field_def set_field_def

definition preempt_disable :: "kernel \<Rightarrow> kernel" where
  "preempt_disable s =
     set_field off_preempt_count (current s) (get_field off_preempt_count (current s) s + 1) s"

definition preempt_enable :: "kernel \<Rightarrow> kernel" where
  "preempt_enable s =
     set_field off_preempt_count (current s) (get_field off_preempt_count (current s) s - 1) s"

definition schedule_tail :: "kernel \<Rightarrow> kernel" where
  "schedule_tail s = preempt_enable s"

section \<open>The choice of the next task\<close>

text \<open>
  The first inner loop, from the entry with number \<open>i\<close> on. \<open>c\<close> and \<open>next\<close> are \<open>int\<close>s: the
  comparison \<open>p->counter > c\<close> is made on 64 bits, the assignment \<open>c = p->counter\<close> keeps the
  low 32.
\<close>

fun sched_scan :: "memory \<Rightarrow> addr list \<Rightarrow> nat \<Rightarrow> u32 \<Rightarrow> nat \<Rightarrow> u32 \<times> nat" where
  "sched_scan m [] i c nxt = (c, nxt)"
| "sched_scan m (p # ps) i c nxt =
     (if p \<noteq> 0 \<and> m (p + off_state) = TASK_RUNNING \<and> sint (m (p + off_counter)) > sint c
      then sched_scan m ps (Suc i) (ucast (m (p + off_counter))) i
      else sched_scan m ps (Suc i) c nxt)"

text \<open>The second: \<open>p->counter = (p->counter >> 1) + p->priority\<close>, an arithmetic shift.\<close>

definition recharged :: "u64 \<Rightarrow> u64 \<Rightarrow> u64" where
  "recharged cnt pri = signed_drop_bit 1 cnt + pri"

fun sched_recharge :: "addr list \<Rightarrow> memory \<Rightarrow> memory" where
  "sched_recharge [] m = m"
| "sched_recharge (p # ps) m =
     sched_recharge ps
       (if p \<noteq> 0
        then m(p + off_counter := recharged (m (p + off_counter)) (m (p + off_priority)))
        else m)"

text \<open>\<open>while (1)\<close>: \<open>None\<close> if no scan ever finds a counter other than 0.\<close>

partial_function (option) sched_loop :: "addr list \<Rightarrow> memory \<Rightarrow> (nat \<times> memory) option" where
  "sched_loop ts m =
     (case sched_scan m ts 0 (-1) 0 of
        (c, nxt) \<Rightarrow> if c \<noteq> 0 then Some (nxt, m) else sched_loop ts (sched_recharge ts m))"

section \<open>The context switch\<close>

text \<open>
  \<open>cpu_switch_to\<close> (\<open>x0\<close> is \<open>prev\<close>, \<open>x1\<close> is \<open>next\<close>): the callee-saved registers, the stack
  pointer and the return address go to \<open>prev->cpu_context\<close> and come from
  \<open>next->cpu_context\<close>; \<open>x8\<close>, \<open>x9\<close>, \<open>x10\<close> are scratch.
\<close>

definition saved_context :: "cpu \<Rightarrow> cpu_context" where
  "saved_context c = \<lparr>x19 = gpr c 19, x20 = gpr c 20, x21 = gpr c 21, x22 = gpr c 22,
     x23 = gpr c 23, x24 = gpr c 24, x25 = gpr c 25, x26 = gpr c 26, x27 = gpr c 27,
     x28 = gpr c 28, fp = gpr c 29, sp = sp_el1 c, pc = gpr c 30\<rparr>"

definition restored_regs :: "cpu_context \<Rightarrow> cpu \<Rightarrow> cpu" where
  "restored_regs k c = c\<lparr>gpr := (gpr c)(19 := x19 k, 20 := x20 k, 21 := x21 k, 22 := x22 k,
     23 := x23 k, 24 := x24 k, 25 := x25 k, 26 := x26 k, 27 := x27 k, 28 := x28 k, 29 := fp k,
     9 := sp k, 30 := pc k), sp_el1 := sp k\<rparr>"

definition cpu_switch_to :: "addr \<Rightarrow> addr \<Rightarrow> kernel \<Rightarrow> kernel" where
  "cpu_switch_to prev nxt s =
     (let m = store_words (prev + THREAD_CPU_CONTEXT) (context_words (saved_context (cpu s))) (mem s);
          c = (cpu s)\<lparr>gpr := (gpr (cpu s))(0 := prev, 1 := nxt, 10 := THREAD_CPU_CONTEXT,
                8 := nxt + THREAD_CPU_CONTEXT + 96)\<rparr>
      in s\<lparr>mem := m, cpu := restored_regs (load_context m (nxt + THREAD_CPU_CONTEXT)) c\<rparr>)"

text \<open>\<open>set_pgd\<close>: the write of \<open>ttbr0_el1\<close>; the translation caches it flushes are not modelled.\<close>

definition set_pgd :: "u64 \<Rightarrow> kernel \<Rightarrow> kernel" where
  "set_pgd v s = s\<lparr>cpu := (cpu s)\<lparr>ttbr0_el1 := v\<rparr>\<rparr>"

definition switch_to :: "addr \<Rightarrow> kernel \<Rightarrow> kernel" where
  "switch_to nxt s =
     (if current s = nxt then s
      else let prev = current s; s = s\<lparr>current := nxt\<rparr>; s = set_pgd (mem s (nxt + off_pgd)) s
           in cpu_switch_to prev nxt s)"

definition switch_to_l5 :: "addr \<Rightarrow> nat \<Rightarrow> kernel \<Rightarrow> kernel" where
  "switch_to_l5 nxt index s =
     (if current s = nxt then s
      else let prev = current s; s = s\<lparr>current := nxt\<rparr> in cpu_switch_to prev nxt s)"

definition switch_to_l4 :: "addr \<Rightarrow> kernel \<Rightarrow> kernel" where
  "switch_to_l4 nxt s =
     (if current s = nxt then s
      else let prev = current s; s = s\<lparr>current := nxt\<rparr> in cpu_switch_to prev nxt s)"

section \<open>Scheduling\<close>

text \<open>\<open>_schedule\<close>, for the \<open>switch_to\<close> of a lesson, which gets the task and its number.\<close>

definition schedule_with :: "(addr \<Rightarrow> nat \<Rightarrow> kernel \<Rightarrow> kernel) \<Rightarrow> kernel \<Rightarrow> kernel option" where
  "schedule_with sw s =
     (let s = preempt_disable s
      in map_option (\<lambda>(nxt, m). preempt_enable (sw (task s ! nxt) nxt (s\<lparr>mem := m\<rparr>)))
           (sched_loop (task s) (mem s)))"

definition do_schedule :: "kernel \<Rightarrow> kernel option" where
  "do_schedule s = schedule_with (\<lambda>p i. switch_to p) s"

definition do_schedule_l5 :: "kernel \<Rightarrow> kernel option" where
  "do_schedule_l5 s = schedule_with switch_to_l5 s"

definition do_schedule_l4 :: "kernel \<Rightarrow> kernel option" where
  "do_schedule_l4 s = schedule_with (\<lambda>p i. switch_to_l4 p) s"

definition schedule :: "kernel \<Rightarrow> kernel option" where
  "schedule s = do_schedule (set_field off_counter (current s) 0 s)"

definition schedule_l5 :: "kernel \<Rightarrow> kernel option" where
  "schedule_l5 s = do_schedule_l5 (set_field off_counter (current s) 0 s)"

definition schedule_l4 :: "kernel \<Rightarrow> kernel option" where
  "schedule_l4 s = do_schedule_l4 (set_field off_counter (current s) 0 s)"

section \<open>Interrupt mask and timer tick\<close>

definition enable_irq :: "kernel \<Rightarrow> kernel" where
  "enable_irq s = s\<lparr>cpu := (cpu s)\<lparr>irq_masked := False\<rparr>\<rparr>"

definition disable_irq :: "kernel \<Rightarrow> kernel" where
  "disable_irq s = s\<lparr>cpu := (cpu s)\<lparr>irq_masked := True\<rparr>\<rparr>"

text \<open>
  \<open>timer_tick\<close>, for the \<open>_schedule\<close> of a lesson. When \<open>_schedule\<close> has switched to another task, the
  call of \<open>disable_irq\<close> after it waits for the interrupted task to have the processor again.
\<close>

definition tick_end :: "addr \<Rightarrow> kernel \<Rightarrow> kernel" where
  "tick_end p s = (if current s = p then disable_irq s else s)"

definition tick_with :: "(kernel \<Rightarrow> kernel option) \<Rightarrow> kernel \<Rightarrow> kernel option" where
  "tick_with sched s =
     (let s = set_field off_counter (current s) (get_field off_counter (current s) s - 1) s
      in if sint (get_field off_counter (current s) s) > 0 \<or>
            sint (get_field off_preempt_count (current s) s) > 0
         then Some s
         else let s = set_field off_counter (current s) 0 s; s = enable_irq s
              in map_option (tick_end (current s)) (sched s))"

definition timer_tick :: "kernel \<Rightarrow> kernel option" where
  "timer_tick s = tick_with do_schedule s"

definition timer_tick_l5 :: "kernel \<Rightarrow> kernel option" where
  "timer_tick_l5 s = tick_with do_schedule_l5 s"

definition timer_tick_l4 :: "kernel \<Rightarrow> kernel option" where
  "timer_tick_l4 s = tick_with do_schedule_l4 s"

section \<open>The end of a process\<close>

text \<open>The loop that looks for \<open>current\<close> in \<open>task\<close> and marks the first entry it finds.\<close>

fun mark_zombie :: "addr \<Rightarrow> addr list \<Rightarrow> memory \<Rightarrow> memory" where
  "mark_zombie cur [] m = m"
| "mark_zombie cur (p # ps) m =
     (if p = cur then m(p + off_state := TASK_ZOMBIE) else mark_zombie cur ps m)"

definition exit_process :: "kernel \<Rightarrow> kernel option" where
  "exit_process s =
     (let s = preempt_disable s; s = s\<lparr>mem := mark_zombie (current s) (task s) (mem s)\<rparr>
      in schedule (preempt_enable s))"

text \<open>In lesson 5 a stack pointer that is no page makes \<open>free_page\<close> index out of bounds.\<close>

definition exit_process_l5 :: "kernel \<Rightarrow> fault + kernel option" where
  "exit_process_l5 s =
     (let s = preempt_disable s; s = s\<lparr>mem := mark_zombie (current s) (task s) (mem s)\<rparr>
      in res_bind (if get_field off_stack_l5 (current s) s \<noteq> 0
                   then free_page (get_field off_stack_l5 (current s) s) s else Inr s)
           (\<lambda>s. Inr (schedule_l5 (preempt_enable s))))"

section \<open>The contract of a context switch\<close>

text \<open>
  What \<open>_schedule\<close> relies on, whichever lesson's \<open>switch_to\<close> it calls: the new task is
  current, the old one's registers are in its \<open>cpu_context\<close> and the new one's are in the
  processor, and nothing else in memory changes. \<open>ctx p\<close> are the addresses of the
  \<open>cpu_context\<close> of the task at \<open>p\<close>.
\<close>

definition ctx :: "addr \<Rightarrow> addr set" where
  "ctx p = {p + 8 * word_of_nat i | i. i < 13}"

lemma ctx_offset: "y < 13 \<Longrightarrow> p + 8 * word_of_nat y \<in> ctx p"
  by (auto simp: ctx_def)

lemma not_in_ctx:
  assumes "104 \<le> unat y"
  shows "p + y \<notin> ctx p"
proof
  assume "p + y \<in> ctx p"
  then obtain i where "i < 13" "y = 8 * word_of_nat i" by (auto simp: ctx_def)
  then show False using assms page_run_offset(2) [of i] by simp
qed

lemma load_context_cong:
  assumes "\<And>x. x \<in> ctx p \<Longrightarrow> m' x = m x"
  shows "load_context m' p = load_context m p"
proof -
  have "m' (p + 8 * word_of_nat i) = m (p + 8 * word_of_nat i)" if "i < 13" for i
    using that by (intro assms ctx_offset)
  from this [of 0] this [of 1] this [of 2] this [of 3] this [of 4] this [of 5] this [of 6]
    this [of 7] this [of 8] this [of 9] this [of 10] this [of 11] this [of 12]
  show ?thesis by (simp add: load_context_def)
qed

locale context_switch =
  fixes sw :: "addr \<Rightarrow> nat \<Rightarrow> kernel \<Rightarrow> kernel"
  assumes sw_same: "current s = p \<Longrightarrow> sw p i s = s"
    and sw_current: "current (sw p i s) = p"
    and sw_mem: "x \<notin> ctx (current s) \<Longrightarrow> mem (sw p i s) x = mem s x"
    and sw_rest: "task (sw p i s) = task s" "nr_tasks (sw p i s) = nr_tasks s"
      "mem_map (sw p i s) = mem_map s" "irq_masked (cpu (sw p i s)) = irq_masked (cpu s)"
    and sw_saves: "current s \<noteq> p \<Longrightarrow> load_context (mem (sw p i s)) (current s) = saved_context (cpu s)"
    and sw_loads: "current s \<noteq> p \<Longrightarrow> ctx (current s) \<inter> ctx p = {} \<Longrightarrow>
      saved_context (cpu (sw p i s)) = load_context (mem s) p"
begin

text \<open>Away and back: a task goes on with the registers it was switched out with.\<close>

lemma switch_and_back:
  assumes "current s \<noteq> p" and "ctx (current s) \<inter> ctx (current t) = {}" "current t \<noteq> current s"
    and "\<And>x. x \<in> ctx (current s) \<Longrightarrow> mem t x = mem (sw p i s) x"
  shows "saved_context (cpu (sw (current s) j t)) = saved_context (cpu s)"
proof -
  have "saved_context (cpu (sw (current s) j t)) = load_context (mem t) (current s)"
    using assms(2,3) by (intro sw_loads) auto
  also have "\<dots> = load_context (mem (sw p i s)) (current s)"
    by (rule load_context_cong) (rule assms(4))
  also have "\<dots> = saved_context (cpu s)" by (rule sw_saves [OF assms(1)])
  finally show ?thesis .
qed

end

lemma cpu_switch_to_mem:
  "x \<notin> ctx prev \<Longrightarrow> mem (cpu_switch_to prev nxt s) x = mem s x"
  by (auto simp: cpu_switch_to_def Let_def THREAD_CPU_CONTEXT_def ctx_def intro!: store_words_outside)

lemma cpu_switch_to_saves:
  "load_context (mem (cpu_switch_to prev nxt s)) prev = saved_context (cpu s)"
  by (rule load_context_words)
    (simp add: cpu_switch_to_def Let_def THREAD_CPU_CONTEXT_def store_words_inside)

lemma cpu_switch_to_loads:
  assumes "ctx prev \<inter> ctx nxt = {}"
  shows "saved_context (cpu (cpu_switch_to prev nxt s)) = load_context (mem s) nxt"
proof -
  have "load_context (mem (cpu_switch_to prev nxt s)) nxt = load_context (mem s) nxt"
    using assms by (intro load_context_cong cpu_switch_to_mem) auto
  moreover have "saved_context (cpu (cpu_switch_to prev nxt s)) =
      load_context (mem (cpu_switch_to prev nxt s)) nxt"
    by (simp add: cpu_switch_to_def Let_def THREAD_CPU_CONTEXT_def saved_context_def restored_regs_def)
  ultimately show ?thesis by simp
qed

lemma cpu_switch_to_rest:
  "current (cpu_switch_to prev nxt s) = current s" "task (cpu_switch_to prev nxt s) = task s"
  "nr_tasks (cpu_switch_to prev nxt s) = nr_tasks s" "mem_map (cpu_switch_to prev nxt s) = mem_map s"
  "irq_masked (cpu (cpu_switch_to prev nxt s)) = irq_masked (cpu s)"
  by (simp_all add: cpu_switch_to_def Let_def restored_regs_def)

lemma set_pgd_rest:
  "mem (set_pgd v s) = mem s" "current (set_pgd v s) = current s" "task (set_pgd v s) = task s"
  "nr_tasks (set_pgd v s) = nr_tasks s" "mem_map (set_pgd v s) = mem_map s"
  "irq_masked (cpu (set_pgd v s)) = irq_masked (cpu s)"
  "saved_context (cpu (set_pgd v s)) = saved_context (cpu s)" "ttbr0_el1 (cpu (set_pgd v s)) = v"
  by (simp_all add: set_pgd_def saved_context_def)

lemmas switch_facts = cpu_switch_to_mem cpu_switch_to_saves cpu_switch_to_loads cpu_switch_to_rest
  set_pgd_rest

interpretation switch_l6: context_switch "\<lambda>p i. switch_to p"
  by unfold_locales (auto simp: switch_to_def Let_def switch_facts)

interpretation switch_l5: context_switch switch_to_l5
  by unfold_locales (auto simp: switch_to_l5_def Let_def switch_facts)

interpretation switch_l4: context_switch "\<lambda>p i. switch_to_l4 p"
  by unfold_locales (auto simp: switch_to_l4_def Let_def switch_facts)

end
