(* ===== verification/Sched_Choice.thy ===== *)
theory Sched_Choice
  imports Sched
begin

text \<open>
  What \<open>_schedule\<close> chooses: the reference definition of the choice, the proof that the loop
  ends, and the effect of \<open>_schedule\<close>, \<open>timer_tick\<close> and \<open>exit_process\<close> on the state.
\<close>

unbundle bit_operations_syntax

section \<open>Running tasks\<close>

definition runs :: "memory \<Rightarrow> addr \<Rightarrow> bool" where
  "runs m p \<longleftrightarrow> p \<noteq> 0 \<and> m (p + off_state) = TASK_RUNNING"

definition cnt :: "memory \<Rightarrow> addr \<Rightarrow> int" where
  "cnt m p = sint (m (p + off_counter))"

definition pri :: "memory \<Rightarrow> addr \<Rightarrow> int" where
  "pri m p = sint (m (p + off_priority))"

text \<open>
  The reference: the number of the first running task with the greatest counter, among those
  whose counter is not negative.
\<close>

definition choice :: "memory \<Rightarrow> addr list \<Rightarrow> nat \<Rightarrow> bool" where
  "choice m ts k \<longleftrightarrow> k < length ts \<and> runs m (ts ! k) \<and> 0 \<le> cnt m (ts ! k) \<and>
     (\<forall>j < length ts. runs m (ts ! j) \<longrightarrow> cnt m (ts ! j) \<le> cnt m (ts ! k)) \<and>
     (\<forall>j < k. runs m (ts ! j) \<longrightarrow> cnt m (ts ! j) < cnt m (ts ! k))"

definition no_choice :: "memory \<Rightarrow> addr list \<Rightarrow> bool" where
  "no_choice m ts \<longleftrightarrow> (\<forall>p \<in> set ts. runs m p \<longrightarrow> cnt m p < 0)"

lemma choice_unique:
  assumes "choice m ts k" "choice m ts l"
  shows "k = l"
proof (rule ccontr)
  assume "k \<noteq> l"
  then consider "k < l" | "l < k" by linarith
  then show False using assms unfolding choice_def by cases (meson leD)+
qed

section \<open>The scan\<close>

lemma ucast_counter:
  fixes v :: u64
  assumes "- (2 ^ 31) \<le> sint v" "sint v < 2 ^ 31"
  shows "sint (ucast v :: u32) = sint v"
proof -
  have "sint (ucast v :: u32) = signed_take_bit 31 (uint (ucast v :: u32))"
    by (simp add: sint_uint)
  also have "\<dots> = signed_take_bit 31 (uint v)"
    by (simp add: unsigned_ucast_eq signed_take_bit_take_bit)
  also have "\<dots> = signed_take_bit 31 (signed_take_bit 63 (uint v))"
    by (simp add: signed_take_bit_signed_take_bit)
  also have "\<dots> = signed_take_bit 31 (sint v)" by (simp add: sint_uint)
  also have "\<dots> = sint v" using assms by (intro signed_take_bit_int_eq_self) simp_all
  finally show ?thesis .
qed

text \<open>Entry \<open>k\<close> is the first with the greatest counter \<open>v\<close>, which is above \<open>l\<close>.\<close>

definition best :: "memory \<Rightarrow> addr list \<Rightarrow> int \<Rightarrow> nat \<Rightarrow> int \<Rightarrow> bool" where
  "best m ps l k v \<longleftrightarrow> k < length ps \<and> runs m (ps ! k) \<and> cnt m (ps ! k) = v \<and> l < v \<and>
     (\<forall>j < length ps. runs m (ps ! j) \<longrightarrow> cnt m (ps ! j) \<le> v) \<and>
     (\<forall>j < k. runs m (ps ! j) \<longrightarrow> cnt m (ps ! j) < v)"

lemma best_0:
  "runs m p \<Longrightarrow> l < cnt m p \<Longrightarrow> \<forall>q \<in> set ps. runs m q \<longrightarrow> cnt m q \<le> cnt m p \<Longrightarrow>
    best m (p # ps) l 0 (cnt m p)"
  by (auto simp: best_def nth_Cons')

lemma best_Suc:
  assumes "best m ps l' k v" "runs m p \<longrightarrow> cnt m p < v" "l < v"
  shows "best m (p # ps) l (Suc k) v"
  using assms by (auto simp: best_def nth_Cons')

text \<open>The scan from entry \<open>i\<close> on, started with \<open>c\<close> and \<open>nxt\<close>.\<close>

lemma sched_scan_spec:
  assumes "\<forall>p \<in> set ps. runs m p \<longrightarrow> cnt m p < 2 ^ 31" and "sched_scan m ps i c nxt = (c', n')"
  shows "(c' = c \<and> n' = nxt \<and> (\<forall>p \<in> set ps. runs m p \<longrightarrow> cnt m p \<le> sint c)) \<or>
    (\<exists>k. n' = i + k \<and> best m ps (sint c) k (sint c'))"
  using assms
proof (induction ps arbitrary: i c nxt)
  case Nil
  then show ?case by simp
next
  case (Cons p ps)
  have bound: "\<forall>p \<in> set ps. runs m p \<longrightarrow> cnt m p < 2 ^ 31" using Cons.prems(1) by simp
  show ?case
  proof (cases "runs m p \<and> sint c < cnt m p")
    case True
    let ?c = "ucast (m (p + off_counter)) :: u32"
    have c: "sint ?c = cnt m p"
      unfolding cnt_def using True Cons.prems(1) sint_ge [of c]
      by (intro ucast_counter) (auto simp: cnt_def)
    have "sched_scan m ps (Suc i) ?c i = (c', n')"
      using Cons.prems(2) True by (simp add: runs_def cnt_def)
    from Cons.IH [OF bound this] show ?thesis
    proof (elim disjE exE conjE)
      assume "c' = ?c" "n' = i" "\<forall>p \<in> set ps. runs m p \<longrightarrow> cnt m p \<le> sint ?c"
      then have "n' = i + 0 \<and> best m (p # ps) (sint c) 0 (sint c')"
        using best_0 [of m p "sint c" ps] True c by simp
      then show ?thesis by blast
    next
      fix k assume k: "n' = Suc i + k" "best m ps (sint ?c) k (sint c')"
      then have "cnt m p < sint c'" using c by (simp add: best_def)
      then have "n' = i + Suc k \<and> best m (p # ps) (sint c) (Suc k) (sint c')"
        using k best_Suc [OF k(2), of p "sint c"] True by simp
      then show ?thesis by blast
    qed
  next
    case False
    then have "sched_scan m ps (Suc i) c nxt = (c', n')"
      using Cons.prems(2) by (auto simp: runs_def cnt_def)
    from Cons.IH [OF bound this] show ?thesis
    proof (elim disjE exE conjE)
      fix k assume k: "n' = Suc i + k" "best m ps (sint c) k (sint c')"
      then have "sint c < sint c'" by (simp add: best_def)
      then have "n' = i + Suc k \<and> best m (p # ps) (sint c) (Suc k) (sint c')"
        using k best_Suc [OF k(2), of p "sint c"] False by auto
      then show ?thesis by blast
    qed (use False in auto)
  qed
qed

text \<open>The scan \<open>_schedule\<close> makes: no choice, or the choice and its counter.\<close>

lemma scan_cases:
  assumes "\<forall>p \<in> set ts. runs m p \<longrightarrow> cnt m p < 2 ^ 31"
  obtains "sched_scan m ts 0 (-1) 0 = (-1, 0)" "no_choice m ts"
  | k c where "sched_scan m ts 0 (-1) 0 = (c, k)" "choice m ts k" "sint c = cnt m (ts ! k)"
proof -
  obtain c k where run: "sched_scan m ts 0 (-1) 0 = (c, k)" by (cases "sched_scan m ts 0 (-1) 0")
  from sched_scan_spec [OF assms run] show thesis
  proof (elim disjE exE conjE)
    assume c: "c = -1" "k = 0" "\<forall>p \<in> set ts. runs m p \<longrightarrow> cnt m p \<le> sint (-1 :: u32)"
    have "no_choice m ts"
      unfolding no_choice_def
    proof (intro ballI impI)
      fix p assume "p \<in> set ts" "runs m p"
      then have "cnt m p \<le> -1" using c(3) by simp
      then show "cnt m p < 0" by linarith
    qed
    with run c(1,2) show thesis by (intro that(1)) simp_all
  next
    fix l assume l: "k = 0 + l" "best m ts (sint (-1 :: u32)) l (sint c)"
    then have "cnt m (ts ! k) = sint c" "-1 < sint c" by (simp_all add: best_def)
    then have "choice m ts k" using l unfolding best_def choice_def by simp
    then show thesis by (rule that(2) [OF run]) (simp add: \<open>cnt m (ts ! k) = sint c\<close>)
  qed
qed

section \<open>The recharge\<close>

text \<open>Different entries of \<open>task\<close> are structs that do not overlap.\<close>

definition structs_apart :: "addr list \<Rightarrow> bool" where
  "structs_apart ts \<longleftrightarrow> (\<forall>i < length ts. \<forall>j < length ts. i \<noteq> j \<longrightarrow> ts ! i \<noteq> 0 \<longrightarrow> ts ! j \<noteq> 0 \<longrightarrow>
     (\<forall>x y. unat x < 552 \<longrightarrow> unat y < 552 \<longrightarrow> ts ! i + x \<noteq> ts ! j + y))"

lemma structs_apart_Cons:
  assumes "structs_apart (p # ps)"
  shows "structs_apart ps"
    and "q \<in> set ps \<Longrightarrow> p \<noteq> 0 \<Longrightarrow> q \<noteq> 0 \<Longrightarrow> unat x < 552 \<Longrightarrow> unat y < 552 \<Longrightarrow> q + x \<noteq> p + y"
proof -
  show "structs_apart ps" using assms unfolding structs_apart_def
    by (metis Suc_less_eq length_Cons nat.inject nth_Cons_Suc)
  show "q \<in> set ps \<Longrightarrow> p \<noteq> 0 \<Longrightarrow> q \<noteq> 0 \<Longrightarrow> unat x < 552 \<Longrightarrow> unat y < 552 \<Longrightarrow> q + x \<noteq> p + y"
    using assms unfolding structs_apart_def in_set_conv_nth
    by (metis length_Cons nat.distinct(1) nth_Cons_0 nth_Cons_Suc Suc_less_eq zero_less_Suc)
qed

lemma sched_recharge_other:
  "(\<And>p. p \<in> set ts \<Longrightarrow> p \<noteq> 0 \<Longrightarrow> x \<noteq> p + off_counter) \<Longrightarrow> sched_recharge ts m x = m x"
  by (induction ts arbitrary: m) auto

lemma sched_recharge_counter:
  assumes "structs_apart ts" "p \<in> set ts" "p \<noteq> 0"
  shows "sched_recharge ts m (p + off_counter) = recharged (m (p + off_counter)) (m (p + off_priority))"
  using assms
proof (induction ts arbitrary: m)
  case (Cons q ts)
  note apart = structs_apart_Cons [OF Cons.prems(1)]
  show ?case
  proof (cases "p = q")
    case True
    have "sched_recharge ts m' (p + off_counter) = m' (p + off_counter)" for m'
      using apart(2) [of _ off_counter off_counter] True Cons.prems(3)
      by (intro sched_recharge_other) (auto simp: layout_defs)
    then show ?thesis using True Cons.prems(3) by simp
  next
    case False
    then have p: "p \<in> set ts" using Cons.prems(2) by simp
    have "q \<noteq> 0 \<Longrightarrow> p + off_counter \<noteq> q + off_counter" "q \<noteq> 0 \<Longrightarrow> p + off_priority \<noteq> q + off_counter"
      using apart(2) [OF p _ Cons.prems(3)] False by (simp_all add: layout_defs)
    then show ?thesis using Cons.IH [OF apart(1) p Cons.prems(3)] by simp
  qed
qed simp

lemma sched_recharge_field:
  assumes "structs_apart ts" "p \<in> set ts" "p \<noteq> 0" "unat off < 552" "off \<noteq> off_counter"
  shows "sched_recharge ts m (p + off) = m (p + off)"
proof (rule sched_recharge_other)
  fix q assume q: "q \<in> set ts" "q \<noteq> 0"
  show "p + off \<noteq> q + off_counter"
  proof (cases "p = q")
    case False
    then obtain i j where "i < length ts" "j < length ts" "p = ts ! i" "q = ts ! j" "i \<noteq> j"
      using assms(2) q(1) unfolding in_set_conv_nth by blast
    moreover have "unat off_counter < 552" by (simp add: layout_defs)
    ultimately show ?thesis
      using assms(1,3,4) q(2) unfolding structs_apart_def by blast
  qed (use assms(5) in simp)
qed

lemma sint_recharged:
  assumes "- (2 ^ 62) \<le> sint c" "sint c < 2 ^ 62" "- (2 ^ 62) \<le> sint p" "sint p < 2 ^ 62"
  shows "sint (recharged c p) = sint c div 2 + sint p"
proof -
  have "recharged c p = word_of_int (sint c div 2 + sint p)"
  proof -
    have "signed_drop_bit 1 c = word_of_int (sint (signed_drop_bit 1 c))" by simp
    also have "sint (signed_drop_bit 1 c) = sint c div 2"
      by (simp add: sint_signed_drop_bit_eq drop_bit_eq_div)
    finally show ?thesis by (simp add: recharged_def)
  qed
  moreover have "sint (word_of_int (sint c div 2 + sint p) :: u64) = sint c div 2 + sint p"
  proof -
    have "- 4611686018427387904 \<le> sint c" "sint c < 4611686018427387904"
        "- 4611686018427387904 \<le> sint p" "sint p < 4611686018427387904"
      using assms by simp_all
    then have "- 9223372036854775808 \<le> sint c div 2 + sint p" "sint c div 2 + sint p < 9223372036854775808"
      by linarith+
    then show ?thesis unfolding sint_sbintrunc' by (intro signed_take_bit_int_eq_self) simp_all
  qed
  ultimately show ?thesis by simp
qed

section \<open>The loop ends\<close>

text \<open>
  The states \<open>_schedule\<close> is called in: the structs do not overlap, the counters of the
  running tasks fit in an \<open>int\<close> and their priorities are at least 1.
\<close>

definition sched_ready :: "memory \<Rightarrow> addr list \<Rightarrow> bool" where
  "sched_ready m ts \<longleftrightarrow> structs_apart ts \<and>
     (\<forall>p \<in> set ts. runs m p \<longrightarrow> - (2 ^ 31) \<le> cnt m p \<and> cnt m p < 2 ^ 31 \<and> 1 \<le> pri m p \<and> pri m p < 2 ^ 31)"

lemma recharge_runs:
  assumes "structs_apart ts" "p \<in> set ts"
  shows "runs (sched_recharge ts m) p \<longleftrightarrow> runs m p"
    and "p \<noteq> 0 \<Longrightarrow> pri (sched_recharge ts m) p = pri m p"
  using sched_recharge_field [OF assms, of off_state m] sched_recharge_field [OF assms, of off_priority m]
  by (auto simp: runs_def pri_def layout_defs)

lemma recharge_cnt:
  assumes "sched_ready m ts" "p \<in> set ts" "runs m p"
  shows "cnt (sched_recharge ts m) p = cnt m p div 2 + pri m p"
  using assms sched_recharge_counter [of ts p m] sint_recharged [of "m (p + off_counter)" "m (p + off_priority)"]
  by (auto simp: sched_ready_def runs_def cnt_def pri_def)

lemma sched_loop_cases:
  assumes ready: "sched_ready m ts"
  obtains "sched_loop ts m = Some (0, m)" "no_choice m ts"
  | k where "sched_loop ts m = Some (k, m)" "choice m ts k" "0 < cnt m (ts ! k)"
  | k where "sched_loop ts m = Some (k, sched_recharge ts m)" "choice (sched_recharge ts m) ts k"
      "0 < cnt (sched_recharge ts m) (ts ! k)" "\<forall>p \<in> set ts. runs m p \<longrightarrow> cnt m p \<le> 0"
proof -
  have bound: "\<forall>p \<in> set ts. runs m p \<longrightarrow> cnt m p < 2 ^ 31"
    using ready by (simp add: sched_ready_def)
  show thesis
  proof (cases rule: scan_cases [OF bound])
    case 1
    then have "sched_loop ts m = Some (0, m)" by (subst sched_loop.simps) simp
    then show thesis using 1(2) by (rule that(1))
  next
    case (2 k c)
    show thesis
    proof (cases "c = 0")
      case False
      then have "cnt m (ts ! k) \<noteq> 0" using 2(3) by (metis signed_0 signed_word_eqI)
      then have "0 < cnt m (ts ! k)" using 2(2) by (simp add: choice_def)
      moreover have "sched_loop ts m = Some (k, m)" using 2(1) False by (subst sched_loop.simps) simp
      ultimately show thesis using 2(2) that(2) by blast
    next
      case True
      let ?m = "sched_recharge ts m"
      have apart: "structs_apart ts" using ready by (simp add: sched_ready_def)
      have zero: "cnt m (ts ! k) = 0" using 2(3) True by simp
      have k: "ts ! k \<in> set ts" "runs m (ts ! k)" using 2(2) by (simp_all add: choice_def)
      have low: "\<forall>p \<in> set ts. runs m p \<longrightarrow> cnt m p \<le> 0"
        using 2(2) zero unfolding choice_def by (metis in_set_conv_nth)
      have new: "cnt ?m p = cnt m p div 2 + pri m p" if "p \<in> set ts" "runs m p" for p
        by (rule recharge_cnt [OF ready that])
      have bound': "\<forall>p \<in> set ts. runs ?m p \<longrightarrow> cnt ?m p < 2 ^ 31"
      proof (intro ballI impI)
        fix p assume p: "p \<in> set ts" "runs ?m p"
        then have r: "runs m p" using recharge_runs(1) [OF apart p(1)] by blast
        then have "cnt m p \<le> 0" "pri m p < 2 ^ 31" using low p(1) ready by (auto simp: sched_ready_def)
        then show "cnt ?m p < 2 ^ 31" using new [OF p(1) r] by linarith
      qed
      have pos: "runs ?m (ts ! k)" "0 < cnt ?m (ts ! k)"
        using new [OF k] zero k ready recharge_runs(1) [OF apart k(1)]
        by (auto simp: sched_ready_def)
      have once: "sched_loop ts m = sched_loop ts ?m" using 2(1) True by (subst sched_loop.simps) simp
      show thesis
      proof (cases rule: scan_cases [OF bound'])
        case 1
        then show thesis using pos k(1) unfolding no_choice_def by fastforce
      next
        case (2 l d)
        have "cnt ?m (ts ! k) \<le> cnt ?m (ts ! l)"
          using 2(2) pos(1) \<open>choice m ts k\<close> unfolding choice_def by blast
        then have l: "0 < cnt ?m (ts ! l)" using pos(2) by linarith
        then have "d \<noteq> 0" using 2(3) by auto
        then have "sched_loop ts ?m = Some (l, ?m)" using 2(1) by (subst sched_loop.simps) simp
        then show thesis using once 2(2) l low that(3) by simp
      qed
    qed
  qed
qed

section \<open>Fields of different tasks\<close>

lemma apartD:
  assumes "structs_apart ts" "p \<in> set ts" "q \<in> set ts" "p \<noteq> 0" "q \<noteq> 0" "p \<noteq> q"
    and "unat x < 552" "unat y < 552"
  shows "p + x \<noteq> q + y"
proof -
  obtain i j where "i < length ts" "j < length ts" "p = ts ! i" "q = ts ! j"
    using assms(2,3) unfolding in_set_conv_nth by blast
  then show ?thesis using assms unfolding structs_apart_def by blast
qed

lemma apart_ctx:
  assumes "structs_apart ts" "p \<in> set ts" "q \<in> set ts" "p \<noteq> 0" "q \<noteq> 0" "p \<noteq> q"
  shows "unat off < 552 \<Longrightarrow> p + off \<notin> ctx q" and "ctx p \<inter> ctx q = {}"
proof -
  have small: "unat (8 * word_of_nat i :: u64) < 552" if "i < 13" for i
    using that page_run_offset(2) [of i] by simp
  show *: "p + off \<notin> ctx q" if "unat off < 552" for off
    using apartD [OF assms that small] by (auto simp: ctx_def)
  then show "ctx p \<inter> ctx q = {}"
    using small by (auto simp: ctx_def [of p])
qed

text \<open>Two memories in which the scheduler sees the same.\<close>

definition same_sched :: "addr list \<Rightarrow> memory \<Rightarrow> memory \<Rightarrow> bool" where
  "same_sched ts m m' \<longleftrightarrow> (\<forall>p \<in> set ts. p \<noteq> 0 \<longrightarrow>
     m' (p + off_state) = m (p + off_state) \<and> m' (p + off_counter) = m (p + off_counter) \<and>
     m' (p + off_priority) = m (p + off_priority))"

lemma same_sched_field:
  assumes "same_sched ts m m'" "p \<in> set ts"
  shows "runs m' p \<longleftrightarrow> runs m p" "p \<noteq> 0 \<Longrightarrow> cnt m' p = cnt m p" "p \<noteq> 0 \<Longrightarrow> pri m' p = pri m p"
    "runs m p \<Longrightarrow> cnt m' p = cnt m p" "runs m p \<Longrightarrow> pri m' p = pri m p"
  using assms by (auto simp: same_sched_def runs_def cnt_def pri_def)

lemma same_sched_ready: "same_sched ts m m' \<Longrightarrow> sched_ready m' ts \<longleftrightarrow> sched_ready m ts"
  unfolding sched_ready_def using same_sched_field [of ts m m'] by auto

lemma same_sched_no_choice: "same_sched ts m m' \<Longrightarrow> no_choice m' ts \<longleftrightarrow> no_choice m ts"
  unfolding no_choice_def using same_sched_field [of ts m m'] by auto

lemma same_sched_choice: "same_sched ts m m' \<Longrightarrow> choice m' ts k \<longleftrightarrow> choice m ts k"
proof -
  assume same: "same_sched ts m m'"
  have nth: "runs m' (ts ! j) = runs m (ts ! j)" "runs m (ts ! j) \<Longrightarrow> cnt m' (ts ! j) = cnt m (ts ! j)"
    if "j < length ts" for j
    using same_sched_field [OF same, of "ts ! j"] that by simp_all
  show ?thesis
  proof (cases "k < length ts \<and> runs m (ts ! k)")
    case True
    then have "cnt m' (ts ! k) = cnt m (ts ! k)" "\<And>j. j < k \<Longrightarrow> j < length ts" using nth by auto
    moreover from this(2) have "(\<forall>j < k. runs m' (ts ! j) \<longrightarrow> cnt m' (ts ! j) < v) \<longleftrightarrow>
        (\<forall>j < k. runs m (ts ! j) \<longrightarrow> cnt m (ts ! j) < v)"
      "(\<forall>j < length ts. runs m' (ts ! j) \<longrightarrow> cnt m' (ts ! j) \<le> v) \<longleftrightarrow>
        (\<forall>j < length ts. runs m (ts ! j) \<longrightarrow> cnt m (ts ! j) \<le> v)" for v
      using nth by (metis (no_types, lifting))+
    ultimately show ?thesis using True nth by (simp add: choice_def)
  next
    case False
    then show ?thesis using nth unfolding choice_def by blast
  qed
qed

lemma same_sched_recharge:
  "structs_apart ts \<Longrightarrow> same_sched ts m m' \<Longrightarrow> same_sched ts (sched_recharge ts m) (sched_recharge ts m')"
  unfolding same_sched_def
  using sched_recharge_counter [of ts] sched_recharge_field [of ts _ off_state] sched_recharge_field [of ts _ off_priority]
  by (simp add: layout_defs)

text \<open>The states \<open>_schedule\<close> is called in.\<close>

definition sched_state :: "kernel \<Rightarrow> bool" where
  "sched_state s \<longleftrightarrow> sched_ready (mem s) (task s) \<and> current s \<in> set (task s) \<and> current s \<noteq> 0 \<and>
     task s \<noteq> [] \<and> task s ! 0 \<noteq> 0"

lemma preempt_disable_same:
  assumes "structs_apart (task s)" "current s \<in> set (task s)" "current s \<noteq> 0"
  shows "same_sched (task s) (mem s) (mem (preempt_disable s))"
    and "p \<in> set (task s) \<Longrightarrow> p \<noteq> 0 \<Longrightarrow> unat off < 552 \<Longrightarrow> off \<noteq> off_preempt_count \<Longrightarrow>
      mem (preempt_disable s) (p + off) = mem s (p + off)"
proof -
  show *: "mem (preempt_disable s) (p + off) = mem s (p + off)"
    if "p \<in> set (task s)" "p \<noteq> 0" "unat off < 552" "off \<noteq> off_preempt_count" for p off
    using that apartD [OF assms(1) that(1) assms(2) that(2) assms(3) _ that(3), of off_preempt_count]
    by (cases "p = current s") (auto simp: preempt_disable_def field_defs layout_defs)
  show "same_sched (task s) (mem s) (mem (preempt_disable s))"
    unfolding same_sched_def by (auto intro!: * simp: layout_defs)
qed

section \<open>What _schedule does\<close>

text \<open>
  The specification: the task to run is a right choice, from the counters as they are or
  from the recharged ones; of the tasks, only the preemption counters of the two tasks and
  the context of the old one are changed besides; the registers are exchanged.
\<close>

definition chosen :: "addr list \<Rightarrow> memory \<Rightarrow> nat \<Rightarrow> memory \<Rightarrow> bool" where
  "chosen ts m k m' \<longleftrightarrow>
     (no_choice m ts \<and> k = 0 \<and> m' = m) \<or>
     (choice m ts k \<and> 0 < cnt m (ts ! k) \<and> m' = m) \<or>
     (choice m' ts k \<and> 0 < cnt m' (ts ! k) \<and> (\<forall>p \<in> set ts. runs m p \<longrightarrow> cnt m p \<le> 0) \<and>
       m' = sched_recharge ts m)"

definition preempt :: "kernel \<Rightarrow> addr \<Rightarrow> u64" where
  "preempt s p = get_field off_preempt_count p s"

definition scheduled :: "kernel \<Rightarrow> kernel \<Rightarrow> bool" where
  "scheduled s s' \<longleftrightarrow>
     task s' = task s \<and> nr_tasks s' = nr_tasks s \<and> mem_map s' = mem_map s \<and>
     irq_masked (cpu s') = irq_masked (cpu s) \<and>
     (\<exists>k m. chosen (task s) (mem s) k m \<and> k < length (task s) \<and> current s' = task s ! k \<and> current s' \<noteq> 0 \<and>
       (\<forall>p \<in> set (task s). p \<noteq> 0 \<longrightarrow>
         (\<forall>off. 104 \<le> unat off \<and> unat off < 552 \<and> off \<noteq> off_preempt_count \<longrightarrow> mem s' (p + off) = m (p + off)))) \<and>
     (\<forall>p \<in> set (task s). p \<noteq> 0 \<longrightarrow> preempt s' p =
       preempt s p + (if p = current s then 1 else 0) - (if p = current s' then 1 else 0)) \<and>
     (current s' \<noteq> current s \<longrightarrow>
       load_context (mem s') (current s) = saved_context (cpu s) \<and>
       saved_context (cpu s') = load_context (mem s) (current s')) \<and>
     (current s' = current s \<longrightarrow> saved_context (cpu s') = saved_context (cpu s))"

lemma sched_loop_chosen:
  assumes "sched_ready m ts" "ts \<noteq> []" "ts ! 0 \<noteq> 0"
  obtains k m' where "sched_loop ts m = Some (k, m')" "chosen ts m k m'" "k < length ts" "ts ! k \<noteq> 0"
proof (cases rule: sched_loop_cases [OF assms(1)])
  case 1
  then show thesis using assms(2,3) by (intro that [of 0 m]) (auto simp: chosen_def)
next
  case (2 k)
  then have "k < length ts" "ts ! k \<noteq> 0" by (simp_all add: choice_def runs_def)
  then show thesis using 2 by (intro that [of k m]) (auto simp: chosen_def)
next
  case (3 k)
  then have "k < length ts" "ts ! k \<noteq> 0" by (simp_all add: choice_def runs_def)
  then show thesis using 3 by (intro that [of k "sched_recharge ts m"]) (auto simp: chosen_def)
qed

lemma chosen_same:
  assumes "structs_apart ts" "same_sched ts m0 m" "chosen ts m k m'"
  shows "\<exists>m0'. chosen ts m0 k m0' \<and> (m0' = m0 \<and> m' = m \<or> m0' = sched_recharge ts m0 \<and> m' = sched_recharge ts m)"
proof -
  from assms(3) [unfolded chosen_def] show ?thesis
  proof (elim disjE conjE)
    assume "no_choice m ts" "k = 0" "m' = m"
    then show ?thesis using same_sched_no_choice [OF assms(2)] by (auto simp: chosen_def)
  next
    assume c: "choice m ts k" "0 < cnt m (ts ! k)" "m' = m"
    have ch: "choice m0 ts k" using c(1) same_sched_choice [OF assms(2)] by blast
    then have "ts ! k \<in> set ts" "runs m0 (ts ! k)" by (simp_all add: choice_def)
    then have "cnt m (ts ! k) = cnt m0 (ts ! k)" by (rule same_sched_field(4) [OF assms(2)])
    then show ?thesis using c ch by (auto simp: chosen_def)
  next
    assume c: "choice m' ts k" "0 < cnt m' (ts ! k)" "\<forall>p \<in> set ts. runs m p \<longrightarrow> cnt m p \<le> 0"
      and m': "m' = sched_recharge ts m"
    let ?m0 = "sched_recharge ts m0"
    have same: "same_sched ts ?m0 m'" unfolding m' by (rule same_sched_recharge [OF assms(1,2)])
    have ch: "choice ?m0 ts k" using c(1) same_sched_choice [OF same] by blast
    then have "cnt m' (ts ! k) = cnt ?m0 (ts ! k)"
      using same_sched_field(4) [OF same, of "ts ! k"] by (auto simp: choice_def)
    moreover have "\<forall>p \<in> set ts. runs m0 p \<longrightarrow> cnt m0 p \<le> 0"
      using c(3) same_sched_field [OF assms(2)] by auto
    ultimately show ?thesis using c(2) ch m' by (auto simp: chosen_def)
  qed
qed

text \<open>Fields of the tasks that neither the switch nor the counters touch.\<close>

context context_switch
begin

lemma schedule_with_scheduled:
  assumes "sched_state s"
  obtains s' where "schedule_with sw s = Some s'" "scheduled s s'"
proof -
  let ?ts = "task s" and ?cur = "current s"
  have ready: "sched_ready (mem s) ?ts" and cur: "?cur \<in> set ?ts" "?cur \<noteq> 0"
    and ts: "?ts \<noteq> []" "?ts ! 0 \<noteq> 0" and apart: "structs_apart ?ts"
    using assms by (auto simp: sched_state_def sched_ready_def)
  define s1 where "s1 = preempt_disable s"
  have s1: "task s1 = ?ts" "current s1 = ?cur" "nr_tasks s1 = nr_tasks s" "mem_map s1 = mem_map s" "cpu s1 = cpu s"
    by (simp_all add: s1_def preempt_disable_def set_field_def)
  note dis = preempt_disable_same [OF apart cur, folded s1_def]
  obtain k m1 where loop: "sched_loop ?ts (mem s1) = Some (k, m1)" "chosen ?ts (mem s1) k m1"
    and k: "k < length ?ts" "?ts ! k \<noteq> 0"
    using sched_loop_chosen [of "mem s1" ?ts] ready same_sched_ready [OF dis(1)] ts by blast
  obtain m0 where chosen: "chosen ?ts (mem s) k m0"
    and m01: "m0 = mem s \<and> m1 = mem s1 \<or> m0 = sched_recharge ?ts (mem s) \<and> m1 = sched_recharge ?ts (mem s1)"
    using chosen_same [OF apart dis(1) loop(2)] by blast
  define s2 where "s2 = s1\<lparr>mem := m1\<rparr>"
  define s3 where "s3 = sw (?ts ! k) k s2"
  define s' where "s' = preempt_enable s3"
  have run: "schedule_with sw s = Some s'"
    using loop(1) by (simp add: schedule_with_def Let_def s1_def [symmetric] s1 s2_def s3_def s'_def)
  let ?new = "?ts ! k"
  have new: "?new \<in> set ?ts" "?new \<noteq> 0" using k by simp_all
  have s2: "current s2 = ?cur" "task s2 = ?ts" "cpu s2 = cpu s" "mem s2 = m1" by (simp_all add: s2_def s1)
  have s3: "current s3 = ?new" "task s3 = ?ts" "nr_tasks s3 = nr_tasks s" "mem_map s3 = mem_map s"
      "irq_masked (cpu s3) = irq_masked (cpu s)"
    by (simp_all add: s3_def sw_current sw_rest s2_def s1)
  have mem3: "mem s3 x = m1 x" if "x \<notin> ctx ?cur" for x
    using sw_mem [of x s2 ?new k] that by (simp add: s3_def s2)
  have s': "task s' = ?ts" "nr_tasks s' = nr_tasks s" "mem_map s' = mem_map s" "current s' = ?new"
      "cpu s' = cpu s3" "mem s' = (mem s3)(?new + off_preempt_count := mem s3 (?new + off_preempt_count) - 1)"
    using s3 by (simp_all add: s'_def preempt_enable_def field_defs)
  have clear: "p + off \<notin> ctx q" if "p \<in> set ?ts" "p \<noteq> 0" "q \<in> set ?ts" "q \<noteq> 0" "104 \<le> unat off" "unat off < 552" for p q off
    using that apart_ctx(1) [OF apart that(1,3,2,4) _ that(6)] not_in_ctx [OF that(5)] by (cases "p = q") simp_all
  have pre: "mem s3 (p + off_preempt_count) = mem s1 (p + off_preempt_count)" if p: "p \<in> set ?ts" "p \<noteq> 0" for p
    using mem3 [OF clear [OF p cur, of off_preempt_count]] m01 sched_recharge_field [OF apart p, of off_preempt_count]
    by (auto simp: layout_defs)
  have fields: "mem s' (p + off) = m0 (p + off)"
    if p: "p \<in> set ?ts" "p \<noteq> 0" and off: "104 \<le> unat off" "unat off < 552" "off \<noteq> off_preempt_count" for p off
  proof -
    have "p + off \<noteq> ?new + off_preempt_count"
      using apartD [OF apart p(1) new(1) p(2) new(2) _ off(2), of off_preempt_count] off(3)
      by (cases "p = ?new") (auto simp: layout_defs)
    then have "mem s' (p + off) = m1 (p + off)" using mem3 [OF clear [OF p cur off(1,2)]] by (simp add: s')
    also have "\<dots> = m0 (p + off)"
      using m01 dis(2) [OF p off(2,3)] dis(2) [OF p, of off_counter] dis(2) [OF p, of off_priority]
        sched_recharge_counter [OF apart p] sched_recharge_field [OF apart p off(2)]
      by (cases "off = off_counter") (auto simp: layout_defs)
    finally show ?thesis .
  qed
  have counts: "preempt s' p = preempt s p + (if p = ?cur then 1 else 0) - (if p = current s' then 1 else 0)"
    if p: "p \<in> set ?ts" "p \<noteq> 0" for p
  proof -
    have "mem s1 (p + off_preempt_count) = preempt s p + (if p = ?cur then 1 else 0)"
      by (simp add: s1_def preempt_disable_def field_defs preempt_def)
    then show ?thesis using pre [OF p] by (auto simp: preempt_def get_field_def s')
  qed
  have ctxs: "load_context (mem s') ?cur = saved_context (cpu s) \<and>
      saved_context (cpu s') = load_context (mem s) (current s')" if ne: "?new \<noteq> ?cur"
  proof
    have disj: "ctx ?cur \<inter> ctx ?new = {}" using apart_ctx(2) [OF apart cur(1) new(1) cur(2) new(2)] ne by simp
    have "?new + off_preempt_count \<notin> ctx ?cur" by (rule clear [OF new cur]) (simp_all add: layout_defs)
    then have "load_context (mem s') ?cur = load_context (mem s3) ?cur"
      by (intro load_context_cong) (auto simp: s')
    then show "load_context (mem s') ?cur = saved_context (cpu s)"
      using sw_saves [of s2 ?new k] ne by (simp add: s3_def s2)
    have "?cur + off_preempt_count \<notin> ctx ?new" "\<And>p. p \<in> set ?ts \<Longrightarrow> p \<noteq> 0 \<Longrightarrow> p + off_counter \<notin> ctx ?new"
      by (rule clear [OF cur new], simp_all add: layout_defs) (rule clear [OF _ _ new], simp_all add: layout_defs)
    then have "m1 x = mem s x" if x: "x \<in> ctx ?new" for x
    proof -
      have "sched_recharge ?ts (mem s1) x = mem s1 x"
        using x \<open>\<And>p. p \<in> set ?ts \<Longrightarrow> p \<noteq> 0 \<Longrightarrow> p + off_counter \<notin> ctx ?new\<close>
        by (intro sched_recharge_other) blast
      moreover have "mem s1 x = mem s x"
        using x \<open>?cur + off_preempt_count \<notin> ctx ?new\<close> by (auto simp: s1_def preempt_disable_def field_defs)
      ultimately show ?thesis using m01 by auto
    qed
    then have "load_context m1 ?new = load_context (mem s) ?new" by (rule load_context_cong)
    then show "saved_context (cpu s') = load_context (mem s) (current s')"
      using sw_loads [of s2 ?new k] ne disj by (simp add: s' s3_def s2)
  qed
  have stay: "saved_context (cpu s') = saved_context (cpu s)" if "?new = ?cur"
    using sw_same [of s2 ?new k] that by (simp add: s' s3_def s2)
  have "scheduled s s'"
    unfolding scheduled_def using s' s3(5) chosen k new fields counts ctxs stay
    by (intro conjI ballI impI exI [of _ k] exI [of _ m0]) auto
  then show thesis by (rule that [OF run])
qed

end

end
