(* ===== verification/Sched_Fair.thy ===== *)
theory Sched_Fair
  imports Sched_Choice
begin

text \<open>
  The scheduler over time, for lessons 4, 5 and 6 at once: the locale \<open>scheduler\<close> is the
  contract of \<open>_schedule\<close>, and inside it the invariant of the task table that timer ticks and
  calls of \<open>schedule\<close> keep, the length of a time slice, and a bound on the number of events
  after which a running task has been given the processor. The theory \<open>Sched_Props\<close> states
  the properties for the code of the lessons.
\<close>

unbundle bit_operations_syntax

section \<open>Fields of a task\<close>

lemma field_set_field:
  assumes "structs_apart ts" "p \<in> set ts" "q \<in> set ts" "p \<noteq> 0" "q \<noteq> 0"
    and "unat off < 552" "unat off' < 552"
  shows "mem (set_field off' p v s) (q + off) = (if q = p \<and> off = off' then v else mem s (q + off))"
  using apartD [OF assms(1,3,2,5,4) _ assms(6,7)]
  by (cases "q = p") (auto simp: set_field_def)

lemma set_field_rest [simp]:
  "current (set_field off p v s) = current s" "task (set_field off p v s) = task s"
  "nr_tasks (set_field off p v s) = nr_tasks s" "mem_map (set_field off p v s) = mem_map s"
  "cpu (set_field off p v s) = cpu s"
  by (simp_all add: set_field_def)

lemma irq_rest [simp]:
  "current (enable_irq s) = current s" "task (enable_irq s) = task s" "mem (enable_irq s) = mem s"
  "current (disable_irq s) = current s" "task (disable_irq s) = task s" "mem (disable_irq s) = mem s"
  "nr_tasks (enable_irq s) = nr_tasks s" "mem_map (enable_irq s) = mem_map s"
  "nr_tasks (disable_irq s) = nr_tasks s" "mem_map (disable_irq s) = mem_map s"
  "irq_masked (cpu (disable_irq s))" "\<not> irq_masked (cpu (enable_irq s))"
  "saved_context (cpu (enable_irq s)) = saved_context (cpu s)"
  "saved_context (cpu (disable_irq s)) = saved_context (cpu s)"
  by (simp_all add: enable_irq_def disable_irq_def saved_context_def)

lemma tick_end_rest [simp]:
  "current (tick_end p s) = current s" "task (tick_end p s) = task s" "mem (tick_end p s) = mem s"
  "nr_tasks (tick_end p s) = nr_tasks s" "mem_map (tick_end p s) = mem_map s"
  "saved_context (cpu (tick_end p s)) = saved_context (cpu s)"
  by (simp_all add: tick_end_def)

section \<open>The invariant of the task table\<close>

text \<open>
  Between two calls of \<open>_schedule\<close>: counters are not negative, the preemption counter of the
  current task is 0 and that of every other task is 1 (each is inside \<open>_schedule\<close>, or new).
  \<open>waiting\<close> leaves out that the current task runs, which \<open>exit_process\<close> ends.
\<close>

definition waiting :: "kernel \<Rightarrow> bool" where
  "waiting s \<longleftrightarrow> sched_state s \<and> (\<exists>p \<in> set (task s). runs (mem s) p) \<and>
     (\<forall>p \<in> set (task s). p \<noteq> 0 \<longrightarrow> preempt s p = (if p = current s then 0 else 1)) \<and>
     (\<forall>p \<in> set (task s). runs (mem s) p \<longrightarrow> 0 \<le> cnt (mem s) p)"

definition sched_inv :: "kernel \<Rightarrow> bool" where
  "sched_inv s \<longleftrightarrow> waiting s \<and> runs (mem s) (current s)"

definition running :: "kernel \<Rightarrow> addr set" where
  "running s = {p \<in> set (task s). runs (mem s) p}"

text \<open>The scheduler's view of a running task.\<close>

definition in_range :: "memory \<Rightarrow> addr \<Rightarrow> bool" where
  "in_range m p \<longleftrightarrow> 0 \<le> cnt m p \<and> cnt m p < 2 ^ 31 \<and> 1 \<le> pri m p \<and> pri m p < 2 ^ 31"

lemma waitingD:
  assumes "waiting s"
  shows "sched_state s" "structs_apart (task s)" "current s \<in> set (task s)" "current s \<noteq> 0"
    and "task s \<noteq> []" "task s ! 0 \<noteq> 0" "\<exists>p \<in> set (task s). runs (mem s) p"
    and "\<And>p. p \<in> set (task s) \<Longrightarrow> p \<noteq> 0 \<Longrightarrow> preempt s p = (if p = current s then 0 else 1)"
    and "\<And>p. p \<in> set (task s) \<Longrightarrow> runs (mem s) p \<Longrightarrow> in_range (mem s) p"
  using assms by (auto simp: waiting_def sched_state_def sched_ready_def in_range_def)

lemma waitingI:
  assumes "structs_apart (task s)" "current s \<in> set (task s)" "current s \<noteq> 0"
    and "task s ! 0 \<noteq> 0" "\<exists>p \<in> set (task s). runs (mem s) p"
    and "\<And>p. p \<in> set (task s) \<Longrightarrow> p \<noteq> 0 \<Longrightarrow> preempt s p = (if p = current s then 0 else 1)"
    and "\<And>p. p \<in> set (task s) \<Longrightarrow> runs (mem s) p \<Longrightarrow> in_range (mem s) p"
  shows "waiting s"
proof -
  have "- 2147483648 \<le> cnt (mem s) p" if "p \<in> set (task s)" "runs (mem s) p" for p
    using assms(7) [OF that] by (simp add: in_range_def)
  then show ?thesis
    using assms by (auto simp: waiting_def sched_state_def sched_ready_def in_range_def)
qed

lemma current_running: "sched_inv s \<Longrightarrow> current s \<in> running s"
  using waitingD(3) by (simp add: sched_inv_def running_def)

text \<open>Setting the counter of the current task to a value that is not negative.\<close>

lemma set_counter_fields:
  assumes "waiting s" "q \<in> set (task s)" "q \<noteq> 0"
  shows "runs (mem (set_field off_counter (current s) v s)) q = runs (mem s) q"
    and "cnt (mem (set_field off_counter (current s) v s)) q =
      (if q = current s then sint v else cnt (mem s) q)"
    and "pri (mem (set_field off_counter (current s) v s)) q = pri (mem s) q"
    and "preempt (set_field off_counter (current s) v s) q = preempt s q"
  using field_set_field [OF waitingD(2,3) [OF assms(1)] assms(2) waitingD(4) [OF assms(1)] assms(3),
      where off' = off_counter and s = s]
  by (simp_all add: runs_def cnt_def pri_def preempt_def get_field_def layout_defs)

lemma set_counter_waiting:
  assumes w: "waiting s" and v: "0 \<le> sint v" "sint v < 2 ^ 31"
  shows "waiting (set_field off_counter (current s) v s)"
proof (rule waitingI; (unfold set_field_rest)?)
  note f = set_counter_fields [OF w]
  let ?s = "set_field off_counter (current s) v s"
  have nz: "q \<noteq> 0" if "runs m q" for q m using that by (simp add: runs_def)
  show "\<exists>p \<in> set (task s). runs (mem ?s) p"
    using waitingD(7) [OF w] f(1) nz by blast
  show "preempt ?s p = (if p = current s then 0 else 1)" if "p \<in> set (task s)" "p \<noteq> 0" for p
    unfolding f(4) [OF that] by (rule waitingD(8) [OF w that])
  show "in_range (mem ?s) p" if p: "p \<in> set (task s)" and r: "runs (mem ?s) p" for p
    using waitingD(9) [OF w p] r v f(1-3) [OF p nz [OF r]] by (auto simp: in_range_def)
qed (use waitingD [OF w] in simp_all)

text \<open>The fields the scheduler reads are words 13 to 16 of the struct.\<close>

lemma init_task_fields:
  "17 \<le> length ws \<Longrightarrow> length ws \<le> 100 \<Longrightarrow> s = initial_kernel a ws m c w \<Longrightarrow>
    mem s (a + off_state) = ws ! 13 \<and> mem s (a + off_counter) = ws ! 14 \<and>
    mem s (a + off_priority) = ws ! 15 \<and> mem s (a + off_preempt_count) = ws ! 16"
  by (simp add: initial_kernel_def store_word_at layout_defs)

section \<open>How long a task waits\<close>

text \<open>The ticks left to the running tasks in \<open>A\<close>, and their shares of a recharge.\<close>

definition ticks_left :: "kernel \<Rightarrow> addr set \<Rightarrow> nat" where
  "ticks_left s A = (\<Sum>q \<in> running s \<inter> A. nat (cnt (mem s) q))"

definition shares :: "kernel \<Rightarrow> addr set \<Rightarrow> nat" where
  "shares s A = (\<Sum>q \<in> running s \<inter> A. nat (pri (mem s) q))"

text \<open>
  An upper bound on the number of events before \<open>p\<close> is current: the ticks left to the others
  if \<open>p\<close> has some itself; else the ticks left, then the shares of the others.
\<close>

definition wait_bound :: "kernel \<Rightarrow> addr \<Rightarrow> nat" where
  "wait_bound s p =
     (if 0 < cnt (mem s) p then ticks_left s (- {p})
      else Suc (ticks_left s UNIV + shares s (- {p})))"

definition patience :: "kernel \<Rightarrow> addr \<Rightarrow> nat" where
  "patience s p = wait_bound s p + (if cnt (mem s) (current s) = 0 then 1 else 0)"

lemma finite_running [simp]: "finite (running s)"
  by (simp add: running_def)

lemma ticks_left_set_counter:
  assumes "sched_inv s" "current s \<in> A" "0 \<le> sint v" "sint v \<le> cnt (mem s) (current s)"
  shows "ticks_left (set_field off_counter (current s) v s) A + nat (cnt (mem s) (current s)) =
    ticks_left s A + nat (sint v)"
proof -
  let ?s = "set_field off_counter (current s) v s" and ?c = "current s"
  have w: "waiting s" and r: "runs (mem s) ?c" using assms(1) by (simp_all add: sched_inv_def)
  note f = set_counter_fields [OF w]
  have run: "running ?s = running s" using f(1) by (auto simp: running_def runs_def)
  have cur: "?c \<in> running s \<inter> A" using r waitingD(3) [OF w] assms(2) by (simp add: running_def)
  have "(\<Sum>q \<in> running s \<inter> A - {?c}. nat (cnt (mem ?s) q)) = (\<Sum>q \<in> running s \<inter> A - {?c}. nat (cnt (mem s) q))"
    using f(2) by (intro sum.cong) (auto simp: running_def runs_def)
  moreover have "ticks_left t A = nat (cnt (mem t) ?c) + (\<Sum>q \<in> running s \<inter> A - {?c}. nat (cnt (mem t) q))"
    if "running t = running s" for t
    unfolding ticks_left_def that using cur by (intro sum.remove) simp_all
  ultimately show ?thesis
    using f(2) [OF waitingD(3,4) [OF w]] run by simp
qed

lemma shares_set_counter:
  "waiting s \<Longrightarrow> shares (set_field off_counter (current s) v s) A = shares s A"
  unfolding shares_def using set_counter_fields(1,3) [of s]
  by (intro sum.cong) (auto simp: running_def runs_def)

section \<open>The invariant and _schedule\<close>

text \<open>
  What a call of \<open>_schedule\<close> does to the fields the scheduler reads: nothing, and the chosen
  task has ticks left; or every running task had none left, and each has its share now.
\<close>

lemma chosen_fields:
  assumes w: "waiting s" and ch: "chosen (task s) (mem s) k m"
  obtains "m = mem s" "runs (mem s) (task s ! k)" "0 < cnt (mem s) (task s ! k)"
  | "m = sched_recharge (task s) (mem s)" "runs (mem s) (task s ! k)"
    "\<And>p. p \<in> running s \<Longrightarrow> cnt (mem s) p = 0 \<and> cnt m p = pri (mem s) p"
proof -
  have ready: "sched_ready (mem s) (task s)" using waitingD(1) [OF w] by (simp add: sched_state_def)
  obtain q where "q \<in> set (task s)" "runs (mem s) q" using waitingD(7) [OF w] by blast
  then have "\<not> no_choice (mem s) (task s)"
    using waitingD(9) [OF w, of q] unfolding no_choice_def in_range_def by (meson leD)
  with ch consider "choice (mem s) (task s) k" "0 < cnt (mem s) (task s ! k)" "m = mem s"
    | "choice m (task s) k" "\<forall>p \<in> set (task s). runs (mem s) p \<longrightarrow> cnt (mem s) p \<le> 0"
      "m = sched_recharge (task s) (mem s)"
    unfolding chosen_def by blast
  then show thesis
  proof cases
    case 1
    then show thesis by (intro that(1)) (simp_all add: choice_def)
  next
    case 2
    have "runs (mem s) (task s ! k)"
      using 2(1) recharge_runs(1) [OF waitingD(2) [OF w], of "task s ! k" "mem s"]
      by (simp add: 2(3) choice_def)
    moreover have "cnt (mem s) p = 0 \<and> cnt m p = pri (mem s) p" if "p \<in> running s" for p
    proof -
      have p: "p \<in> set (task s)" "runs (mem s) p" using that by (simp_all add: running_def)
      have "cnt (mem s) p = 0" using 2(2) p waitingD(9) [OF w p] by (simp add: in_range_def order_antisym)
      then show ?thesis using recharge_cnt [OF ready p] by (simp add: 2(3))
    qed
    ultimately show thesis using 2(3) by (intro that(2))
  qed
qed

lemma scheduled_fields:
  assumes w: "waiting s" and sch: "scheduled s s'"
  obtains "current s' \<in> running s" "0 < cnt (mem s) (current s')"
    "\<And>p. p \<in> set (task s) \<Longrightarrow> p \<noteq> 0 \<Longrightarrow> runs (mem s') p = runs (mem s) p \<and>
      cnt (mem s') p = cnt (mem s) p \<and> pri (mem s') p = pri (mem s) p"
  | "current s' \<in> running s" "\<And>p. p \<in> running s \<Longrightarrow> cnt (mem s) p = 0"
    "\<And>p. p \<in> set (task s) \<Longrightarrow> p \<noteq> 0 \<Longrightarrow> runs (mem s') p = runs (mem s) p \<and> pri (mem s') p = pri (mem s) p"
    "\<And>p. p \<in> running s \<Longrightarrow> cnt (mem s') p = pri (mem s) p"
proof -
  obtain k m where ch: "chosen (task s) (mem s) k m" and k: "k < length (task s)" "current s' = task s ! k"
    and same: "\<And>p off. p \<in> set (task s) \<Longrightarrow> p \<noteq> 0 \<Longrightarrow> 104 \<le> unat off \<Longrightarrow> unat off < 552 \<Longrightarrow>
      off \<noteq> off_preempt_count \<Longrightarrow> mem s' (p + off) = m (p + off)"
  proof -
    have "\<exists>k m. chosen (task s) (mem s) k m \<and> k < length (task s) \<and> current s' = task s ! k \<and> current s' \<noteq> 0 \<and>
       (\<forall>p \<in> set (task s). p \<noteq> 0 \<longrightarrow>
         (\<forall>off. 104 \<le> unat off \<and> unat off < 552 \<and> off \<noteq> off_preempt_count \<longrightarrow> mem s' (p + off) = m (p + off)))"
      using sch unfolding scheduled_def by (elim conjE) assumption
    then show thesis by (elim exE conjE) (rule that, assumption+, blast)
  qed
  have fields: "runs (mem s') p = runs m p" "cnt (mem s') p = cnt m p" "pri (mem s') p = pri m p"
    if "p \<in> set (task s)" "p \<noteq> 0" for p
    using same [OF that, of off_state] same [OF that, of off_counter] same [OF that, of off_priority]
    by (simp_all add: runs_def cnt_def pri_def layout_defs)
  have mem: "current s' \<in> set (task s)" using k by simp
  show thesis
  proof (cases rule: chosen_fields [OF w ch])
    case 1
    show thesis
    proof (rule that(1))
      show "current s' \<in> running s" using mem 1(2) by (simp add: running_def k(2))
      show "0 < cnt (mem s) (current s')" using 1(3) by (simp only: k(2))
    qed (use fields in \<open>simp only: 1(1) simp_thms\<close>)
  next
    case 2
    have "runs m p = runs (mem s) p" "p \<noteq> 0 \<Longrightarrow> pri m p = pri (mem s) p" if "p \<in> set (task s)" for p
      using recharge_runs [OF waitingD(2) [OF w] that, of "mem s"] by (simp_all add: 2(1))
    moreover have "p \<in> set (task s) \<and> p \<noteq> 0" if "p \<in> running s" for p
      using that by (auto simp: running_def runs_def)
    moreover have "cnt (mem s') p = cnt m p" if "p \<in> running s" for p
      using that by (intro fields) (auto simp: running_def runs_def)
    ultimately have new: "\<And>p. p \<in> set (task s) \<Longrightarrow> p \<noteq> 0 \<Longrightarrow> runs (mem s') p = runs (mem s) p \<and> pri (mem s') p = pri (mem s) p"
      "\<And>p. p \<in> running s \<Longrightarrow> cnt (mem s') p = pri (mem s) p"
      using fields 2(3) by simp_all
    show thesis
    proof (rule that(2) [OF _ _ new])
      show "current s' \<in> running s" using mem 2(2) by (simp add: running_def k(2))
    qed (use 2(3) in blast)+
  qed
qed

lemma scheduled_inv:
  assumes w: "waiting s" and sch: "scheduled s s'"
  shows "sched_inv s'" "task s' = task s" "running s' = running s" "0 < cnt (mem s') (current s')"
proof -
  show task: "task s' = task s" using sch by (simp add: scheduled_def)
  have pre: "preempt s' p = preempt s p + (if p = current s then 1 else 0) - (if p = current s' then 1 else 0)"
    if "p \<in> set (task s)" "p \<noteq> 0" for p
    using sch that by (simp add: scheduled_def)
  have nz: "p \<noteq> 0" if "runs m p" for m p using that by (simp add: runs_def)
  have runs: "runs (mem s') p = runs (mem s) p" if "p \<in> set (task s)" "p \<noteq> 0" for p
    using that by (cases rule: scheduled_fields [OF w sch]) simp_all
  have cur: "current s' \<in> running s" by (cases rule: scheduled_fields [OF w sch])
  show run: "running s' = running s" using runs nz by (auto simp: running_def task)
  have inr: "in_range (mem s') p" if p: "p \<in> running s" for p
  proof -
    have p': "p \<in> set (task s)" "runs (mem s) p" using p by (simp_all add: running_def)
    note r = waitingD(9) [OF w p']
    show ?thesis
      using r p p' nz [OF p'(2)]
      by (cases rule: scheduled_fields [OF w sch]) (simp_all add: in_range_def)
  qed
  have pos: "0 < cnt (mem s') (current s')"
  proof -
    have "current s' \<in> set (task s)" "runs (mem s) (current s')" using cur by (simp_all add: running_def)
    note r = waitingD(9) [OF w this]
    show ?thesis
      using r cur \<open>current s' \<in> set (task s)\<close> nz [OF \<open>runs (mem s) (current s')\<close>]
      by (cases rule: scheduled_fields [OF w sch]) (simp_all add: in_range_def)
  qed
  then show "0 < cnt (mem s') (current s')" .
  have "waiting s'"
  proof (rule waitingI)
    show "preempt s' p = (if p = current s' then 0 else 1)" if "p \<in> set (task s')" "p \<noteq> 0" for p
      using that pre [of p] waitingD(8) [OF w, of p] by (auto simp: task)
    show "in_range (mem s') p" if "p \<in> set (task s')" "runs (mem s') p" for p
      using that inr run by (auto simp: running_def)
    show "\<exists>p \<in> set (task s'). runs (mem s') p" using cur run by (auto simp: running_def)
  qed (use cur waitingD(2,6) [OF w] nz in \<open>auto simp: running_def task\<close>)
  then show "sched_inv s'" using cur run by (auto simp: sched_inv_def running_def)
qed

section \<open>Events\<close>

text \<open>
  The two ways the kernel gets into \<open>_schedule\<close>: the timer interrupt, and a task that gives
  up the processor by calling \<open>schedule\<close>.
\<close>

datatype sched_event = Tick | Yield

definition yield_with :: "(kernel \<Rightarrow> kernel option) \<Rightarrow> kernel \<Rightarrow> kernel option" where
  "yield_with sched s = sched (set_field off_counter (current s) 0 s)"

fun sched_step :: "(kernel \<Rightarrow> kernel option) \<Rightarrow> sched_event \<Rightarrow> kernel \<Rightarrow> kernel option" where
  "sched_step sched Tick s = tick_with sched s"
| "sched_step sched Yield s = yield_with sched s"

fun sched_run :: "(kernel \<Rightarrow> kernel option) \<Rightarrow> sched_event list \<Rightarrow> kernel \<Rightarrow> kernel option" where
  "sched_run sched [] s = Some s"
| "sched_run sched (e # es) s = Option.bind (sched_step sched e s) (sched_run sched es)"

lemma sched_run_append:
  "sched_run sched (es @ es') s = Option.bind (sched_run sched es s) (sched_run sched es')"
  by (induction es arbitrary: s) (auto split: Option.bind_splits)

lemma ticks_left_zero:
  "(\<And>p. p \<in> running s \<Longrightarrow> cnt (mem s) p = 0) \<Longrightarrow> ticks_left s A = 0"
  by (simp add: ticks_left_def)

lemma same_fields_sums:
  assumes "running t = running s"
  shows "(\<And>p. p \<in> running s \<Longrightarrow> cnt (mem t) p = cnt (mem s) p) \<Longrightarrow> ticks_left t A = ticks_left s A"
    and "(\<And>p. p \<in> running s \<Longrightarrow> pri (mem t) p = pri (mem s) p) \<Longrightarrow> shares t A = shares s A"
    and "(\<And>p. p \<in> running s \<Longrightarrow> cnt (mem t) p = pri (mem s) p) \<Longrightarrow> ticks_left t A = shares s A"
  by (simp_all add: ticks_left_def shares_def assms)

text \<open>No switch makes any task wait longer.\<close>

lemma scheduled_wait:
  assumes w: "waiting s" and sch: "scheduled s s'" and p: "p \<in> running s"
  shows "wait_bound s' p \<le> wait_bound s p"
proof -
  note inv = scheduled_inv [OF w sch]
  have rn: "q \<in> set (task s) \<and> q \<noteq> 0" if "q \<in> running s" for q using that by (auto simp: running_def runs_def)
  show ?thesis
  proof (cases rule: scheduled_fields [OF w sch])
    case 1
    have c: "cnt (mem s') q = cnt (mem s) q" "pri (mem s') q = pri (mem s) q" if "q \<in> running s" for q
      using 1(3) rn [OF that] by simp_all
    show ?thesis
      using same_fields_sums(1) [OF inv(3) c(1)] same_fields_sums(2) [OF inv(3) c(2)] c [OF p]
      by (simp add: wait_bound_def)
  next
    case 2
    have "0 < pri (mem s) p" using p waitingD(9) [OF w, of p] by (simp add: running_def in_range_def)
    then show ?thesis
      using same_fields_sums(3) [OF inv(3) 2(4)] 2(2,4) [OF p] by (simp add: wait_bound_def)
  qed
qed

text \<open>Taking ticks from the current task makes the others wait less.\<close>

lemma set_counter_wait:
  assumes inv: "sched_inv s" and p: "p \<in> running s" "p \<noteq> current s"
    and v: "0 \<le> sint v" "sint v < cnt (mem s) (current s)"
  shows "wait_bound (set_field off_counter (current s) v s) p < wait_bound s p"
proof -
  have w: "waiting s" using inv by (simp add: sched_inv_def)
  have "ticks_left (set_field off_counter (current s) v s) A < ticks_left s A" if "current s \<in> A" for A
    using ticks_left_set_counter [OF inv that v(1)] v by linarith
  moreover have "cnt (mem (set_field off_counter (current s) v s)) p = cnt (mem s) p"
    using set_counter_fields(2) [OF w, of p] p by (auto simp: running_def runs_def)
  ultimately show ?thesis using p(2) shares_set_counter [OF w] by (simp add: wait_bound_def)
qed

lemma set_counter_same:
  assumes "sched_inv s" "sint v = cnt (mem s) (current s)"
  shows "set_field off_counter (current s) v s = s"
proof -
  have "v = mem s (current s + off_counter)" using assms(2) by (metis signed_word_eqI cnt_def)
  then show ?thesis by (simp add: set_field_def)
qed

lemma sint_pred:
  fixes v :: u64
  assumes "0 \<le> sint v"
  shows "sint (v - 1) = sint v - 1"
proof -
  have "sint (word_of_int (sint v - 1) :: u64) = sint v - 1"
    unfolding sint_sbintrunc' using assms sint_lt [of v]
    by (intro signed_take_bit_int_eq_self) simp_all
  then show ?thesis by simp
qed

lemma irq_same [simp]:
  "preempt (enable_irq s) p = preempt s p" "preempt (disable_irq s) p = preempt s p"
  "waiting (enable_irq s) = waiting s" "waiting (disable_irq s) = waiting s"
  "sched_inv (enable_irq s) = sched_inv s" "sched_inv (disable_irq s) = sched_inv s"
  "running (enable_irq s) = running s" "running (disable_irq s) = running s"
  "wait_bound (enable_irq s) p = wait_bound s p" "wait_bound (disable_irq s) p = wait_bound s p"
  by (simp_all add: preempt_def get_field_def waiting_def sched_state_def sched_inv_def running_def
      wait_bound_def ticks_left_def shares_def)

lemma tick_end_same [simp]:
  "preempt (tick_end c s) p = preempt s p" "waiting (tick_end c s) = waiting s" "sched_inv (tick_end c s) = sched_inv s"
  "running (tick_end c s) = running s" "wait_bound (tick_end c s) p = wait_bound s p"
  by (simp_all add: tick_end_def)

text \<open>A tick: one less, or the slice is over and \<open>_schedule\<close> is called.\<close>

lemma tick_cases:
  assumes inv: "sched_inv s"
  shows "1 < cnt (mem s) (current s) \<Longrightarrow> tick_with sched s =
      Some (set_field off_counter (current s) (get_field off_counter (current s) s - 1) s)"
    and "cnt (mem s) (current s) \<le> 1 \<Longrightarrow> tick_with sched s =
      map_option (tick_end (current s)) (sched (enable_irq (set_field off_counter (current s) 0 s)))"
proof -
  let ?c = "mem s (current s + off_counter)"
  have w: "waiting s" using inv by (simp add: sched_inv_def)
  have "mem s (current s + off_preempt_count) = 0"
    using waitingD(8) [OF w waitingD(3,4) [OF w]] by (simp add: preempt_def get_field_def)
  moreover have "current s + off_preempt_count \<noteq> current s + off_counter" by (simp add: layout_defs)
  ultimately have pre: "get_field off_preempt_count (current s) (set_field off_counter (current s) v s) = 0" for v
    by (simp add: field_defs)
  have "0 \<le> sint ?c"
    using inv waitingD(9) [OF w waitingD(3) [OF w]] by (simp add: sched_inv_def in_range_def cnt_def)
  then have dec: "sint (?c - 1) = cnt (mem s) (current s) - 1" by (simp add: sint_pred cnt_def)
  have new: "get_field off_counter (current s) (set_field off_counter (current s) v s) = v" for v
    by (simp add: field_defs)
  have twice: "set_field off_counter (current s) v (set_field off_counter (current s) u s) =
      set_field off_counter (current s) v s" for u v
    by (simp add: set_field_def)
  have c: "get_field off_counter (current s) s = ?c" by (simp add: get_field_def)
  show "1 < cnt (mem s) (current s) \<Longrightarrow> tick_with sched s =
      Some (set_field off_counter (current s) (get_field off_counter (current s) s - 1) s)"
    by (simp add: tick_with_def Let_def new c dec)
  show "cnt (mem s) (current s) \<le> 1 \<Longrightarrow> tick_with sched s =
      map_option (tick_end (current s)) (sched (enable_irq (set_field off_counter (current s) 0 s)))"
    by (simp add: tick_with_def Let_def new pre c dec twice)
qed

section \<open>The contract of _schedule\<close>

locale scheduler =
  fixes sched :: "kernel \<Rightarrow> kernel option"
  assumes sched_meets: "sched_state s \<Longrightarrow> \<exists>s'. sched s = Some s' \<and> scheduled s s'"
begin

text \<open>The current task gives up its ticks and \<open>_schedule\<close> is called, from the state \<open>t\<close>.\<close>

lemma give_up:
  assumes inv: "sched_inv s" and t: "t = set_field off_counter (current s) 0 s \<or>
      t = enable_irq (set_field off_counter (current s) 0 s)"
  obtains s' where "sched t = Some s'" "scheduled t s'" "waiting t" "sched_inv s'" "task s' = task s"
    "running s' = running s"
    "\<forall>p \<in> running s. p \<noteq> current s \<longrightarrow> patience s' p < patience s p"
proof -
  let ?s = "set_field off_counter (current s) 0 s"
  have w: "waiting s" using inv by (simp add: sched_inv_def)
  have "waiting ?s" by (rule set_counter_waiting [OF w]) simp_all
  moreover have "running ?s = running s"
    using set_counter_fields(1) [OF w] by (auto simp: running_def runs_def)
  ultimately have t': "waiting t" "running t = running s" "task t = task s"
      "\<And>p. wait_bound t p = wait_bound ?s p"
    using t by (elim disjE; simp only: irq_same irq_rest set_field_rest)+
  obtain s' where s': "sched t = Some s'" "scheduled t s'"
    using sched_meets [OF waitingD(1) [OF t'(1)]] by blast
  note inv' = scheduled_inv [OF t'(1) s'(2)]
  have less: "patience s' p < patience s p" if p: "p \<in> running s" "p \<noteq> current s" for p
  proof -
    have "patience s' p \<le> wait_bound ?s p"
      using scheduled_wait [OF t'(1) s'(2), of p] p(1) inv'(4) by (simp add: t' patience_def)
    also have "\<dots> < patience s p"
    proof (cases "cnt (mem s) (current s) = 0")
      case True
      then show ?thesis using set_counter_same [OF inv, of 0] by (simp add: patience_def)
    next
      case False
      then have "0 < cnt (mem s) (current s)"
        using inv waitingD(9) [OF w waitingD(3) [OF w]] by (simp add: sched_inv_def in_range_def)
      then show ?thesis using set_counter_wait [OF inv p, of 0] by (simp add: patience_def)
    qed
    finally show ?thesis .
  qed
  show thesis
  proof (rule that [OF s' t'(1) inv'(1)])
    show "task s' = task s" "running s' = running s" by (simp_all only: inv' t')
    show "\<forall>p \<in> running s. p \<noteq> current s \<longrightarrow> patience s' p < patience s p"
      by (intro ballI impI) (rule less)
  qed
qed

lemma step_inv:
  assumes inv: "sched_inv s"
  shows "\<exists>s'. sched_step sched e s = Some s' \<and> sched_inv s' \<and> task s' = task s \<and> running s' = running s \<and>
    (\<forall>p \<in> running s. p \<noteq> current s \<longrightarrow> patience s' p < patience s p)"
proof -
  have w: "waiting s" using inv by (simp add: sched_inv_def)
  let ?s = "set_field off_counter (current s) 0 s"
  show ?thesis
  proof (cases e)
    case Yield
    obtain s' where "sched ?s = Some s'" "scheduled ?s s'" "waiting ?s" "sched_inv s'" "task s' = task s" "running s' = running s"
        "\<forall>p \<in> running s. p \<noteq> current s \<longrightarrow> patience s' p < patience s p"
      by (rule give_up [OF inv disjI1 [OF refl]])
    then show ?thesis by (simp add: Yield yield_with_def)
  next
    case Tick
    show ?thesis
    proof (cases "1 < cnt (mem s) (current s)")
      case False
      then have run: "tick_with sched s = map_option (tick_end (current s)) (sched (enable_irq ?s))"
        using tick_cases(2) [OF inv] by simp
      have "patience (tick_end c s') p = patience s' p" for s' p c by (simp add: patience_def)
      obtain s' where "sched (enable_irq ?s) = Some s'" "scheduled (enable_irq ?s) s'"
          "waiting (enable_irq ?s)" "sched_inv s'" "task s' = task s"
          "running s' = running s" "\<forall>p \<in> running s. p \<noteq> current s \<longrightarrow> patience s' p < patience s p"
        by (rule give_up [OF inv disjI2 [OF refl]])
      with \<open>\<And>p s' c. patience (tick_end c s') p = patience s' p\<close> show ?thesis by (simp add: Tick run)
    next
      case True
      let ?v = "get_field off_counter (current s) s - 1"
      let ?t = "set_field off_counter (current s) ?v s"
      have v: "sint ?v = cnt (mem s) (current s) - 1"
        using True by (simp add: sint_pred get_field_def cnt_def)
      have "cnt (mem s) (current s) < 2 ^ 31"
        using inv waitingD(9) [OF w waitingD(3) [OF w]] by (simp add: sched_inv_def in_range_def)
      then have "waiting ?t" using True v by (intro set_counter_waiting [OF w]) simp_all
      moreover note f = set_counter_fields [OF w waitingD(3,4) [OF w], of ?v]
      ultimately have "sched_inv ?t" using inv by (simp add: sched_inv_def)
      moreover have "running ?t = running s"
        using set_counter_fields(1) [OF w] by (auto simp: running_def runs_def)
      moreover have "patience ?t p < patience s p" if "p \<in> running s" "p \<noteq> current s" for p
        using set_counter_wait [OF inv that, of ?v] True f(2) v by (simp add: patience_def)
      ultimately show ?thesis using tick_cases(1) [OF inv True] by (simp add: Tick)
    qed
  qed
qed

text \<open>Any sequence of events keeps the invariant.\<close>

lemma run_inv:
  "sched_inv s \<Longrightarrow> \<exists>s'. sched_run sched es s = Some s' \<and> sched_inv s' \<and> task s' = task s \<and> running s' = running s"
proof (induction es arbitrary: s)
  case (Cons e es)
  then show ?case using step_inv [of s e] by fastforce
qed simp

text \<open>After as many events as the patience says, every running task has had the processor.\<close>

lemma no_starvation:
  "sched_inv s \<Longrightarrow> p \<in> running s \<Longrightarrow> patience s p \<le> length es \<Longrightarrow>
    \<exists>n s'. n \<le> patience s p \<and> sched_run sched (take n es) s = Some s' \<and> current s' = p"
proof (induction "patience s p" arbitrary: s es rule: less_induct)
  case less
  show ?case
  proof (cases "p = current s")
    case True
    then show ?thesis by (intro exI [of _ 0]) simp
  next
    case False
    have "patience s p \<noteq> 0" using step_inv [OF less.prems(1), of Tick] less.prems(2) False by fastforce
    then obtain e es' where es: "es = e # es'" using less.prems(3) by (cases es) simp_all
    obtain s1 where s1: "sched_step sched e s = Some s1" "sched_inv s1" "running s1 = running s"
        "patience s1 p < patience s p"
      using step_inv [OF less.prems(1), of e] less.prems(2) False by blast
    have "\<exists>n s'. n \<le> patience s1 p \<and> sched_run sched (take n es') s1 = Some s' \<and> current s' = p"
      using s1 less.prems es by (intro less.hyps) simp_all
    then obtain n s' where "n \<le> patience s1 p" "sched_run sched (take n es') s1 = Some s'" "current s' = p"
      by blast
    then show ?thesis using s1 es by (intro exI [of _ "Suc n"] exI [of _ s']) simp
  qed
qed

text \<open>A time slice: the ticks of a task come one after the other, then \<open>_schedule\<close>.\<close>

lemma slice_ticks:
  "sched_inv s \<Longrightarrow> int n < cnt (mem s) (current s) \<Longrightarrow>
    sched_run sched (replicate n Tick) s =
      Some (set_field off_counter (current s) (get_field off_counter (current s) s - word_of_nat n) s)"
proof (induction n arbitrary: s)
  case 0
  then show ?case by (simp add: set_field_def get_field_def)
next
  case (Suc n)
  let ?c = "get_field off_counter (current s) s"
  let ?s = "set_field off_counter (current s) (?c - 1) s"
  have more: "1 < cnt (mem s) (current s)" using Suc.prems(2) by simp
  have step: "tick_with sched s = Some ?s" by (rule tick_cases(1) [OF Suc.prems(1) more])
  then have inv: "sched_inv ?s" using step_inv [OF Suc.prems(1), of Tick] by simp
  have c: "get_field off_counter (current s) ?s = ?c - 1" by (simp add: field_defs)
  have "sint (?c - 1) = cnt (mem s) (current s) - 1"
    using more by (simp add: sint_pred get_field_def cnt_def)
  then have "int n < cnt (mem ?s) (current ?s)" using Suc.prems(2) c by (simp add: cnt_def get_field_def)
  from Suc.IH [OF inv this] show ?case
    by (simp add: step c) (simp add: set_field_def algebra_simps)
qed

lemma slice_end:
  assumes inv: "sched_inv s" and c: "cnt (mem s) (current s) = int (Suc n)"
  shows "\<exists>s'. sched_run sched (replicate (Suc n) Tick) s = Some s' \<and>
    Some s' = map_option (tick_end (current s)) (sched (enable_irq (set_field off_counter (current s) 0 s)))"
proof -
  let ?t = "set_field off_counter (current s) 1 s"
  have "word_of_int (sint (get_field off_counter (current s) s)) = get_field off_counter (current s) s"
    by simp
  then have "get_field off_counter (current s) s = word_of_int (int (Suc n))"
    using c by (simp only: cnt_def get_field_def)
  then have "get_field off_counter (current s) s - word_of_nat n = 1"
    by (simp only: of_int_of_nat_eq of_int_add of_int_1 int_Suc add_diff_cancel_right' add_diff_cancel_left')
  moreover have "int n < cnt (mem s) (current s)" using c by linarith
  ultimately have run: "sched_run sched (replicate n Tick) s = Some ?t"
    using slice_ticks [OF inv, of n] by (simp only:)
  then have t: "sched_inv ?t" using run_inv [OF inv, of "replicate n Tick"] by simp
  have "cnt (mem ?t) (current ?t) = 1" by (simp add: cnt_def set_field_def)
  then have "tick_with sched ?t = map_option (tick_end (current s)) (sched (enable_irq (set_field off_counter (current s) 0 ?t)))"
    using tick_cases(2) [OF t] by simp
  also have "set_field off_counter (current s) 0 ?t = set_field off_counter (current s) 0 s"
    by (simp add: set_field_def)
  finally have tick: "tick_with sched ?t =
      map_option (tick_end (current s)) (sched (enable_irq (set_field off_counter (current s) 0 s)))" .
  obtain s' where s': "sched_step sched Tick ?t = Some s'" using step_inv [OF t, of Tick] by blast
  have "sched_run sched (replicate (Suc n) Tick) s = sched_run sched (replicate n Tick @ [Tick]) s"
    by (simp only: replicate_append_same replicate_Suc)
  also have "\<dots> = Some s'" using s' by (simp only: sched_run_append run) simp
  finally show ?thesis using s' [unfolded sched_step.simps tick] by (metis sym)
qed

end

sublocale context_switch \<subseteq> scheduler "schedule_with sw"
  using schedule_with_scheduled by unfold_locales blast

interpretation sched_l6: scheduler do_schedule
  using switch_l6.scheduler_axioms by (simp add: do_schedule_def [abs_def])

interpretation sched_l5: scheduler do_schedule_l5
  using switch_l5.scheduler_axioms by (simp add: do_schedule_l5_def [abs_def])

interpretation sched_l4: scheduler do_schedule_l4
  using switch_l4.scheduler_axioms by (simp add: do_schedule_l4_def [abs_def])

end
