(* ===== verification/Sched_Props.thy ===== *)
theory Sched_Props
  imports Sched_Fair
begin

text \<open>
  The properties of the scheduler: \<open>_schedule\<close> of lessons 4, 5 and 6 meets its specification
  and always returns; when it cannot; the context switch; the timer tick; the end of a
  process.
\<close>

unbundle bit_operations_syntax

section \<open>A concrete state\<close>

text \<open>Two tasks of priority 15 at \<open>A\<close> and \<open>B\<close>: \<open>A\<close> is current, with 3 ticks left, \<open>B\<close> has 7.\<close>

definition task_A :: addr where "task_A = 0xffff000000080000"
definition task_B :: addr where "task_B = 0xffff000000400000"

definition pair_memory :: memory where
  "pair_memory = (\<lambda>_. 0)(task_A + off_priority := 15, task_A + off_counter := 3,
     task_B + off_priority := 15, task_B + off_counter := 7, task_B + off_preempt_count := 1)"

definition pair_kernel :: kernel where
  "pair_kernel = boot_kernel\<lparr>mem := pair_memory, current := task_A, task := [task_A, task_B], nr_tasks := 2\<rparr>"

lemma pair_offsets:
  "unat x < 4096 \<Longrightarrow> unat y < 4096 \<Longrightarrow> task_A + x \<noteq> task_B + y"
  by (rule page_offset_neq) (simp_all add: task_A_def task_B_def page_aligned_def word_less_nat_alt)

lemma pair_apart: "structs_apart [task_A, task_B]"
  using pair_offsets pair_offsets [THEN not_sym]
  by (auto simp: structs_apart_def less_Suc_eq nth_Cons')

lemma pair_fields:
  "mem pair_kernel (task_A + off_state) = 0" "mem pair_kernel (task_B + off_state) = 0"
  "mem pair_kernel (task_A + off_counter) = 3" "mem pair_kernel (task_B + off_counter) = 7"
  "mem pair_kernel (task_A + off_priority) = 15" "mem pair_kernel (task_B + off_priority) = 15"
  "mem pair_kernel (task_A + off_preempt_count) = 0" "mem pair_kernel (task_B + off_preempt_count) = 1"
  by (simp_all add: pair_kernel_def pair_memory_def task_A_def task_B_def layout_defs)

lemma pair_tasks: "task pair_kernel = [task_A, task_B]" "current pair_kernel = task_A"
    "task_A \<noteq> 0" "task_B \<noteq> 0" "task_A \<noteq> task_B"
  by (simp_all add: pair_kernel_def task_A_def task_B_def)

lemma pair_state: "sched_state pair_kernel"
  using pair_apart
  by (auto simp: sched_state_def sched_ready_def pair_tasks runs_def cnt_def pri_def pair_fields)

lemma pair_choice: "choice (mem pair_kernel) (task pair_kernel) k \<longleftrightarrow> k = 1"
proof -
  have "choice (mem pair_kernel) (task pair_kernel) 1"
    by (auto simp: choice_def pair_tasks runs_def cnt_def pair_fields TASK_RUNNING_def less_Suc_eq nth_Cons')
  then show ?thesis using choice_unique by blast
qed

section \<open>_schedule\<close>

text \<open>
  C16. \<open>_schedule\<close> of each of lessons 4, 5 and 6 returns, and does what \<open>scheduled\<close> says: it
  chooses the first running task with the greatest counter if that is positive; if the
  greatest counter is 0 it recharges every task (half the counter plus the priority) and
  chooses among the new counters; if no running task has a counter of 0 or more it takes
  \<open>task[0]\<close>. The chosen task becomes current with its own registers, the old one's are
  saved, the old task's preemption counter ends one higher, the new one's one lower, and all
  other fields of all tasks are as chosen.
\<close>

theorem schedule_correct:
  assumes "sched_state s" and "sched \<in> {do_schedule, do_schedule_l5, do_schedule_l4}"
  shows "\<exists>s'. sched s = Some s' \<and> scheduled s s'"
proof -
  obtain s6 s5 s4 where "do_schedule s = Some s6" "scheduled s s6"
    "do_schedule_l5 s = Some s5" "scheduled s s5" "do_schedule_l4 s = Some s4" "scheduled s s4"
    unfolding do_schedule_def do_schedule_l5_def do_schedule_l4_def
    using switch_l6.schedule_with_scheduled [OF assms(1)] switch_l5.schedule_with_scheduled [OF assms(1)]
      switch_l4.schedule_with_scheduled [OF assms(1)] by metis
  with assms(2) show ?thesis by auto
qed

lemma pair_scheduled:
  assumes "scheduled pair_kernel s'"
  shows "current s' = task_B"
proof -
  obtain k m where "chosen (task pair_kernel) (mem pair_kernel) k m" and cur: "current s' = task pair_kernel ! k"
    using assms unfolding scheduled_def by blast
  then consider "no_choice (mem pair_kernel) (task pair_kernel)" | "choice (mem pair_kernel) (task pair_kernel) k"
    | "\<forall>p \<in> set (task pair_kernel). runs (mem pair_kernel) p \<longrightarrow> cnt (mem pair_kernel) p \<le> 0"
    unfolding chosen_def by blast
  then show ?thesis
  proof cases
    case 2
    then show ?thesis using cur pair_choice by (simp add: pair_tasks)
  qed (auto simp: no_choice_def pair_tasks runs_def cnt_def pair_fields TASK_RUNNING_def)
qed

theorem schedule_correct_witness:
  "\<exists>s'. do_schedule pair_kernel = Some s' \<and> current s' = task_B"
  using schedule_correct [OF pair_state, of do_schedule] pair_scheduled by auto

definition sched_stuck :: "addr list \<Rightarrow> memory \<Rightarrow> bool" where
  "sched_stuck ts m \<longleftrightarrow> structs_apart ts \<and>
     (\<exists>p \<in> set ts. runs m p \<and> m (p + off_counter) = 0) \<and>
     (\<forall>p \<in> set ts. runs m p \<longrightarrow> m (p + off_priority) = 0 \<and> m (p + off_counter) = 0)"

lemma stuck_recharge:
  assumes "sched_stuck ts m"
  shows "sched_stuck ts (sched_recharge ts m)"
proof -
  have apart: "structs_apart ts" using assms by (simp add: sched_stuck_def)
  have "recharged 0 0 = 0" by (simp add: recharged_def)
  then have same: "sched_recharge ts m (p + off_counter) = 0" "sched_recharge ts m (p + off_priority) = 0"
    if "p \<in> set ts" "runs m p" for p
    using assms that sched_recharge_counter [OF apart that(1), of m]
      sched_recharge_field [OF apart that(1), of off_priority m]
    by (auto simp: sched_stuck_def runs_def layout_defs)
  have "runs (sched_recharge ts m) p \<longleftrightarrow> runs m p" if "p \<in> set ts" for p
    by (rule recharge_runs(1) [OF apart that])
  then show ?thesis using same assms unfolding sched_stuck_def by blast
qed

lemma stuck_scan:
  assumes "sched_stuck ts m"
  shows "fst (sched_scan m ts 0 (-1) 0) = 0"
proof -
  have zero: "cnt m p = 0" if "p \<in> set ts" "runs m p" for p
    using assms that by (simp add: sched_stuck_def cnt_def)
  have bound: "\<forall>p \<in> set ts. runs m p \<longrightarrow> cnt m p < 2 ^ 31" using zero by simp
  obtain p where p: "p \<in> set ts" "runs m p" using assms by (auto simp: sched_stuck_def)
  show ?thesis
  proof (cases rule: scan_cases [OF bound])
    case 1
    then show ?thesis using p zero [OF p] by (auto simp: no_choice_def)
  next
    case (2 k c)
    then have "sint c = 0" using zero [of "ts ! k"] by (simp add: choice_def)
    then have "c = 0" by (metis signed_0 signed_word_eqI)
    then show ?thesis using 2(1) by simp
  qed
qed

text \<open>
  The loop of \<open>_schedule\<close> needs the priorities: when no running task has a positive
  counter, one has counter 0 and all of them have priority 0, every recharge leaves it so
  and the loop never ends.
\<close>

theorem schedule_needs_priority:
  assumes "sched_stuck ts m"
  shows "sched_loop ts m = None"
proof -
  have "\<not> sched_stuck ts m" if "sched_loop ts m = Some y" for y
  proof (rule sched_loop.raw_induct [where P = "\<lambda>ts m y. \<not> sched_stuck ts m", OF _ that])
    fix f :: "addr list \<Rightarrow> memory \<Rightarrow> (nat \<times> memory) option" and ts m y
    assume IH: "\<And>ts m y. f ts m = Some y \<Longrightarrow> \<not> sched_stuck ts m"
      and step: "(case sched_scan m ts 0 (- 1) 0 of (c, nxt) \<Rightarrow>
          if c \<noteq> 0 then Some (nxt, m) else f ts (sched_recharge ts m)) = Some y"
    show "\<not> sched_stuck ts m"
    proof
      assume stuck: "sched_stuck ts m"
      then have "f ts (sched_recharge ts m) = Some y"
        using step stuck_scan [OF stuck] by (auto split: prod.splits)
      then show False using IH stuck_recharge [OF stuck] by blast
    qed
  qed
  then show ?thesis using assms by (cases "sched_loop ts m") auto
qed

theorem schedule_needs_priority_witness:
  "sched_loop [task_A] (\<lambda>_. 0) = None"
proof -
  have "sched_stuck [task_A] (\<lambda>_. 0)"
    by (simp add: sched_stuck_def structs_apart_def runs_def TASK_RUNNING_def task_A_def)
  then show ?thesis by (rule schedule_needs_priority)
qed

text \<open>One positive counter or priority is enough for the loop to end.\<close>

lemma sched_loop_ends:
  assumes apart: "structs_apart ts" and range: "\<forall>q \<in> set ts. runs m q \<longrightarrow>
      0 \<le> cnt m q \<and> cnt m q < 2 ^ 31 \<and> 0 \<le> pri m q \<and> pri m q < 2 ^ 31"
    and p: "p \<in> set ts" "runs m p" "0 < cnt m p \<or> 0 < pri m p"
  shows "\<exists>r. sched_loop ts m = Some r"
proof -
  have low: "\<forall>q \<in> set ts. runs m q \<longrightarrow> cnt m q < 2 ^ 31" using range by blast
  show ?thesis
  proof (cases rule: scan_cases [OF low])
    case 1
    then show ?thesis using p range by (force simp: no_choice_def)
  next
    case (2 k c)
    note scan = 2
    show ?thesis
    proof (cases "c = 0")
      case False
      then show ?thesis using 2(1) by (subst sched_loop.simps) simp
    next
      case True
      let ?m = "sched_recharge ts m"
      have zero: "cnt m q = 0" if "q \<in> set ts" "runs m q" for q
        using scan(2,3) True range that unfolding choice_def in_set_conv_nth by fastforce
      have new: "cnt ?m q = pri m q" if q: "q \<in> set ts" "runs m q" for q
        using zero [OF q] range q sched_recharge_counter [OF apart q(1), of m]
          sint_recharged [of "m (q + off_counter)" "m (q + off_priority)"]
        by (auto simp: runs_def cnt_def pri_def)
      note runs = recharge_runs(1) [OF apart, of _ m]
      have pos: "runs ?m p" "0 < cnt ?m p" using p zero [OF p(1,2)] new [OF p(1,2)] runs by auto
      have bound: "\<forall>q \<in> set ts. runs ?m q \<longrightarrow> cnt ?m q < 2 ^ 31" using runs new range by auto
      have once: "sched_loop ts m = sched_loop ts ?m" using scan(1) True by (subst sched_loop.simps) simp
      show ?thesis
      proof (cases rule: scan_cases [OF bound])
        case 1
        then show ?thesis using p(1) pos by (force simp: no_choice_def)
      next
        case (2 l d)
        have "cnt ?m p \<le> cnt ?m (ts ! l)"
          using 2(2) p(1) pos(1) unfolding choice_def in_set_conv_nth by blast
        then have "d \<noteq> 0" using 2(3) pos(2) by auto
        then show ?thesis using once 2(1) by (subst (asm) sched_loop.simps [of ts ?m]) simp
      qed
  qed
qed
qed

text \<open>
  C17. When the loop of \<open>_schedule\<close> ends. For tasks whose counters and priorities are not negative
  and fit in an \<open>int\<close>: exactly when no task is running, or a running one has a positive counter
  or a positive priority. Otherwise every recharge leaves all counters at 0 and the kernel hangs.
\<close>

theorem schedule_loop_ends_iff:
  assumes "structs_apart ts" and "\<forall>p \<in> set ts. runs m p \<longrightarrow>
      0 \<le> cnt m p \<and> cnt m p < 2 ^ 31 \<and> 0 \<le> pri m p \<and> pri m p < 2 ^ 31"
  shows "(\<exists>r. sched_loop ts m = Some r) \<longleftrightarrow>
    (\<forall>p \<in> set ts. \<not> runs m p) \<or> (\<exists>p \<in> set ts. runs m p \<and> (0 < cnt m p \<or> 0 < pri m p))"
proof (cases "\<exists>p \<in> set ts. runs m p \<and> (0 < cnt m p \<or> 0 < pri m p)")
  case True
  then show ?thesis using sched_loop_ends [OF assms] by blast
next
  case False
  have "cnt m p = 0 \<and> pri m p = 0" if "p \<in> set ts" "runs m p" for p
    using False assms(2) that by force
  then have zero: "m (p + off_counter) = 0 \<and> m (p + off_priority) = 0" if "p \<in> set ts" "runs m p" for p
    using that by (metis cnt_def pri_def signed_0 signed_word_eqI)
  show ?thesis
  proof (cases "\<exists>p \<in> set ts. runs m p")
    case True
    then have "sched_stuck ts m" using assms(1) zero unfolding sched_stuck_def by blast
    then show ?thesis using schedule_needs_priority False True by auto
  next
    case none: False
    have "\<forall>p \<in> set ts. runs m p \<longrightarrow> cnt m p < 2 ^ 31" using none by blast
    then have "\<exists>r. sched_loop ts m = Some r"
    proof (cases rule: scan_cases)
      case 1
      then show ?thesis by (subst sched_loop.simps) simp
    next
      case (2 k c)
      then show ?thesis using none by (auto simp: choice_def)
    qed
    then show ?thesis using none by blast
  qed
qed

theorem schedule_loop_ends_iff_witness:
  "sched_loop [task_A] (\<lambda>_. 0) = None \<and> (\<exists>r. sched_loop [task_A] ((\<lambda>_. 0)(task_A + off_priority := 1)) = Some r)"
proof -
  have apart: "structs_apart [task_A]" by (simp add: structs_apart_def)
  have runs: "runs (\<lambda>_. 0) task_A" "runs ((\<lambda>_. 0)(task_A + off_priority := 1)) task_A"
    by (simp_all add: runs_def layout_defs task_A_def)
  show ?thesis
    using schedule_loop_ends_iff [OF apart, of "\<lambda>_. 0"]
      schedule_loop_ends_iff [OF apart, of "(\<lambda>_. 0)(task_A + off_priority := 1)"] runs
    by (cases "sched_loop [task_A] (\<lambda>_. 0)") (auto simp: cnt_def pri_def layout_defs)
qed

section \<open>The scheduler over time\<close>

lemma pair_inv: "sched_inv pair_kernel"
  unfolding sched_inv_def
proof
  show "waiting pair_kernel"
    using pair_apart
    by (intro waitingI) (auto simp: pair_tasks runs_def cnt_def pri_def pair_fields preempt_def
        get_field_def in_range_def TASK_RUNNING_def)
  show "runs (mem pair_kernel) (current pair_kernel)"
    by (simp add: pair_tasks runs_def pair_fields TASK_RUNNING_def)
qed

lemma pair_running: "running pair_kernel = {task_A, task_B}"
  by (auto simp: running_def runs_def pair_tasks pair_fields TASK_RUNNING_def)

text \<open>
  C19. Whatever timer ticks and calls of \<open>schedule\<close> follow each other, in lessons 4, 5 and 6:
  each returns, the task table and the set of running tasks stay the same, the current task
  is one of them, its preemption counter is 0 and that of every other task is 1, and every
  running task has between 0 and \<open>INT_MAX\<close> ticks left and a priority of at least 1.
\<close>

theorem scheduler_invariant:
  assumes "sched_inv s" and "sched \<in> {do_schedule, do_schedule_l5, do_schedule_l4}"
  shows "\<exists>s'. sched_run sched es s = Some s' \<and> sched_inv s' \<and> task s' = task s \<and> running s' = running s \<and>
    (\<forall>p \<in> set (task s). p \<noteq> 0 \<longrightarrow> preempt s' p = (if p = current s' then 0 else 1)) \<and>
    (\<forall>p \<in> running s. 0 \<le> cnt (mem s') p \<and> cnt (mem s') p < 2 ^ 31 \<and> 1 \<le> pri (mem s') p)"
proof -
  obtain s' where run: "sched_run sched es s = Some s'" "sched_inv s'" "task s' = task s" "running s' = running s"
    using assms(2) sched_l6.run_inv [OF assms(1), of es] sched_l5.run_inv [OF assms(1), of es]
      sched_l4.run_inv [OF assms(1), of es] by auto
  have w: "waiting s'" using run(2) by (simp add: sched_inv_def)
  have "0 \<le> cnt (mem s') p \<and> cnt (mem s') p < 2 ^ 31 \<and> 1 \<le> pri (mem s') p" if "p \<in> running s" for p
    using that waitingD(9) [OF w, of p] run(4) by (auto simp: running_def in_range_def)
  then show ?thesis using run waitingD(8) [OF w] by simp
qed

theorem scheduler_invariant_witness:
  "\<exists>s'. sched_run do_schedule [Tick, Yield, Tick, Tick] pair_kernel = Some s' \<and>
    running s' = {task_A, task_B} \<and> 1 \<le> pri (mem s') task_B"
  using scheduler_invariant [OF pair_inv, of do_schedule "[Tick, Yield, Tick, Tick]"] pair_running by auto

text \<open>
  C18. No running task starves: along every sequence of timer ticks and calls of \<open>schedule\<close>, a
  running task becomes current after at most as many events as the ticks left to the others,
  plus one, if it has ticks left itself; and otherwise as the ticks left to all the running
  tasks plus the priorities of the others, plus two.
\<close>

theorem scheduler_no_starvation:
  assumes "sched_inv s" and "p \<in> running s" and "sched \<in> {do_schedule, do_schedule_l5, do_schedule_l4}"
    and "(if 0 < cnt (mem s) p then ticks_left s (running s - {p}) + 1
          else ticks_left s (running s) + shares s (running s - {p}) + 2) \<le> length es"
  shows "\<exists>n s'. n \<le> length es \<and> sched_run sched (take n es) s = Some s' \<and> current s' = p"
proof -
  have A: "running s \<inter> (running s - {p}) = running s \<inter> - {p}" "running s \<inter> running s = running s \<inter> UNIV" by auto
  have "ticks_left s (running s - {p}) = ticks_left s (- {p})" "ticks_left s (running s) = ticks_left s UNIV"
    "shares s (running s - {p}) = shares s (- {p})"
    by (simp_all only: ticks_left_def shares_def A)
  then have "patience s p \<le> length es"
    using assms(4) by (auto simp: patience_def wait_bound_def split: if_splits)
  with assms(3) sched_l6.no_starvation [OF assms(1,2) this] sched_l5.no_starvation [OF assms(1,2) this]
    sched_l4.no_starvation [OF assms(1,2) this]
  show ?thesis by (elim insertE emptyE) (metis order_trans)+
qed

theorem scheduler_no_starvation_witness:
  "\<exists>n s'. n \<le> 4 \<and> sched_run do_schedule (take n (replicate 4 Tick)) pair_kernel = Some s' \<and> current s' = task_B"
proof -
  have "running pair_kernel \<inter> (running pair_kernel - {task_B}) = {task_A}"
    using pair_tasks by (auto simp: pair_running)
  then have "ticks_left pair_kernel (running pair_kernel - {task_B}) = 3"
    by (simp add: ticks_left_def cnt_def pair_fields)
  moreover have "task_B \<in> running pair_kernel" by (simp add: pair_running)
  ultimately show ?thesis
    using scheduler_no_starvation [OF pair_inv, of task_B do_schedule "replicate 4 Tick"]
    by (simp add: cnt_def pair_fields)
qed

text \<open>
  A time slice: with \<open>n\<close> ticks left, the first \<open>n - 1\<close> timer ticks change nothing but the
  counter of the current task, which goes down by one each time; the tick after them calls
  \<open>_schedule\<close> with the counter at 0 and interrupts enabled, and masks them again if the task goes on.
\<close>

theorem time_slice:
  assumes "sched_inv s" and "cnt (mem s) (current s) = int (Suc n)"
    and "sched \<in> {do_schedule, do_schedule_l5, do_schedule_l4}"
  shows "(\<forall>k \<le> n. sched_run sched (replicate k Tick) s =
      Some (set_field off_counter (current s) (get_field off_counter (current s) s - word_of_nat k) s)) \<and>
    (\<exists>s'. sched_run sched (replicate (Suc n) Tick) s = Some s' \<and> (current s' = current s \<longrightarrow> irq_masked (cpu s')) \<and>
      Some s' = map_option (tick_end (current s)) (sched (enable_irq (set_field off_counter (current s) 0 s))))"
proof -
  have sch: "scheduler sched"
    using assms(3) sched_l6.scheduler_axioms sched_l5.scheduler_axioms sched_l4.scheduler_axioms by auto
  obtain s' where "sched_run sched (replicate (Suc n) Tick) s = Some s'"
    "Some s' = map_option (tick_end (current s)) (sched (enable_irq (set_field off_counter (current s) 0 s)))"
    using scheduler.slice_end [OF sch assms(1,2)] by blast
  moreover from this(2) have "current s' = current s \<longrightarrow> irq_masked (cpu s')"
    by (cases "sched (enable_irq (set_field off_counter (current s) 0 s))") (simp_all add: tick_end_def)
  moreover have "\<forall>k \<le> n. sched_run sched (replicate k Tick) s =
      Some (set_field off_counter (current s) (get_field off_counter (current s) s - word_of_nat k) s)"
    using scheduler.slice_ticks [OF sch assms(1)] assms(2) by simp
  ultimately show ?thesis by blast
qed

theorem time_slice_witness:
  "\<exists>s'. sched_run do_schedule (replicate 2 Tick) pair_kernel = Some s' \<and> current s' = task_A"
proof -
  have "cnt (mem pair_kernel) (current pair_kernel) = int (Suc 2)"
    by (simp add: cnt_def pair_tasks pair_fields)
  from time_slice [OF pair_inv this, of do_schedule] have
    "sched_run do_schedule (replicate 2 Tick) pair_kernel = Some (set_field off_counter (current pair_kernel)
      (get_field off_counter (current pair_kernel) pair_kernel - word_of_nat 2) pair_kernel)"
    by (meson insertI1 order_refl)
  then show ?thesis by (intro exI conjI) (assumption, simp add: pair_tasks)
qed

section \<open>The end of a process\<close>

lemma mark_zombie_at: "cur \<in> set ts \<Longrightarrow> mark_zombie cur ts m = m(cur + off_state := TASK_ZOMBIE)"
  by (induction ts) auto

lemma exit_marks:
  assumes "current s \<in> set (task s)"
  shows "preempt_enable ((preempt_disable s)\<lparr>mem := mark_zombie (current (preempt_disable s))
      (task (preempt_disable s)) (mem (preempt_disable s))\<rparr>) = set_field off_state (current s) TASK_ZOMBIE s"
proof -
  let ?p = "current s + off_preempt_count" and ?q = "current s + off_state"
  have "?p \<noteq> ?q" by (simp add: layout_defs)
  then have "(mem s)(?p := mem s ?p + 1, ?q := TASK_ZOMBIE, ?p := mem s ?p + 1 - 1) = (mem s)(?q := TASK_ZOMBIE)"
    by auto
  moreover have "current (preempt_disable s) = current s" "task (preempt_disable s) = task s"
    by (simp_all add: preempt_disable_def)
  ultimately show ?thesis
    using assms \<open>?p \<noteq> ?q\<close>
    by (simp add: mark_zombie_at) (simp add: preempt_disable_def preempt_enable_def field_defs)
qed

lemma zombie_waiting:
  assumes inv: "sched_inv s" and other: "q \<in> running s" "q \<noteq> current s"
  shows "waiting (set_field off_state (current s) TASK_ZOMBIE s)"
    and "running (set_field off_state (current s) TASK_ZOMBIE s) = running s - {current s}"
proof -
  let ?s = "set_field off_state (current s) TASK_ZOMBIE s"
  have w: "waiting s" using inv by (simp add: sched_inv_def)
  note f = field_set_field [OF waitingD(2,3) [OF w] _ waitingD(4) [OF w], where off' = off_state and s = s
      and v = TASK_ZOMBIE]
  have fields: "runs (mem ?s) p \<longleftrightarrow> runs (mem s) p \<and> p \<noteq> current s" "cnt (mem ?s) p = cnt (mem s) p"
      "pri (mem ?s) p = pri (mem s) p" "preempt ?s p = preempt s p"
    if "p \<in> set (task s)" "p \<noteq> 0" for p
    using f [OF that] that(2)
    by (auto simp: runs_def cnt_def pri_def preempt_def get_field_def layout_defs)
  have nz: "p \<noteq> 0" if "runs m p" for m p using that by (simp add: runs_def)
  show run: "running ?s = running s - {current s}"
    using fields(1) nz by (auto simp: running_def)
  show "waiting ?s"
  proof (rule waitingI; (unfold set_field_rest)?)
    show "\<exists>p \<in> set (task s). runs (mem ?s) p" using other run by (auto simp: running_def)
    show "in_range (mem ?s) p" if p: "p \<in> set (task s)" "runs (mem ?s) p" for p
      using waitingD(9) [OF w p(1)] fields [OF p(1) nz [OF p(2)]] p(2) by (simp add: in_range_def)
    show "preempt ?s p = (if p = current s then 0 else 1)" if "p \<in> set (task s)" "p \<noteq> 0" for p
      using fields(4) [OF that] waitingD(8) [OF w that] by simp
  qed (use waitingD [OF w] in simp_all)
qed

lemma exit_scheduled:
  assumes inv: "sched_inv s" and other: "q \<in> running s" "q \<noteq> current s"
    and sch: "scheduler sched"
  obtains s' where "yield_with sched (set_field off_state (current s) TASK_ZOMBIE s) = Some s'"
    "sched_inv s'" "task s' = task s" "running s' = running s - {current s}" "mem_map s' = mem_map s" "nr_tasks s' = nr_tasks s"
proof -
  let ?z = "set_field off_state (current s) TASK_ZOMBIE s"
  let ?t = "set_field off_counter (current s) 0 ?z"
  note z = zombie_waiting [OF inv other]
  have cur: "current ?z = current s" by simp
  have t: "waiting ?t" using set_counter_waiting [OF z(1), of 0] by (simp only: cur) simp
  have run: "running ?t = running ?z"
    using set_counter_fields(1) [OF z(1), of _ 0] unfolding cur by (auto simp: running_def runs_def)
  obtain s' where s': "sched ?t = Some s'" "scheduled ?t s'"
    using scheduler.sched_meets [OF sch waitingD(1) [OF t]] by blast
  show thesis
  proof (rule that)
    show "yield_with sched ?z = Some s'" using s'(1) by (simp only: yield_with_def cur)
    show "running s' = running s - {current s}" using scheduled_inv(3) [OF t s'(2)] run z(2) by simp
    show "task s' = task s" using scheduled_inv(2) [OF t s'(2)] by simp
    show "mem_map s' = mem_map s" "nr_tasks s' = nr_tasks s" using s'(2) by (simp_all add: scheduled_def)
  qed (rule scheduled_inv(1) [OF t s'(2)])
qed

text \<open>
  C20. When the current task exits and another task is running, \<open>exit_process\<close> switches to
  another task: the invariant holds again, the set of running tasks has lost exactly the task
  that exited, and however many timer ticks and calls of \<open>schedule\<close> follow, that task never
  becomes current again.
\<close>

theorem exit_process_final:
  assumes "sched_inv s" and "q \<in> running s" "q \<noteq> current s"
  shows "\<exists>s'. exit_process s = Some s' \<and> sched_inv s' \<and> task s' = task s \<and>
    running s' = running s - {current s} \<and>
    (\<forall>es. \<exists>t. sched_run do_schedule es s' = Some t \<and> current t \<noteq> current s)"
proof -
  have cur: "current s \<in> set (task s)" using assms(1) waitingD(3) by (simp add: sched_inv_def)
  obtain s' where s': "yield_with do_schedule (set_field off_state (current s) TASK_ZOMBIE s) = Some s'"
      "sched_inv s'" "task s' = task s" "running s' = running s - {current s}"
    using exit_scheduled [OF assms sched_l6.scheduler_axioms] by blast
  have "exit_process s = Some s'"
    using s'(1) by (simp only: exit_process_def Let_def exit_marks [OF cur] schedule_def yield_with_def)
  moreover have "\<exists>t. sched_run do_schedule es s' = Some t \<and> current t \<noteq> current s" for es
  proof -
    obtain t where t: "sched_run do_schedule es s' = Some t" "sched_inv t" "task t = task s'" "running t = running s'"
      using sched_l6.run_inv [OF s'(2)] by blast
    then have "current t \<in> running s'" using current_running by blast
    then show ?thesis using t(1) s'(4) by blast
  qed
  ultimately show ?thesis using s' by blast
qed

theorem exit_process_final_witness:
  "\<exists>s'. exit_process pair_kernel = Some s' \<and> running s' = {task_B}"
proof -
  have "task_B \<in> running pair_kernel" "task_B \<noteq> current pair_kernel"
    using pair_tasks by (auto simp: pair_running)
  from exit_process_final [OF pair_inv this] show ?thesis
    using pair_tasks by (auto simp: pair_running)
qed

lemma free_page_Inr: "free_page p s = Inr t \<Longrightarrow> \<exists>f. t = s\<lparr>mem_map := f\<rparr>"
  by (auto simp: free_page_def Let_def split: if_splits)

text \<open>
  In lesson 5 a process gives its stack back when it ends: if the stack is a page in use,
  or there is none, \<open>exit_process\<close> switches to another task for good, as in lesson 6, and
  the stack page, and no other, is free again.
\<close>

theorem exit_process_l5_frees:
  assumes "sched_inv s" and "q \<in> running s" "q \<noteq> current s"
    and "stack_l5 (load_task_l5 (mem s) (current s)) = p" and "p = 0 \<or> p \<in> used_pages_of s"
  shows "\<exists>s'. exit_process_l5 s = Inr (Some s') \<and> sched_inv s' \<and>
    running s' = running s - {current s} \<and> used_pages_of s' = used_pages_of s - {p}"
proof -
  have w: "waiting s" using assms(1) by (simp add: sched_inv_def)
  have cur: "current s \<in> set (task s)" by (rule waitingD(3) [OF w])
  define m where "m = (preempt_disable s)\<lparr>mem := mark_zombie (current (preempt_disable s))
      (task (preempt_disable s)) (mem (preempt_disable s))\<rparr>"
  have m: "preempt_enable m = set_field off_state (current s) TASK_ZOMBIE s"
    using exit_marks [OF cur] by (simp only: m_def)
  have dis: "current (preempt_disable s) = current s" "task (preempt_disable s) = task s"
      "mem_map (preempt_disable s) = mem_map s"
    by (simp_all add: preempt_disable_def)
  have stack: "get_field off_stack_l5 (current m) m = p"
    using assms(4) cur by (simp add: m_def dis mark_zombie_at get_field_def load_task_l5_def)
      (simp add: preempt_disable_def field_defs layout_defs)
  have commute: "preempt_enable (m\<lparr>mem_map := f\<rparr>) =
      set_field off_state (current (s\<lparr>mem_map := f\<rparr>)) TASK_ZOMBIE (s\<lparr>mem_map := f\<rparr>)" for f
  proof -
    have "(set_field off a v k)\<lparr>mem_map := f\<rparr> = set_field off a v (k\<lparr>mem_map := f\<rparr>)" for off a v k
      by (cases k) (simp add: set_field_def)
    then show ?thesis
      using arg_cong [OF m, of "\<lambda>k. k\<lparr>mem_map := f\<rparr>"] by (simp add: preempt_enable_def get_field_def)
  qed
  have used: "used_pages_of m = used_pages_of s" by (rule used_pages_of_cong) (simp add: m_def dis)
  obtain f where f: "(if p \<noteq> 0 then free_page p m else Inr m) = Inr (m\<lparr>mem_map := f\<rparr>)"
      "used_pages_of (m\<lparr>mem_map := f\<rparr>) = used_pages_of s - {p}"
  proof (cases "p = 0")
    case True
    have "0 \<notin> used_pages_of s" using used_pages_subset pages.zero_not_page by blast
    then show thesis using True used by (intro that [of "mem_map m"]) simp_all
  next
    case False
    then obtain s2 where s2: "free_page p m = Inr s2" "used_pages_of s2 = used_pages_of s - {p}"
      using free_page_used [of p m] assms(5) used by auto
    obtain f where f: "s2 = m\<lparr>mem_map := f\<rparr>" using free_page_Inr [OF s2(1)] by blast
    show thesis
    proof (rule that)
      show "(if p \<noteq> 0 then free_page p m else Inr m) = Inr (m\<lparr>mem_map := f\<rparr>)"
        using False s2(1) by (simp only: f if_True not_False_eq_True)
    qed (use s2(2) in \<open>simp only: f\<close>)
  qed
  let ?s = "s\<lparr>mem_map := f\<rparr>"
  have "sched_inv ?s" "running ?s = running s"
    using assms(1) by (simp_all add: sched_inv_def waiting_def sched_state_def running_def preempt_def get_field_def)
  with assms(2,3) have inv: "sched_inv ?s" "q \<in> running ?s" "q \<noteq> current ?s" by simp_all
  obtain s' where yield: "yield_with do_schedule_l5 (set_field off_state (current ?s) TASK_ZOMBIE ?s) = Some s'"
      and s': "sched_inv s'" "task s' = task ?s" "running s' = running ?s - {current ?s}" "mem_map s' = mem_map ?s"
      and "nr_tasks s' = nr_tasks ?s"
    by (rule exit_scheduled [OF inv sched_l5.scheduler_axioms])
  have "exit_process_l5 s = Inr (Some s')"
    using yield f(1) stack
    by (simp only: exit_process_l5_def Let_def m_def [symmetric] res_bind_simps commute schedule_l5_def
        yield_with_def)
  moreover have "used_pages_of s' = used_pages_of s - {p}"
    using f(2) used_pages_of_cong [of s' "m\<lparr>mem_map := f\<rparr>"] s'(4) by simp
  ultimately show ?thesis using s'(1,3) \<open>running ?s = running s\<close>
    by (intro exI [of _ s'] conjI) simp_all
qed

theorem exit_process_l5_frees_witness:
  "\<exists>s'. exit_process_l5 pair_kernel = Inr (Some s') \<and> running s' = {task_B} \<and> used_pages_of s' = {}"
proof -
  have other: "task_B \<in> running pair_kernel" "task_B \<noteq> current pair_kernel"
    using pair_tasks by (auto simp: pair_running)
  have "mem pair_kernel (task_A + off_stack_l5) = 0"
    by (simp add: pair_kernel_def pair_memory_def task_A_def task_B_def layout_defs)
  then have "stack_l5 (load_task_l5 (mem pair_kernel) (current pair_kernel)) = 0"
    by (simp add: load_task_l5_def pair_tasks)
  moreover have "used_pages_of pair_kernel = {}"
    using boot_kernel_unused used_pages_of_cong [of pair_kernel boot_kernel] by (simp add: pair_kernel_def)
  ultimately show ?thesis
    using exit_process_l5_frees [OF pair_inv other, of 0] pair_tasks by (auto simp: pair_running)
qed

section \<open>The context switch\<close>

text \<open>
  C35. A task that is switched out goes on exactly where it was: after a switch from the task
  of \<open>s\<close> to the task at \<open>p\<close>, and whatever happens until, in a state \<open>t\<close> that has another
  current task and in which the \<open>cpu_context\<close> of the first task is untouched, a switch back to
  it is made, the registers \<open>x19\<close> to \<open>x29\<close>, the stack pointer and the return address are what
  they were. Each switch installs the page tables of the task switched to.
\<close>

theorem switch_roundtrip:
  assumes "current s \<noteq> p" "current t \<noteq> current s" "ctx (current s) \<inter> ctx (current t) = {}"
    and "\<forall>x \<in> ctx (current s). mem t x = mem (switch_to p s) x"
  shows "saved_context (cpu (switch_to (current s) t)) = saved_context (cpu s) \<and>
    ttbr0_el1 (cpu (switch_to p s)) = mem s (p + off_pgd) \<and>
    ttbr0_el1 (cpu (switch_to (current s) t)) = mem t (current s + off_pgd)"
proof -
  have "saved_context (cpu (switch_to (current s) t)) = saved_context (cpu s)"
    by (rule switch_l6.switch_and_back [OF assms(1,3,2)]) (use assms(4) in blast)
  then show ?thesis
    using assms(1,2) by (simp add: switch_to_def Let_def cpu_switch_to_def restored_regs_def set_pgd_rest)
qed

theorem switch_roundtrip_witness:
  "saved_context (cpu (switch_to task_A (switch_to task_B pair_kernel))) = saved_context (cpu pair_kernel)"
proof -
  have "ctx task_A \<inter> ctx task_B = {}"
    by (rule apart_ctx(2) [OF pair_apart]) (simp_all add: pair_tasks)
  then show ?thesis
    using switch_roundtrip [of pair_kernel task_B "switch_to task_B pair_kernel"]
      switch_l6.sw_current pair_tasks
    by auto
qed

end
