(* ===== verification/Fork.thy ===== *)
theory Fork
  imports Copy_Virt Sched_Fair
begin

text \<open>
  Process creation (\<open>fork.c\<close>): \<open>copy_process\<close>, \<open>move_to_user_mode\<close> and \<open>task_pt_regs\<close> of
  lessons 4, 5 and 6. A kernel thread gets a function and its argument in \<open>x19\<close> and \<open>x20\<close>;
  a copy of a user process gets the registers the parent saved on entry to the kernel, with
  0 in \<open>x0\<close>, and in lesson 6 a copy of the parent's pages.

  The addresses the linker gives to code are in the record \<open>image\<close>. The index of \<open>task\<close> is
  not checked by the code: the 65th task is stored past the end of the array, which is the
  outcome \<open>Out_Of_Bounds\<close>.
\<close>

unbundle bit_operations_syntax

record image =
  ret_from_fork :: addr
  kernel_process_at :: addr
  user_begin :: addr
  user_end :: addr
  user_process_at :: addr

text \<open>A layout the linker could choose, for the concrete examples.\<close>

definition example_image :: image where
  "example_image = \<lparr>ret_from_fork = 0xffff000000084000, kernel_process_at = 0xffff000000082000,
     user_begin = 0xffff000000001000, user_end = 0xffff000000001400, user_process_at = 0xffff000000001040\<rparr>"

definition off_x19 :: u64 where "off_x19 = 0"
definition off_x20 :: u64 where "off_x20 = 8"
definition off_sp :: u64 where "off_sp = 88"
definition off_pc :: u64 where "off_pc = 96"

lemmas context_offsets [layout_defs] = off_x19_def off_x20_def off_sp_def off_pc_def

text \<open>The bits of \<open>pstate\<close> in \<open>fork.h\<close>.\<close>

definition PSR_MODE_EL0t :: u64 where "PSR_MODE_EL0t = 0"
definition PSR_MODE_EL1t :: u64 where "PSR_MODE_EL1t = 4"
definition PSR_MODE_EL1h :: u64 where "PSR_MODE_EL1h = 5"

section \<open>The operations\<close>

text \<open>The frame saved on entry to the kernel is at the end of the task's page.\<close>

definition task_pt_regs :: "addr \<Rightarrow> addr" where
  "task_pt_regs tsk = tsk + THREAD_SIZE - sizeof_pt_regs"

text \<open>\<open>int pid = nr_tasks++; task[pid] = p;\<close> A store past the end of the array, whose
  effect depends on what the linker placed there, is a fault.\<close>

definition add_task :: "addr \<Rightarrow> kernel \<Rightarrow> fault + nat \<times> kernel" where
  "add_task p s =
     (let pid = nr_tasks s; s = s\<lparr>nr_tasks := Suc pid\<rparr>
      in if pid < NR_TASKS then Inr (pid, s\<lparr>task := (task s)[pid := p]\<rparr>) else Inl Out_Of_Bounds)"

text \<open>Lesson 4. On failure the function returns with preemption still disabled.\<close>

definition copy_process_l4 :: "image \<Rightarrow> addr \<Rightarrow> u64 \<Rightarrow> kernel \<Rightarrow> fault + int \<times> kernel" where
  "copy_process_l4 im fn arg s =
     (let s = preempt_disable s
      in case get_free_page_l5 s of (p, s) \<Rightarrow>
        if p = 0 then Inr (1, s)
        else
          let s = set_field off_priority p (get_field off_priority (current s) s) s;
              s = set_field off_state p TASK_RUNNING s;
              s = set_field off_counter p (get_field off_priority p s) s;
              s = set_field off_preempt_count p 1 s;
              s = set_field off_x19 p fn s;
              s = set_field off_x20 p arg s;
              s = set_field off_pc p (ret_from_fork im) s;
              s = set_field off_sp p (p + THREAD_SIZE) s
          in res_bind (add_task p s) (\<lambda>(pid, s). Inr (0, preempt_enable s)))"

text \<open>The fields that lessons 5 and 6 set last; \<open>off_fl\<close> is the place of \<open>flags\<close>.\<close>

definition start_task :: "image \<Rightarrow> u64 \<Rightarrow> addr \<Rightarrow> u64 \<Rightarrow> kernel \<Rightarrow> fault + int \<times> kernel" where
  "start_task im off_fl p clone_flags s =
     (let s = set_field off_fl p clone_flags s;
          s = set_field off_priority p (get_field off_priority (current s) s) s;
          s = set_field off_state p TASK_RUNNING s;
          s = set_field off_counter p (get_field off_priority p s) s;
          s = set_field off_preempt_count p 1 s;
          s = set_field off_pc p (ret_from_fork im) s;
          s = set_field off_sp p (task_pt_regs p) s
      in res_bind (add_task p s) (\<lambda>(pid, s). Inr (int pid, preempt_enable s)))"

text \<open>\<open>*childregs = *cur_regs; childregs->regs[0] = 0;\<close>\<close>

definition copy_regs :: "addr \<Rightarrow> kernel \<Rightarrow> kernel" where
  "copy_regs p s =
     (let childregs = task_pt_regs p; cur_regs = task_pt_regs (current s);
          s = set_mem (store_words childregs (pt_regs_words (load_pt_regs (mem s) cur_regs))) s
      in set_field 0 childregs 0 s)"

definition copy_process_l5 :: "image \<Rightarrow> u64 \<Rightarrow> addr \<Rightarrow> u64 \<Rightarrow> addr \<Rightarrow> kernel \<Rightarrow> fault + int \<times> kernel" where
  "copy_process_l5 im clone_flags fn arg stack s =
     (let s = preempt_disable s
      in case get_free_page_l5 s of (p, s) \<Rightarrow>
        if p = 0 then Inr (1, s)
        else
          let childregs = task_pt_regs p;
              s = set_mem (memzero childregs sizeof_pt_regs) s;
              s = set_mem (memzero (p + THREAD_CPU_CONTEXT) 104) s;
              s = (if clone_flags AND PF_KTHREAD \<noteq> 0
                   then set_field off_x20 p arg (set_field off_x19 p fn s)
                   else
                     let s = copy_regs p s;
                         s = set_field off_pt_sp childregs (stack + PAGE_SIZE) s
                     in set_field off_stack_l5 p stack s)
          in start_task im off_flags_l5 p clone_flags s)"

text \<open>In lesson 6 the result of \<open>copy_virt_memory\<close> is not looked at.\<close>

definition copy_process :: "image \<Rightarrow> u64 \<Rightarrow> addr \<Rightarrow> u64 \<Rightarrow> kernel \<Rightarrow> fault + int \<times> kernel" where
  "copy_process im clone_flags fn arg s =
     (let s = preempt_disable s
      in case allocate_kernel_page s of (p, s) \<Rightarrow>
        if p = 0 then Inr (1, s)
        else
          res_bind
            (if clone_flags AND PF_KTHREAD \<noteq> 0
             then Inr (set_field off_x20 p arg (set_field off_x19 p fn s))
             else res_bind (copy_virt_memory p (copy_regs p s)) (\<lambda>(_, s). Inr s))
            (start_task im off_flags p clone_flags))"

definition move_to_user_mode_l5 :: "addr \<Rightarrow> kernel \<Rightarrow> int \<times> kernel" where
  "move_to_user_mode_l5 user_pc s =
     (let rs = task_pt_regs (current s);
          s = set_mem (memzero rs sizeof_pt_regs) s;
          s = set_field off_pt_pc rs user_pc s;
          s = set_field off_pstate rs PSR_MODE_EL0t s
      in case get_free_page_l5 s of (stack, s) \<Rightarrow>
        if stack = 0 then (-1, s)
        else
          let s = set_field off_pt_sp rs (stack + PAGE_SIZE) s
          in (0, set_field off_stack_l5 (current s) stack s))"

definition move_to_user_mode :: "addr \<Rightarrow> u64 \<Rightarrow> addr \<Rightarrow> kernel \<Rightarrow> fault + int \<times> kernel" where
  "move_to_user_mode start sz user_pc s =
     (let rs = task_pt_regs (current s);
          s = set_field off_pt_pc rs user_pc s;
          s = set_field off_pstate rs PSR_MODE_EL0t s;
          s = set_field off_pt_sp rs (2 * PAGE_SIZE) s
      in case allocate_user_page (current s) 0 s of (code_page, s) \<Rightarrow>
        if code_page = 0 then Inr (-1, s)
        else res_bind (memcpy (mmu_translate (ttbr0_el1 (cpu s))) code_page start sz (mem s))
          (\<lambda>m. let s = s\<lparr>mem := m\<rparr>
               in Inr (0, set_pgd (get_field off_pgd (current s) s) s)))"

section \<open>The task table\<close>

text \<open>The first \<open>nr_tasks\<close> entries of \<open>task\<close> are in use; no struct lies in a free page.
  \<open>base\<close> is what the kernel adds to a page's address to access it: \<open>VA_START\<close> in lesson 6.\<close>

definition task_table :: "kernel \<Rightarrow> bool" where
  "task_table s \<longleftrightarrow> length (task s) = NR_TASKS \<and> (\<forall>i < NR_TASKS. task s ! i \<noteq> 0 \<longleftrightarrow> i < nr_tasks s)"

definition placed :: "addr \<Rightarrow> kernel \<Rightarrow> bool" where
  "placed base s \<longleftrightarrow> (\<forall>q \<in> set (task s). q \<noteq> 0 \<longrightarrow>
     (\<forall>pg \<in> all_pages - used_pages_of s. \<forall>x y. unat x < 552 \<longrightarrow> y < 4096 \<longrightarrow> q + x \<noteq> pg + base + y))"

lemma placedD:
  "placed base s \<Longrightarrow> q \<in> set (task s) \<Longrightarrow> q \<noteq> 0 \<Longrightarrow> pg \<in> all_pages \<Longrightarrow> pg \<notin> used_pages_of s \<Longrightarrow>
    unat x < 552 \<Longrightarrow> y < 4096 \<Longrightarrow> q + x \<noteq> pg + base + y"
  by (simp add: placed_def)

lemma task_added_apart:
  assumes apart: "structs_apart ts" and n: "n < length ts"
    and new: "\<And>q x y. q \<in> set ts \<Longrightarrow> q \<noteq> 0 \<Longrightarrow> unat x < 552 \<Longrightarrow> unat y < 552 \<Longrightarrow> q + x \<noteq> p + y"
  shows "structs_apart (ts[n := p])"
  unfolding structs_apart_def length_list_update
proof (intro allI impI)
  fix i j and x y :: u64
  assume i: "i < length ts" "j < length ts" "i \<noteq> j" "ts[n := p] ! i \<noteq> 0" "ts[n := p] ! j \<noteq> 0"
    and xy: "unat x < 552" "unat y < 552"
  consider "i = n" | "j = n" | "i \<noteq> n" "j \<noteq> n" by blast
  then show "ts[n := p] ! i + x \<noteq> ts[n := p] ! j + y"
  proof cases
    case 1
    then show ?thesis using i new [of "ts ! j" y x] xy by (auto simp: nth_list_update)
  next
    case 2
    then show ?thesis using i new [of "ts ! i" x y] xy by (auto simp: nth_list_update)
  next
    case 3
    then show ?thesis using i apart xy unfolding structs_apart_def by (simp add: nth_list_update)
  qed
qed

text \<open>What every successful creation does to the scheduler's data.\<close>

definition task_added :: "addr \<Rightarrow> kernel \<Rightarrow> kernel \<Rightarrow> bool" where
  "task_added p s s' \<longleftrightarrow>
     nr_tasks s' = Suc (nr_tasks s) \<and> task s' = (task s)[nr_tasks s := p] \<and> current s' = current s \<and>
     (\<forall>q \<in> set (task s). q \<noteq> 0 \<longrightarrow> (\<forall>off. unat off < 552 \<longrightarrow> mem s' (q + off) = mem s (q + off))) \<and>
     mem s' (p + off_state) = TASK_RUNNING \<and>
     mem s' (p + off_priority) = mem s (current s + off_priority) \<and>
     mem s' (p + off_counter) = mem s (current s + off_priority) \<and>
     mem s' (p + off_preempt_count) = 1"

lemma task_added_inv:
  assumes inv: "sched_inv s" and tab: "task_table s" and pl: "placed base s" and room: "nr_tasks s < NR_TASKS"
    and pg: "pg \<in> all_pages" "pg \<notin> used_pages_of s" and base: "page_aligned base" and p: "p = pg + base" "p \<noteq> 0"
    and add: "task_added p s s'" and used: "insert pg (used_pages_of s) \<subseteq> used_pages_of s'"
  shows "sched_inv s'" "task_table s'" "placed base s'" "running s' = insert p (running s)"
proof -
  have w: "waiting s" using inv by (simp add: sched_inv_def)
  let ?n = "nr_tasks s"
  have len: "?n < length (task s)" "task s ! ?n = 0" using tab room unfolding task_table_def by (metis less_irrefl)+
  have ts: "task s' = (task s)[?n := p]" and cur: "current s' = current s" and nr: "nr_tasks s' = Suc ?n"
    and old: "\<And>q off. q \<in> set (task s) \<Longrightarrow> q \<noteq> 0 \<Longrightarrow> unat off < 552 \<Longrightarrow> mem s' (q + off) = mem s (q + off)"
    and new: "mem s' (p + off_state) = TASK_RUNNING" "mem s' (p + off_priority) = mem s (current s + off_priority)"
      "mem s' (p + off_counter) = mem s (current s + off_priority)" "mem s' (p + off_preempt_count) = 1"
    using add by (simp_all add: task_added_def)
  have small: "(y :: u64) < 4096" if "unat y < 552" for y using that by (simp add: word_less_nat_alt)
  have new_apart: "q + x \<noteq> p + y" if "q \<in> set (task s)" "q \<noteq> 0" "unat x < 552" "unat y < 552" for q x y
    unfolding p(1) by (rule placedD [OF pl that(1,2) pg that(3) small [OF that(4)]])
  have p_new: "p \<notin> set (task s)" using new_apart [of p 0 0] p(2) by auto
  have "task s ! i \<in> set ((task s)[?n := p])" if "i < length (task s)" "i \<noteq> ?n" for i
    using that by (metis length_list_update nth_list_update_neq nth_mem)
  then have sub: "q \<in> set (task s')" if "q \<in> set (task s)" "q \<noteq> 0" for q
    using that len(2) unfolding ts in_set_conv_nth [of q "task s"] by auto
  have sup: "q = p \<or> q \<in> set (task s)" if "q \<in> set (task s')" for q
    using that set_update_subset_insert [of "task s" ?n p] ts by auto
  have p_in: "p \<in> set (task s')" using len(1) by (simp add: ts set_update_memI)
  have f: "runs (mem s') q = runs (mem s) q" "cnt (mem s') q = cnt (mem s) q" "pri (mem s') q = pri (mem s) q"
      "preempt s' q = preempt s q" if "q \<in> set (task s)" "q \<noteq> 0" for q
    using old [OF that, of off_state] old [OF that, of off_counter] old [OF that, of off_priority]
      old [OF that, of off_preempt_count]
    by (simp_all add: runs_def cnt_def pri_def preempt_def get_field_def layout_defs)
  have nz: "q \<noteq> 0" if "runs m q" for q m using that by (simp add: runs_def)
  have runs_p: "runs (mem s') p" using new(1) p(2) by (simp add: runs_def)
  have run_cur: "runs (mem s) (current s)" using inv by (simp add: sched_inv_def)
  have curD: "current s \<in> set (task s)" "current s \<noteq> 0" by (rule waitingD(3,4) [OF w])+
  show run: "running s' = insert p (running s)"
  proof (rule set_eqI)
    fix q
    show "q \<in> running s' \<longleftrightarrow> q \<in> insert p (running s)"
      using sub [of q] sup [of q] f(1) [of q] nz [of "mem s" q] nz [of "mem s'" q] runs_p p_in
      unfolding running_def by blast
  qed
  have range_p: "in_range (mem s') p"
    using waitingD(9) [OF w curD(1) run_cur] new by (simp add: in_range_def cnt_def pri_def)
  have "waiting s'"
  proof (rule waitingI)
    show "structs_apart (task s')"
      unfolding ts by (rule task_added_apart [OF waitingD(2) [OF w] len(1) new_apart])
    show "current s' \<in> set (task s')" "current s' \<noteq> 0" using sub [OF curD] curD(2) by (simp_all add: cur)
    show "task s' ! 0 \<noteq> 0"
      using waitingD(6) [OF w] p(2) len(1) by (cases "?n = 0") (auto simp: ts)
    show "\<exists>q \<in> set (task s'). runs (mem s') q" using runs_p p_in by blast
    show "preempt s' q = (if q = current s' then 0 else 1)" if q: "q \<in> set (task s')" "q \<noteq> 0" for q
      using sup [OF q(1)] new(4) p_new curD(1) f(4) q(2) waitingD(8) [OF w]
      by (auto simp: cur preempt_def get_field_def)
    show "in_range (mem s') q" if q: "q \<in> set (task s')" "runs (mem s') q" for q
      using sup [OF q(1)] range_p f [of q] nz [OF q(2)] q(2) waitingD(9) [OF w, of q]
      by (auto simp: in_range_def)
  qed
  moreover have "runs (mem s') (current s')" using f(1) [OF curD] run_cur by (simp add: cur)
  ultimately show "sched_inv s'" by (simp add: sched_inv_def)
  show "task_table s'"
    using tab p(2) room by (auto simp: task_table_def ts nr nth_list_update)
  show "placed base s'"
    unfolding placed_def
  proof (intro ballI impI allI)
    fix q pg' and x y :: u64
    assume q: "q \<in> set (task s')" "q \<noteq> 0" and pg': "pg' \<in> all_pages - used_pages_of s'"
      and x: "unat x < 552" and y: "y < (4096 :: u64)"
    show "q + x \<noteq> pg' + base + y"
    proof (cases "q = p")
      case True
      have "pg + base \<noteq> pg' + base" using pg' used by auto
      moreover have "page_aligned (pg + base)" "page_aligned (pg' + base)"
        using pg(1) pg' base by (simp_all add: page_aligned_add all_pages_aligned)
      ultimately show ?thesis
        unfolding True p(1) using page_offset_neq [OF _ _ _ small [OF x] y] by blast
    next
      case False
      then show ?thesis using sup [OF q(1)] placedD [OF pl _ q(2) _ _ x y, of pg'] pg' used by auto
    qed
  qed
qed

end
