(* ===== verification/Fork_Props.thy ===== *)
theory Fork_Props
  imports Fork Sched_Props
begin

text \<open>
  The creation of a kernel thread in lesson 6, and the lemmas all creations share: the conditions
  under which a task can be created (\<open>can_create\<close>), the page it gets and the struct it is given.
\<close>

unbundle bit_operations_syntax

section \<open>The last steps of a creation\<close>

definition in_page :: "addr \<Rightarrow> addr \<Rightarrow> bool" where
  "in_page p a \<longleftrightarrow> (\<exists>y < 4096. a = p + y)"

lemma not_in_page: "\<not> in_page p a \<Longrightarrow> y < 4096 \<Longrightarrow> a \<noteq> p + y"
  by (auto simp: in_page_def)

definition child_fields :: "image \<Rightarrow> u64 \<Rightarrow> addr \<Rightarrow> u64 \<Rightarrow> u64 \<Rightarrow> memory \<Rightarrow> memory" where
  "child_fields im off_fl p fl pr m = m(p + off_fl := fl, p + off_priority := pr,
     p + off_state := TASK_RUNNING, p + off_counter := pr, p + off_preempt_count := 1,
     p + off_pc := ret_from_fork im, p + off_sp := task_pt_regs p)"

lemma start_task_run:
  assumes "nr_tasks s < NR_TASKS" and "\<not> in_page p (current s + off_priority)" "\<not> in_page p (current s + off_preempt_count)"
    and "off_fl < 4096"
  shows "start_task im off_fl p fl s = Inr (int (nr_tasks s), s\<lparr>nr_tasks := Suc (nr_tasks s),
      task := (task s)[nr_tasks s := p],
      mem := (child_fields im off_fl p fl (mem s (current s + off_priority)) (mem s))
        (current s + off_preempt_count := mem s (current s + off_preempt_count) - 1)\<rparr>)"
proof -
  have ne: "current s + off_priority \<noteq> p + y" "current s + off_preempt_count \<noteq> p + y" if "y < 4096" for y
    using assms(2,3) that by (simp_all add: not_in_page)
  have "off_fl < 4096" "off_priority < 4096" "off_state < 4096" "off_counter < 4096" "off_preempt_count < 4096"
      "off_pc < 4096" "off_sp < 4096"
    using assms(4) by (simp_all add: layout_defs)
  note ne' = ne [OF this(1)] ne [OF this(2)] ne [OF this(3)] ne [OF this(4)] ne [OF this(5)] ne [OF this(6)] ne [OF this(7)]
  have "p + off_priority \<noteq> p + off_state" by (simp add: layout_defs)
  then show ?thesis
    using assms(1) ne' unfolding start_task_def child_fields_def
    by (cases s) (simp add: Let_def field_defs add_task_def preempt_enable_def)
qed

section \<open>A new kernel thread\<close>

text \<open>The struct of a kernel thread in lesson 6: the page was cleared.\<close>

definition thread_struct :: "image \<Rightarrow> addr \<Rightarrow> u64 \<Rightarrow> u64 \<Rightarrow> addr \<Rightarrow> u64 \<Rightarrow> task_struct" where
  "thread_struct im p fl pr fn arg = INIT_TASK\<lparr>
     cpu_ctx := zero_context\<lparr>x19 := fn, x20 := arg, sp := task_pt_regs p, pc := ret_from_fork im\<rparr>,
     counter := pr, priority := pr, preempt_count := 1, flags := fl\<rparr>"

lemma child_fields_other:
  assumes "144 \<le> unat y" and "off_fl = off_flags \<or> off_fl = off_flags_l5 \<and> 152 \<le> unat y"
  shows "child_fields im off_fl p fl pr m (p + y) = m (p + y)"
proof -
  have "y \<noteq> off_fl" "y \<noteq> off_priority" "y \<noteq> off_state" "y \<noteq> off_counter" "y \<noteq> off_preempt_count"
      "y \<noteq> off_pc" "y \<noteq> off_sp"
    using assms by (auto simp: layout_defs)
  then show ?thesis by (simp add: child_fields_def)
qed

text \<open>A struct whose \<open>mm\<close> is still cleared.\<close>

lemma load_empty_mm:
  assumes zero: "\<And>y. 144 \<le> unat y \<Longrightarrow> unat y < 552 \<Longrightarrow> 8 dvd unat y \<Longrightarrow> m (p + y) = 0"
  shows "load_task m p = (load_task m p)\<lparr>mm := mm INIT_TASK\<rparr>"
proof (rule load_task_eqI)
  show "load_user_page m p i = user_pages (mm INIT_TASK) ! i" if "i < 16" for i
    using zero [of "off_user_pages + 16 * word_of_nat i"] zero [of "off_user_pages + 16 * word_of_nat i + 8"]
      user_offset_unat [OF that] that
    by (simp add: load_user_page_def INIT_TASK_def MAX_PROCESS_PAGES_def add.assoc)
  show "m (p + off_kernel_pages + 8 * word_of_nat i) = kernel_pages (mm INIT_TASK) ! i" if "i < 16" for i
    using zero [of "off_kernel_pages + 8 * word_of_nat i"] kernel_offset_unat [OF that] that
    by (simp add: INIT_TASK_def MAX_PROCESS_PAGES_def add.assoc)
  show "m (p + off_pgd) = pgd (mm INIT_TASK)"
    "ld32 m (p + off_user_pages_count) = user_pages_count (mm INIT_TASK)"
    "ld32 m (p + off_kernel_pages_count) = kernel_pages_count (mm INIT_TASK)"
    using zero [of off_pgd] zero [of off_user_pages_count] zero [of off_kernel_pages_count]
    by (simp_all add: layout_defs INIT_TASK_def ld32_def)
qed (simp_all add: INIT_TASK_def MAX_PROCESS_PAGES_def)

lemma load_thread_struct:
  assumes "\<forall>i < 512. m (p + 8 * i) = 0"
  shows "load_task (child_fields im off_flags p fl pr (m(p + off_x19 := fn, p + off_x20 := arg))) p =
    thread_struct im p fl pr fn arg"
proof -
  let ?m0 = "m(p + off_x19 := fn, p + off_x20 := arg)"
  let ?m = "child_fields im off_flags p fl pr ?m0"
  have "?m (p + y) = 0" if y: "144 \<le> unat y" "unat y < 552" "8 dvd unat y" for y
  proof -
    obtain k where k: "unat y = 8 * k" using y(3) by (rule dvdE)
    have "word_of_nat (unat y) = (y :: u64)" by simp
    then have "y = 8 * word_of_nat k" unfolding k by simp
    moreover have "(word_of_nat k :: u64) < 512"
      using k y(2) by (simp add: word_less_nat_alt unat_of_nat)
    moreover have "y \<noteq> off_x19" "y \<noteq> off_x20" using y(1) by (auto simp: layout_defs)
    ultimately show ?thesis using assms child_fields_other [OF y(1)] by simp
  qed
  then have "load_task ?m p = (load_task ?m p)\<lparr>mm := mm INIT_TASK\<rparr>" by (rule load_empty_mm)
  moreover have "m (p + 16) = 0" "m (p + 24) = 0" "m (p + 32) = 0" "m (p + 40) = 0" "m (p + 48) = 0"
      "m (p + 56) = 0" "m (p + 64) = 0" "m (p + 72) = 0" "m (p + 80) = 0"
    using assms [rule_format, of 2] assms [rule_format, of 3] assms [rule_format, of 4]
      assms [rule_format, of 5] assms [rule_format, of 6] assms [rule_format, of 7]
      assms [rule_format, of 8] assms [rule_format, of 9] assms [rule_format, of 10]
    by simp_all
  moreover have "load_context ?m p = zero_context\<lparr>x19 := fn, x20 := arg, sp := task_pt_regs p, pc := ret_from_fork im\<rparr>"
    using calculation(2-) by (simp add: load_context_def child_fields_def layout_defs zero_context_def)
  moreover have "?m (p + off_state) = TASK_RUNNING" "?m (p + off_counter) = pr" "?m (p + off_priority) = pr"
      "?m (p + off_preempt_count) = 1" "?m (p + off_flags) = fl"
    by (simp_all add: child_fields_def layout_defs)
  ultimately show ?thesis
    by (simp add: thread_struct_def INIT_TASK_def load_task_def TASK_RUNNING_def)
qed

text \<open>The states in which a creation succeeds.\<close>

definition can_create :: "addr \<Rightarrow> kernel \<Rightarrow> bool" where
  "can_create base s \<longleftrightarrow> sched_inv s \<and> task_table s \<and> placed base s \<and> nr_tasks s < NR_TASKS \<and>
     used_pages_of s \<noteq> all_pages"

lemma current_apart:
  assumes "sched_inv s" "placed base s" "pg \<in> all_pages" "pg \<notin> used_pages_of s" "unat off < 552"
  shows "\<not> in_page (pg + base) (current s + off)"
proof -
  have "waiting s" using assms(1) by (simp add: sched_inv_def)
  from placedD [OF assms(2) waitingD(3,4) [OF this] assms(3-5)]
  show ?thesis by (auto simp: in_page_def)
qed

lemma preempt_disable_mem:
  "preempt_disable s = s\<lparr>mem := (mem s)(current s + off_preempt_count := mem s (current s + off_preempt_count) + 1)\<rparr>"
  by (simp add: preempt_disable_def field_defs)

text \<open>The new page of lesson 6, at its kernel address.\<close>

lemma kernel_page_run:
  assumes "used_pages_of s \<noteq> all_pages"
  obtains pg mp where "pg \<in> all_pages" "pg \<notin> used_pages_of s" "pg + VA_START \<noteq> 0"
    "allocate_kernel_page (preempt_disable s) = (pg + VA_START, s\<lparr>mem_map := mp,
      mem := memzero (pg + VA_START) PAGE_SIZE (mem (preempt_disable s))\<rparr>)"
    "\<forall>t. mem_map t = mp \<longrightarrow> used_pages_of t = insert pg (used_pages_of s)"
proof -
  have used: "used_pages_of (preempt_disable s) = used_pages_of s"
    by (rule used_pages_of_cong) (simp add: preempt_disable_mem)
  with assms have "used_pages_of (preempt_disable s) \<noteq> all_pages" by simp
  then obtain pg mp where pg: "pg \<in> all_pages" "pg \<notin> used_pages_of s"
    and get: "get_free_page (preempt_disable s) = (pg, (preempt_disable s)\<lparr>mem_map := mp,
      mem := memzero (pg + VA_START) PAGE_SIZE (mem (preempt_disable s))\<rparr>)"
    and mark: "\<forall>m. used_pages_of ((preempt_disable s)\<lparr>mem_map := mp, mem := m\<rparr>) = insert pg (used_pages_of s)"
    unfolding used [symmetric] by (rule fresh_page)
  have nz: "pg \<noteq> 0" "pg + VA_START \<noteq> 0"
    using pg(1) page_at_nonzero kernel_translate(2) [OF pg(1), of 0] by (auto simp: all_pages_def)
  have "used_pages_of t = insert pg (used_pages_of s)" if "mem_map t = mp" for t
    using mark [rule_format, of undefined] that
      used_pages_of_cong [of t "(preempt_disable s)\<lparr>mem_map := mp, mem := undefined\<rparr>"] by simp
  moreover have "(preempt_disable s)\<lparr>mem_map := mp, mem := m\<rparr> = s\<lparr>mem_map := mp, mem := m\<rparr>" for m
    by (simp add: preempt_disable_mem)
  ultimately show thesis
    using pg nz get by (intro that [of pg mp]) (simp_all add: allocate_kernel_page_def)
qed

lemma memzero_outside:
  assumes "\<not> in_page p a"
  shows "memzero p PAGE_SIZE m a = m a"
proof -
  have "store_words p (replicate 512 0) m a = m a"
    using not_in_page [OF assms page_run_offset(1)] by (intro store_words_outside) simp
  then show ?thesis by (simp add: memzero_store_words layout_defs rounds_page)
qed

lemma child_fields_outside:
  assumes "\<not> in_page p a" "off_fl < 4096"
  shows "child_fields im off_fl p fl pr m a = m a"
  using not_in_page [OF assms(1)] assms(2) by (simp add: child_fields_def layout_defs)

lemma child_fields_values:
  assumes "off_fl = off_flags \<or> off_fl = off_flags_l5"
  shows "child_fields im off_fl p fl pr m (p + off_state) = TASK_RUNNING"
    "child_fields im off_fl p fl pr m (p + off_priority) = pr"
    "child_fields im off_fl p fl pr m (p + off_counter) = pr"
    "child_fields im off_fl p fl pr m (p + off_preempt_count) = 1"
    "child_fields im off_fl p fl pr m (p + off_fl) = fl"
    "child_fields im off_fl p fl pr m (p + off_pc) = ret_from_fork im"
    "child_fields im off_fl p fl pr m (p + off_sp) = task_pt_regs p"
  using assms by (auto simp: child_fields_def layout_defs)

text \<open>
  Memory after a creation, in every lesson: outside the child's page it is as before (the
  parent's preemption counter has gone up and down again), and the scheduler sees one more
  task. \<open>M\<close> is memory just before \<open>preempt_enable\<close>.
\<close>

lemma created_memory:
  assumes cc: "can_create base s" and pg: "pg \<in> all_pages" "pg \<notin> used_pages_of s" and p: "p = pg + base" "p \<noteq> 0"
    and base: "page_aligned base"
    and M: "\<And>a. \<not> in_page p a \<Longrightarrow> M a = mem (preempt_disable s) a"
    and fields: "M (p + off_state) = TASK_RUNNING" "M (p + off_priority) = mem s (current s + off_priority)"
      "M (p + off_counter) = mem s (current s + off_priority)" "M (p + off_preempt_count) = 1"
    and s': "s' = s\<lparr>mem_map := mp, nr_tasks := Suc (nr_tasks s), task := (task s)[nr_tasks s := p],
      mem := M(current s + off_preempt_count := M (current s + off_preempt_count) - 1)\<rparr>"
    and used: "used_pages_of s' = insert pg (used_pages_of s)"
  shows "\<And>a. \<not> in_page p a \<Longrightarrow> mem s' a = mem s a"
    and "\<And>y. y < 4096 \<Longrightarrow> mem s' (p + y) = M (p + y)"
    and "sched_inv s'" "task_table s'" "placed base s'" "running s' = insert p (running s)"
proof -
  have inv: "sched_inv s" "task_table s" "placed base s" "nr_tasks s < NR_TASKS"
    using cc by (simp_all add: can_create_def)
  have cur: "\<not> in_page p (current s + off_preempt_count)"
    unfolding p(1) by (rule current_apart [OF inv(1,3) pg]) (simp add: layout_defs)
  show outside: "mem s' a = mem s a" if "\<not> in_page p a" for a
    using M [OF that] M [OF cur] by (simp add: s' preempt_disable_mem)
  show inside: "mem s' (p + y) = M (p + y)" if "y < 4096" for y
    using not_in_page [OF cur that] by (simp add: s')
  have "task_added p s s'"
    unfolding task_added_def
  proof (intro conjI ballI impI allI)
    fix q off assume q: "q \<in> set (task s)" "q \<noteq> 0" "unat (off :: u64) < 552"
    have "q + off \<noteq> pg + base + y" if "y < 4096" for y
      by (rule placedD [OF inv(3) q(1,2) pg q(3) that])
    then show "mem s' (q + off) = mem s (q + off)"
      by (intro outside) (auto simp: in_page_def p(1))
  next
    show "mem s' (p + off_state) = TASK_RUNNING" "mem s' (p + off_priority) = mem s (current s + off_priority)"
      "mem s' (p + off_counter) = mem s (current s + off_priority)" "mem s' (p + off_preempt_count) = 1"
      using inside [of off_state] inside [of off_priority] inside [of off_counter] inside [of off_preempt_count] fields
      by (simp_all add: layout_defs)
  qed (simp_all add: s')
  note added = task_added_inv [OF inv pg base p this]
  show "sched_inv s'" "task_table s'" "placed base s'" "running s' = insert p (running s)"
    using added used by blast+
qed

lemma thread_run:
  assumes "can_create VA_START s" and "fl AND PF_KTHREAD \<noteq> 0"
  shows "\<exists>p s'. copy_process im fl fn arg s = Inr (int (nr_tasks s), s') \<and>
    p - VA_START \<in> all_pages - used_pages_of s \<and> used_pages_of s' = insert (p - VA_START) (used_pages_of s) \<and>
    load_task (mem s') p = thread_struct im p fl (mem s (current s + off_priority)) fn arg \<and>
    task s' ! nr_tasks s = p \<and> task s' = (task s)[nr_tasks s := p] \<and> nr_tasks s' = Suc (nr_tasks s) \<and> current s' = current s \<and> cpu s' = cpu s \<and> dev s' = dev s \<and>
    (\<forall>a. \<not> in_page p a \<longrightarrow> mem s' a = mem s a) \<and>
    sched_inv s' \<and> task_table s' \<and> placed VA_START s' \<and> running s' = insert p (running s)"
proof -
  have inv: "sched_inv s" "task_table s" "placed VA_START s" "nr_tasks s < NR_TASKS" "used_pages_of s \<noteq> all_pages"
    using assms(1) by (simp_all add: can_create_def)
  obtain pg mp where pg: "pg \<in> all_pages" "pg \<notin> used_pages_of s" "pg + VA_START \<noteq> 0"
    and alloc: "allocate_kernel_page (preempt_disable s) = (pg + VA_START, s\<lparr>mem_map := mp,
      mem := memzero (pg + VA_START) PAGE_SIZE (mem (preempt_disable s))\<rparr>)"
    and used: "\<forall>t. mem_map t = mp \<longrightarrow> used_pages_of t = insert pg (used_pages_of s)"
    by (rule kernel_page_run [OF inv(5)])
  define p where "p = pg + VA_START"
  define m0 where "m0 = memzero p PAGE_SIZE (mem (preempt_disable s))"
  define m1 where "m1 = m0(p + off_x19 := fn, p + off_x20 := arg)"
  have m1_other: "m1 a = mem (preempt_disable s) a" if "\<not> in_page p a" for a
    using not_in_page [OF that, of off_x19] not_in_page [OF that, of off_x20] memzero_outside [OF that]
    by (simp add: m1_def m0_def layout_defs)
  define pr where "pr = mem s (current s + off_priority)"
  let ?s1 = "s\<lparr>mem_map := mp, mem := m1\<rparr>"
  have cur: "\<not> in_page p (current s + off_priority)" "\<not> in_page p (current s + off_preempt_count)"
    unfolding p_def by (rule current_apart [OF inv(1,3) pg(1,2)]; simp add: layout_defs)+
  have "current s + off_priority \<noteq> current s + off_preempt_count" by (simp add: layout_defs)
  then have pr: "m1 (current s + off_priority) = pr"
    using m1_other [OF cur(1)] by (simp add: pr_def preempt_disable_mem)
  define M where "M = child_fields im off_flags p fl pr m1"
  define s' where "s' = s\<lparr>mem_map := mp, nr_tasks := Suc (nr_tasks s), task := (task s)[nr_tasks s := p],
      mem := M(current s + off_preempt_count := M (current s + off_preempt_count) - 1)\<rparr>"
  have M_out: "M a = m1 a" if "\<not> in_page p a" for a
    unfolding M_def by (rule child_fields_outside [OF that]) (simp add: layout_defs)
  have "start_task im off_flags p fl ?s1 = Inr (int (nr_tasks s), s')"
    using start_task_run [of ?s1 p off_flags im fl] inv(4) cur pr M_out [OF cur(2)]
    by (cases s) (simp add: s'_def M_def off_flags_def)
  moreover have "set_field off_x20 p arg (set_field off_x19 p fn (s\<lparr>mem_map := mp, mem := m0\<rparr>)) = ?s1"
    by (simp add: set_field_def m1_def)
  ultimately have run: "copy_process im fl fn arg s = Inr (int (nr_tasks s), s')"
    using alloc assms(2) pg(3) by (simp add: copy_process_def Let_def p_def m0_def)
  have used': "used_pages_of s' = insert pg (used_pages_of s)" using used by (simp add: s'_def)
  note vals = child_fields_values [of off_flags im p fl pr m1, folded M_def]
  have "p \<noteq> 0" using pg(3) by (simp add: p_def)
  note created = created_memory [OF assms(1) pg(1,2) p_def this VA_START_aligned _ _ _ _ _ s'_def used']
  have created: "\<And>a. \<not> in_page p a \<Longrightarrow> mem s' a = mem s a" "\<And>y. y < 4096 \<Longrightarrow> mem s' (p + y) = M (p + y)"
      "sched_inv s'" "task_table s'" "placed VA_START s'" "running s' = insert p (running s)"
    using created M_out m1_other vals by (simp_all add: pr_def)
  have "load_task (mem s') p = load_task M p"
    using created(2) by (intro load_task_cong)
  also have "\<dots> = thread_struct im p fl pr fn arg"
    unfolding M_def m1_def by (rule load_thread_struct) (simp add: m0_def memzero_clears)
  finally show ?thesis
    using run used' created pg p_def inv(2,4)
    by (intro exI [of _ p] exI [of _ s']) (simp add: pr_def s'_def task_table_def)
qed

text \<open>
  C27. Creating a kernel thread in lesson 6, when a page and an entry of \<open>task\<close> are free: the
  result is the number of the new task, whose struct is at the start of a page that was
  free. It will start in \<open>ret_from_fork\<close> with the function in \<open>x19\<close>, its argument in
  \<open>x20\<close> and the stack below the saved frame; it has the parent's priority, as many ticks,
  preemption disabled, and an empty address space. Memory outside its page does not change;
  the scheduler's invariant holds with one more running task.
\<close>

theorem copy_process_thread:
  assumes "can_create VA_START s" and "fl AND PF_KTHREAD \<noteq> 0"
  shows "\<exists>p s'. copy_process im fl fn arg s = Inr (int (nr_tasks s), s') \<and>
    p - VA_START \<in> all_pages - used_pages_of s \<and> used_pages_of s' = insert (p - VA_START) (used_pages_of s) \<and>
    load_task (mem s') p = thread_struct im p fl (mem s (current s + off_priority)) fn arg \<and>
    task s' ! nr_tasks s = p \<and> nr_tasks s' = Suc (nr_tasks s) \<and> current s' = current s \<and> cpu s' = cpu s \<and>
    (\<forall>a. \<not> in_page p a \<longrightarrow> mem s' a = mem s a) \<and>
    sched_inv s' \<and> task_table s' \<and> placed VA_START s' \<and> running s' = insert p (running s)"
  using thread_run [OF assms, of im fn arg] by blast

text \<open>The two tasks of \<open>pair_kernel\<close> in a table of 64 entries; the second is in page 0.\<close>

definition pair_table :: kernel where
  "pair_table = pair_kernel\<lparr>task := [task_A, task_B] @ replicate 62 0, mem_map := (\<lambda>_. 0)(0 := 1)\<rparr>"

lemma pair_table_simps:
  "mem pair_table = mem pair_kernel" "current pair_table = task_A" "nr_tasks pair_table = 2"
  "task pair_table = [task_A, task_B] @ replicate 62 0" "cpu pair_table = cpu pair_kernel"
  by (simp_all add: pair_table_def pair_tasks) (simp add: pair_kernel_def)

lemma pair_table_inv: "sched_inv pair_table"
proof -
  have sets: "set (task pair_table) = {0, task_A, task_B}" by (auto simp: pair_table_simps)
  have "structs_apart (task pair_table)"
    using pair_apart unfolding structs_apart_def pair_table_simps
    by (simp add: nth_append less_Suc_eq nth_Cons' split: if_splits)
  then have "waiting pair_table"
    by (intro waitingI) (auto simp: sets pair_table_simps pair_tasks runs_def cnt_def pri_def pair_fields
        preempt_def get_field_def in_range_def TASK_RUNNING_def nth_append)
  then show ?thesis
    by (simp add: sched_inv_def pair_table_simps runs_def pair_fields TASK_RUNNING_def pair_tasks)
qed

lemma pair_table_used: "used_pages_of pair_table = {page_at 0}"
  by (auto simp: used_pages_of_def pair_table_def map_values)

lemma task_A_placed:
  assumes pg: "pg \<in> all_pages" and x: "unat x < 552" and y: "y < 4096"
  shows "task_A + x \<noteq> pg + VA_START + y"
proof (rule page_offset_neq)
  show "task_A \<noteq> pg + VA_START"
  proof
    assume "task_A = pg + VA_START"
    then have "pg = 0x80000" by (simp add: task_A_def map_values)
    moreover have "LOW_MEMORY \<le> pg" using pg page_at_range by (auto simp: all_pages_def)
    ultimately show False by (simp add: map_values)
  qed
qed (use pg x y in \<open>simp_all add: task_A_def page_aligned_def [of "0xffff000000080000"] page_aligned_add
    all_pages_aligned VA_START_aligned word_less_nat_alt\<close>)

lemma task_B_page: "task_B = page_at 0 + VA_START"
  by (simp add: task_B_def page_at_def map_values)

lemma task_B_placed:
  assumes pg: "pg \<in> all_pages" "pg \<noteq> page_at 0" and x: "unat x < 552" and y: "y < 4096"
  shows "task_B + x \<noteq> pg + VA_START + y"
proof (rule page_offset_neq)
  have "0 < PAGING_PAGES" by (simp add: map_values)
  then show "page_aligned task_B" unfolding task_B_page by (rule kernel_page_aligned)
  show "task_B \<noteq> pg + VA_START" unfolding task_B_page using pg(2) by simp
qed (use pg x y in \<open>simp_all add: page_aligned_add all_pages_aligned VA_START_aligned word_less_nat_alt\<close>)

lemma pair_table_create: "can_create VA_START pair_table"
proof -
  have "placed VA_START pair_table"
    unfolding placed_def pair_table_used using task_A_placed task_B_placed by (auto simp: pair_table_simps)
  moreover have "task_table pair_table"
    using pair_tasks by (auto simp: task_table_def pair_table_simps NR_TASKS_def nth_append nth_Cons' less_Suc_eq)
  moreover have "used_pages_of pair_table \<noteq> all_pages"
  proof
    assume "used_pages_of pair_table = all_pages"
    then have "all_pages = {page_at 0}" by (simp only: pair_table_used)
    then have "card all_pages = 1" by (metis is_singletonI is_singleton_altdef)
    then show False by (simp only: card_all_pages map_values)
  qed
  ultimately show ?thesis
    using pair_table_inv by (simp add: can_create_def pair_table_simps NR_TASKS_def)
qed

theorem copy_process_thread_witness:
  "\<exists>s'. copy_process example_image PF_KTHREAD 0x82000 7 pair_table = Inr (2, s') \<and> nr_tasks s' = 3 \<and> sched_inv s'"
proof -
  have "PF_KTHREAD AND PF_KTHREAD \<noteq> 0" by (simp add: PF_KTHREAD_def)
  from copy_process_thread [OF pair_table_create this, of example_image "0x82000" 7] show ?thesis
    by (auto simp: pair_table_simps)
qed

end
