(* ===== verification/Fork_User.thy ===== *)
theory Fork_User
  imports Fork_Props
begin

text \<open>
  The fork of a user process in lesson 6: the child is a copy of the parent, with 0 in \<open>x0\<close>
  of its saved frame and the same contents in pages of its own.
\<close>

unbundle bit_operations_syntax

section \<open>The saved frame\<close>

lemma pt_regs_words_load: "pt_regs_words (load_pt_regs m p) = load_words m p 34"
proof (rule nth_equalityI)
  fix i assume "i < length (pt_regs_words (load_pt_regs m p))"
  then have "i < 34" by (simp add: pt_regs_words_def load_pt_regs_def)
  then consider "i < 31" | "i = 31" | "i = 32" | "i = 33" by linarith
  then show "pt_regs_words (load_pt_regs m p) ! i = load_words m p 34 ! i"
    by cases (simp_all add: pt_regs_words_def load_pt_regs_def nth_append layout_defs)
qed (simp add: pt_regs_words_def load_pt_regs_def)

lemma load_pt_regs_cong:
  assumes "\<And>i. i < 34 \<Longrightarrow> m' (p' + 8 * word_of_nat i) = m (p + 8 * word_of_nat i)"
  shows "load_pt_regs m' p' = load_pt_regs m p"
proof -
  have "load_words m' p' 31 = load_words m p 31"
    by (rule nth_equalityI) (use assms in simp_all)
  then show ?thesis
    using assms [of 31] assms [of 32] assms [of 33] by (simp add: load_pt_regs_def layout_defs)
qed

lemma load_pt_regs_x0: "load_pt_regs (m(p := v)) p = (load_pt_regs m p)\<lparr>regs := (regs (load_pt_regs m p))[0 := v]\<rparr>"
proof -
  have "load_words (m(p := v)) p 31 = (load_words m p 31)[0 := v]"
  proof (rule nth_equalityI)
    fix i assume "i < length (load_words (m(p := v)) p 31)"
    then have i: "i < 31" by simp
    have "(8 :: u64) * word_of_nat i = 0 \<longleftrightarrow> i = 0" using word_mult8_inj [of i 0] i by simp
    then show "load_words (m(p := v)) p 31 ! i = (load_words m p 31)[0 := v] ! i"
      using i by (simp add: nth_list_update)
  qed simp
  then show ?thesis by (simp add: load_pt_regs_def layout_defs)
qed

lemma frame_offset:
  assumes "i < 34"
  shows "task_pt_regs t + 8 * word_of_nat i = t + (3824 + 8 * word_of_nat i)"
    and "unat (3824 + 8 * word_of_nat i :: u64) = 3824 + 8 * i"
    and "3824 + 8 * word_of_nat i < (4096 :: u64)"
proof -
  show "task_pt_regs t + 8 * word_of_nat i = t + (3824 + 8 * word_of_nat i)"
    by (simp add: task_pt_regs_def layout_defs)
  show *: "unat (3824 + 8 * word_of_nat i :: u64) = 3824 + 8 * i"
    using assms by (simp add: unat_word_ariths unat_of_nat)
  show "3824 + 8 * word_of_nat i < (4096 :: u64)" unfolding word_less_nat_alt * using assms by simp
qed

lemma load_frame_cong:
  assumes "\<And>y. 3824 \<le> y \<Longrightarrow> y < 4096 \<Longrightarrow> m' (p' + y) = m (p + y)"
  shows "load_pt_regs m' (task_pt_regs p') = load_pt_regs m (task_pt_regs p)"
proof (rule load_pt_regs_cong)
  fix i :: nat assume i: "i < 34"
  have "3824 \<le> (3824 + 8 * word_of_nat i :: u64)"
    unfolding word_le_nat_alt frame_offset(2) [OF i] by simp
  then show "m' (task_pt_regs p' + 8 * word_of_nat i) = m (task_pt_regs p + 8 * word_of_nat i)"
    unfolding frame_offset(1) [OF i] using frame_offset(3) [OF i] by (rule assms)
qed

section \<open>The child before its pages are copied\<close>

lemma copy_regs_mem:
  "copy_regs p s = s\<lparr>mem := (store_words (task_pt_regs p) (load_words (mem s) (task_pt_regs (current s)) 34) (mem s))
     (task_pt_regs p := 0)\<rparr>"
  by (simp add: copy_regs_def Let_def set_mem_def set_field_def pt_regs_words_load)

lemma copy_regs_frame:
  "load_pt_regs (mem (copy_regs p s)) (task_pt_regs p) =
    (load_pt_regs (mem s) (task_pt_regs (current s)))\<lparr>regs := (regs (load_pt_regs (mem s) (task_pt_regs (current s))))[0 := 0]\<rparr>"
proof -
  have "load_pt_regs (store_words (task_pt_regs p) (load_words (mem s) (task_pt_regs (current s)) 34) (mem s)) (task_pt_regs p) =
      load_pt_regs (mem s) (task_pt_regs (current s))"
    by (rule load_pt_regs_cong) (simp add: store_words_inside)
  then show ?thesis by (simp add: copy_regs_mem load_pt_regs_x0)
qed

lemma copy_regs_other:
  assumes "y < 3824 \<or> 4096 \<le> y \<or> b \<noteq> p" "page_aligned b" "page_aligned p" "y < 4096"
  shows "mem (copy_regs p s) (b + y) = mem s (b + y)"
proof -
  have "b + y \<noteq> task_pt_regs p + 8 * word_of_nat i" if i: "i < 34" for i
  proof
    assume eq: "b + y = task_pt_regs p + 8 * word_of_nat i"
    then have "b = p" "y = 3824 + 8 * word_of_nat i"
      using page_offset_inj [OF assms(2,3,4) frame_offset(3) [OF i]] unfolding frame_offset(1) [OF i] by simp_all
    then show False
      using assms(1,4) frame_offset(2) [OF i] by (simp add: word_less_nat_alt word_le_nat_alt)
  qed
  note ne = this
  have "store_words (task_pt_regs p) (load_words (mem s) (task_pt_regs (current s)) 34) (mem s) (b + y) = mem s (b + y)"
    using ne by (intro store_words_outside) simp
  then show ?thesis using ne [of 0] by (simp add: copy_regs_mem)
qed

section \<open>Parts of the state the fork does not touch\<close>

lemma addr_space_cong:
  assumes "addr_space s t tab A" "mem s' (t + off_pgd) = mem s (t + off_pgd)"
    and "\<And>p y. p \<in> ran tab \<Longrightarrow> y < 4096 \<Longrightarrow> mem s' (p + VA_START + y) = mem s (p + VA_START + y)"
  shows "addr_space s' t tab A"
  using assms page_tables_frame [of "mem s" tab A "mem s'"] by (simp add: addr_space_def split: if_splits)

lemma load_task_preempt:
  assumes "page_aligned t"
  shows "load_task (m(t + off_preempt_count := v)) t = (load_task m t)\<lparr>preempt_count := v\<rparr>"
proof -
  let ?m = "m(t + off_preempt_count := v)"
  have ne: "(t + x = t + off_preempt_count) = (x = off_preempt_count)" for x by simp
  have "load_task ?m t = (load_task ?m t)\<lparr>mm := mm (load_task m t)\<rparr>"
  proof (rule load_task_eqI)
    fix i :: nat assume i: "i < 16"
    have "off_user_pages + 16 * word_of_nat i \<noteq> off_preempt_count" "off_user_pages + 16 * word_of_nat i + 8 \<noteq> off_preempt_count"
      "off_kernel_pages + 8 * word_of_nat i \<noteq> off_preempt_count"
      using user_offset_unat [OF i] kernel_offset_unat [OF i] by (auto simp: off_preempt_count_def)
    then show "load_user_page ?m t i = user_pages (mm (load_task m t)) ! i"
      "?m (t + off_kernel_pages + 8 * word_of_nat i) = kernel_pages (mm (load_task m t)) ! i"
      using i by (simp_all add: load_task_nth load_user_page_def add.assoc)
  qed (simp_all add: load_task_def layout_defs MAX_PROCESS_PAGES_def)
  then show ?thesis by (simp add: load_task_def load_context_def layout_defs)
qed

text \<open>The \<open>mm_struct\<close> is read from the second half of the struct.\<close>

lemma load_mm_cong:
  assumes "\<And>y. 144 \<le> unat y \<Longrightarrow> unat y < 552 \<Longrightarrow> m' (t' + y) = m (t + y)"
  shows "mm (load_task m' t') = mm (load_task m t)"
proof -
  have "load_user_page m' t' i = load_user_page m t i" if "i < 16" for i
    using assms [of "off_user_pages + 16 * word_of_nat i"] assms [of "off_user_pages + 16 * word_of_nat i + 8"]
      user_offset_unat [OF that] that by (simp add: load_user_page_def add.assoc)
  moreover have "m' (t' + off_kernel_pages + 8 * word_of_nat i) = m (t + off_kernel_pages + 8 * word_of_nat i)" if "i < 16" for i
    using assms [of "off_kernel_pages + 8 * word_of_nat i"] kernel_offset_unat [OF that] that by (simp add: add.assoc)
  then have "load_words m' (t' + off_kernel_pages) MAX_PROCESS_PAGES = load_words m (t + off_kernel_pages) MAX_PROCESS_PAGES"
    by (intro nth_equalityI) (simp_all add: MAX_PROCESS_PAGES_def)
  moreover have "m' (t' + off_pgd) = m (t + off_pgd)" "ld32 m' (t' + off_user_pages_count) = ld32 m (t + off_user_pages_count)"
      "ld32 m' (t' + off_kernel_pages_count) = ld32 m (t + off_kernel_pages_count)"
    using assms [of off_pgd] assms [of off_user_pages_count] assms [of off_kernel_pages_count]
    by (simp_all add: layout_defs ld32_def)
  ultimately show ?thesis by (simp add: load_task_def MAX_PROCESS_PAGES_def)
qed

text \<open>The page a place in memory belongs to.\<close>

lemma page_of:
  obtains b y where "(a :: u64) = b + y" "page_aligned b" "y < 4096"
proof
  show "a = (a AND NOT (mask 12)) + (a AND mask 12)"
  proof -
    have "(a AND NOT (mask 12)) AND (a AND mask 12) = 0" by (rule bit_word_eqI) (simp add: bit_simps)
    then have "(a AND NOT (mask 12)) + (a AND mask 12) = (a AND NOT (mask 12)) OR (a AND mask 12)"
      by (rule disjunctive_add_eq_or)
    also have "\<dots> = a" by (rule bit_word_eqI) (auto simp: bit_simps)
    finally show ?thesis by simp
  qed
  have "\<not> bit (a AND NOT (mask 12)) n" if "n < 12" for n using that by (simp add: bit_simps)
  then have "take_bit 12 (unat (a AND NOT (mask 12))) = 0"
    by (intro bit_eqI) (auto simp: bit_simps)
  then show "page_aligned (a AND NOT (mask 12))"
    by (simp add: page_aligned_def take_bit_eq_mod mod_eq_0_iff_dvd)
  have "a AND mask 12 \<le> mask 12" by (simp add: word_and_le1)
  then show "a AND mask 12 < 4096" by (simp add: mask_eq_exp_minus_1 word_less_nat_alt word_le_nat_alt)
qed

section \<open>The fork\<close>

text \<open>
  The state in which \<open>copy_virt_memory\<close> is called: \<open>s\<close> with preemption disabled, a cleared
  page for the child and the parent's saved frame copied to its end.
\<close>

definition before_copy :: "kernel \<Rightarrow> (nat \<Rightarrow> u16) \<Rightarrow> addr \<Rightarrow> kernel" where
  "before_copy s mp p = copy_regs p (s\<lparr>mem_map := mp, mem := memzero p PAGE_SIZE (mem (preempt_disable s))\<rparr>)"

lemma before_copy_rest:
  "mem_map (before_copy s mp p) = mp" "current (before_copy s mp p) = current s"
  "task (before_copy s mp p) = task s" "nr_tasks (before_copy s mp p) = nr_tasks s"
  "cpu (before_copy s mp p) = cpu s" "dev (before_copy s mp p) = dev s" "curVal (before_copy s mp p) = curVal s"
  "ind (before_copy s mp p) = ind s"
  by (simp_all add: before_copy_def copy_regs_mem)

lemma before_copy_mem:
  assumes "page_aligned p" "page_aligned b" "y < 4096" "b \<noteq> p"
  shows "mem (before_copy s mp p) (b + y) = mem (preempt_disable s) (b + y)"
proof -
  have "\<not> in_page p (b + y)" using page_offset_inj [OF assms(2,1,3)] assms(4) by (auto simp: in_page_def)
  then show ?thesis
    using copy_regs_other [OF _ assms(2,1,3)] assms(4) by (simp add: before_copy_def memzero_outside)
qed

lemma before_copy_child:
  assumes "page_aligned p"
  shows "i < 478 \<Longrightarrow> mem (before_copy s mp p) (p + 8 * i) = 0"
    and "page_aligned (current s) \<Longrightarrow> current s \<noteq> p \<Longrightarrow>
      load_pt_regs (mem (before_copy s mp p)) (task_pt_regs p) =
      (load_pt_regs (mem s) (task_pt_regs (current s)))\<lparr>regs := (regs (load_pt_regs (mem s) (task_pt_regs (current s))))[0 := 0]\<rparr>"
proof -
  show "mem (before_copy s mp p) (p + 8 * i) = 0" if i: "i < 478" for i
  proof -
    have "unat i < 478" using i by (simp add: word_less_nat_alt)
    then have "unat (8 * i) = 8 * unat i" by (simp add: unat_word_ariths)
    then have "8 * i < 3824" "8 * i < 4096" using \<open>unat i < 478\<close> by (simp_all add: word_less_nat_alt)
    moreover have "i < 512" using i by (simp add: word_less_nat_alt)
    ultimately show ?thesis
      using copy_regs_other [OF _ assms assms] memzero_clears by (simp add: before_copy_def)
  qed
  assume cur: "page_aligned (current s)" "current s \<noteq> p"
  let ?s1 = "s\<lparr>mem_map := mp, mem := memzero p PAGE_SIZE (mem (preempt_disable s))\<rparr>"
  have "mem ?s1 (current s + y) = mem s (current s + y)" if y: "3824 \<le> y" "y < 4096" for y
  proof -
    have "\<not> in_page p (current s + y)" using page_offset_inj [OF cur(1) assms y(2)] cur(2) by (auto simp: in_page_def)
    moreover have "y \<noteq> off_preempt_count" using y(1) by (auto simp: layout_defs)
    ultimately show ?thesis by (simp add: memzero_outside preempt_disable_mem)
  qed
  then have "load_pt_regs (mem ?s1) (task_pt_regs (current s)) = load_pt_regs (mem s) (task_pt_regs (current s))"
    by (rule load_frame_cong)
  then show "load_pt_regs (mem (before_copy s mp p)) (task_pt_regs p) =
      (load_pt_regs (mem s) (task_pt_regs (current s)))\<lparr>regs := (regs (load_pt_regs (mem s) (task_pt_regs (current s))))[0 := 0]\<rparr>"
    using copy_regs_frame [of p ?s1] by (simp add: before_copy_def)
qed

text \<open>A parent that may be forked: a user process with a table page and up to 3 pages.\<close>

definition forkable :: "kernel \<Rightarrow> tables \<Rightarrow> space \<Rightarrow> addr \<Rightarrow> bool" where
  "forkable s tabP AP qp \<longleftrightarrow>
     task_page s tabP qp (current s) \<and> addr_space s (current s) tabP AP \<and>
     mem s (current s + off_pgd) \<noteq> 0 \<and> ttbr0_el1 (cpu s) = mem s (current s + off_pgd) \<and>
     page_count (load_task (mem s) (current s)) \<le> 3 \<and>
     parent_pages s (load_task (mem s) (current s)) AP (insert qp (ran tabP)) \<and>
     5 * page_count (load_task (mem s) (current s)) + 1 \<le> card (all_pages - used_pages_of s)"

lemma before_copy_copies:
  assumes f: "forkable s tabP AP qp" and pg: "pg \<in> all_pages" "pg \<notin> used_pages_of s"
    and used: "\<forall>t. mem_map t = mp \<longrightarrow> used_pages_of t = insert pg (used_pages_of s)"
    and p: "p = pg + VA_START"
  defines "s2 \<equiv> before_copy s mp p" and "T \<equiv> load_task (mem s) (current s)"
  obtains s3 tabC AC where "copy_virt_memory p s2 = Inr (0, s3)"
    "addr_space s3 p tabC AC" "dom AC = {vpn (nth_va T j) | j. j < page_count T}"
    "inj_on AC (dom AC)" "addr_space s3 (current s) tabP AP"
    "load_task (mem s3) (current s) = T\<lparr>preempt_count := preempt_count T + 1\<rparr>"
    "s3 = s2\<lparr>mem := mem s3, mem_map := mem_map s3\<rparr>" "insert pg (used_pages_of s) \<subseteq> used_pages_of s3"
    "ran tabC \<inter> insert pg (used_pages_of s) = {}" "ran tabC \<subseteq> used_pages_of s3" "ran AC \<inter> ran tabC = {}"
    "page_count (load_task (mem s3) p) = page_count T" "\<forall>j < page_count T. nth_va (load_task (mem s3) p) j = nth_va T j"
    "\<forall>b. untouched s2 p b \<longrightarrow> (\<forall>y < 4096. mem s3 (b + y) = mem s2 (b + y))"
    "\<forall>y. outside_mm y \<longrightarrow> mem s3 (p + y) = mem s2 (p + y)"
    "\<forall>va p'. AC (vpn va) = Some p' \<longrightarrow> p' \<in> used_pages_of s3 - insert pg (used_pages_of s) \<and>
       user_walk (mem s3) (mem s3 (p + off_pgd)) va = Some (p' + (va AND mask PAGE_SHIFT)) \<and>
       same_page (mem s3) p' (mem s) (the (AP (vpn va)))"
proof -
  have tp: "task_page s tabP qp (current s)" and sp: "addr_space s (current s) tabP AP"
    and root: "mem s (current s + off_pgd) \<noteq> 0" "ttbr0_el1 (cpu s) = mem s (current s + off_pgd)"
    and few: "page_count T \<le> 3" and par: "parent_pages s T AP (insert qp (ran tabP))"
    and free: "5 * page_count T + 1 \<le> card (all_pages - used_pages_of s)"
    using f by (simp_all add: forkable_def T_def)
  note t = task_pageD [OF tp]
  have al: "page_aligned p" using pg(1) by (simp add: p page_aligned_add all_pages_aligned VA_START_aligned)
  have ne: "current s \<noteq> p" "pg \<noteq> qp" "pg \<notin> ran tabP" using pg t by (auto simp: p)
  have used2: "used_pages_of s2 = insert pg (used_pages_of s)" using used by (simp add: s2_def before_copy_rest)
  have same: "mem s2 (b + y) = mem (preempt_disable s) (b + y)" if "page_aligned b" "b \<noteq> p" "y < 4096" for b y
    using before_copy_mem [OF al that(1,3,2)] by (simp add: s2_def)
  have same_s: "mem s2 (x + VA_START + y) = mem s (x + VA_START + y)"
    if "x \<in> all_pages" "x \<noteq> qp" "x \<noteq> pg" "y < 4096" for x y
  proof -
    have x: "page_aligned (x + VA_START)" using that(1) by (simp add: page_aligned_add all_pages_aligned VA_START_aligned)
    have "x + VA_START \<noteq> current s" "x + VA_START \<noteq> p" using that t(1) by (auto simp: p)
    then show ?thesis
      using same [OF x _ that(4)] page_offset_neq [OF x t(6) _ that(4), of off_preempt_count]
      by (simp add: preempt_disable_mem layout_defs)
  qed
  have T2: "load_task (mem s2) (current s) = T\<lparr>preempt_count := preempt_count T + 1\<rparr>"
  proof -
    have "load_task (mem s2) (current s) = load_task (mem (preempt_disable s)) (current s)"
      by (rule load_task_cong) (rule same [OF t(6) ne(1)])
    also have "\<dots> = T\<lparr>preempt_count := preempt_count T + 1\<rparr>"
      using load_task_preempt [OF t(6), of "mem s"]
      by (simp add: preempt_disable_mem T_def) (simp add: load_task_def)
    finally show ?thesis .
  qed
  have mm2: "page_count (load_task (mem s2) (current s)) = page_count T"
      "nth_va (load_task (mem s2) (current s)) = nth_va T"
    by (auto simp: T2 page_count_def nth_va_def)
  have pgd: "mem s2 (current s + off_pgd) = mem s (current s + off_pgd)"
    using same [OF t(6) ne(1), of off_pgd] by (simp add: preempt_disable_mem layout_defs)
  have cur2: "current s2 = current s" "cpu s2 = cpu s" by (simp_all add: s2_def before_copy_rest)
  have tp2: "task_page s2 tabP qp (current s2)"
    using task_page_mono [OF tp, of s2] by (simp add: used2 cur2 subset_insertI)
  have sp2: "addr_space s2 (current s2) tabP AP"
    unfolding cur2
  proof (rule addr_space_cong [OF sp pgd])
    fix x y assume "x \<in> ran tabP" "y < (4096 :: u64)"
    then show "mem s2 (x + VA_START + y) = mem s (x + VA_START + y)"
      using t(3,4) pg(2) used_pages_subset [of s] by (intro same_s) auto
  qed
  have par2: "parent_pages s2 (load_task (mem s2) (current s)) AP (insert pg (insert qp (ran tabP)))"
    using par pg(2) unfolding parent_pages_def mm2 used2 by blast
  have empty: "pgd (mm (load_task (mem s2) p)) = 0" "user_pages_count (mm (load_task (mem s2) p)) = 0"
      "kernel_pages_count (mm (load_task (mem s2) p)) = 0"
    using before_copy_child(1) [OF al, of 18 s mp] before_copy_child(1) [OF al, of 19 s mp]
      before_copy_child(1) [OF al, of 52 s mp]
    by (simp_all add: load_task_def layout_defs ld32_def s2_def)
  have "card (all_pages - used_pages_of s2) = card (all_pages - used_pages_of s) - 1"
    unfolding used2 by (rule card_free_insert [OF pg])
  then have free2: "5 * page_count (load_task (mem s2) (current s2)) \<le> card (all_pages - used_pages_of s2)"
    using free by (simp add: cur2 mm2)
  have root2: "mem s2 (current s2 + off_pgd) \<noteq> 0" "ttbr0_el1 (cpu s2) = mem s2 (current s2 + off_pgd)"
    using root pgd by (simp_all add: cur2)
  have few2: "page_count (load_task (mem s2) (current s2)) \<le> 3" using few by (simp add: cur2 mm2)
  have pg2: "pg \<in> used_pages_of s2" by (simp add: used2)
  note spec = copy_virt_run [OF tp2 sp2 root2 refl few2 par2 [folded cur2(1)] pg2 ne(3,2) refl
      empty [unfolded p] free2]
  obtain s3 tabC AC where run: "copy_virt_memory (pg + VA_START) s2 = Inr (0, s3)"
    and c: "addr_space s3 (pg + VA_START) tabC AC"
      "dom AC = {vpn (nth_va (load_task (mem s2) (current s2)) j) | j. j < page_count (load_task (mem s2) (current s2))}"
      "inj_on AC (dom AC)" "addr_space s3 (current s2) tabP AP"
      "load_task (mem s3) (current s2) = load_task (mem s2) (current s2)"
      "s3 = s2\<lparr>mem := mem s3, mem_map := mem_map s3\<rparr>" "used_pages_of s2 \<subseteq> used_pages_of s3"
      "ran tabC \<inter> used_pages_of s2 = {}" "ran tabC \<subseteq> used_pages_of s3" "ran AC \<inter> ran tabC = {}"
      "user_pages_count (mm (load_task (mem s3) (pg + VA_START))) = user_pages_count (mm (load_task (mem s2) (current s2)))"
      "\<forall>j < page_count (load_task (mem s2) (current s2)). nth_va (load_task (mem s3) (pg + VA_START)) j =
         nth_va (load_task (mem s2) (current s2)) j"
      "\<forall>b. untouched s2 (pg + VA_START) b \<longrightarrow> (\<forall>y < 4096. mem s3 (b + y) = mem s2 (b + y))"
      "\<forall>y. outside_mm y \<longrightarrow> mem s3 (pg + VA_START + y) = mem s2 (pg + VA_START + y)"
      "\<forall>va p'. AC (vpn va) = Some p' \<longrightarrow> p' \<in> used_pages_of s3 - used_pages_of s2 \<and>
         user_walk (mem s3) (mem s3 (pg + VA_START + off_pgd)) va = Some (p' + (va AND mask PAGE_SHIFT)) \<and>
         same_page (mem s3) p' (mem s2) (the (AP (vpn va)))"
    using spec by (elim exE conjE) (rule that)
  note domA = c(2) [unfolded cur2 mm2]
  have pcount: "page_count (load_task (mem s3) p) = page_count T"
    using c(11) mm2(1) by (simp add: page_count_def p cur2)
  have vas: "\<forall>j < page_count T. nth_va (load_task (mem s3) p) j = nth_va T j"
    using c(12) unfolding cur2 mm2 p [symmetric] .
  have "same_page (mem s3) p' (mem s) (the (AP (vpn va)))" if va: "AC (vpn va) = Some p'" for va p'
  proof -
    obtain j where j: "j < page_count T" "vpn va = vpn (nth_va T j)" using domA va by blast
    then obtain pp where pp: "AP (vpn va) = Some pp" "pp \<in> used_pages_of s" "pp \<noteq> qp"
      using par unfolding parent_pages_def by auto
    have "pp \<in> all_pages" "pp \<noteq> pg" using pp(2) pg(2) used_pages_subset by auto
    then show ?thesis
      using c(15) va same_s [of pp] pp page_run_offset(1) by (auto simp: same_page_def)
  qed
  with c(15) have "\<forall>va p'. AC (vpn va) = Some p' \<longrightarrow> p' \<in> used_pages_of s3 - insert pg (used_pages_of s) \<and>
       user_walk (mem s3) (mem s3 (p + off_pgd)) va = Some (p' + (va AND mask PAGE_SHIFT)) \<and>
       same_page (mem s3) p' (mem s) (the (AP (vpn va)))"
    unfolding used2 p by blast
  then show thesis
    using c(1,3-10,13,14) domA run pcount vas unfolding cur2 p [symmetric] used2 T2
    by (intro that [of s3 tabC AC])
qed

text \<open>The whole of \<open>copy_process\<close> for a user process.\<close>

lemma fork_run_full:
  assumes "can_create VA_START s" and "forkable s tabP AP qp" and "fl AND PF_KTHREAD = 0"
    and "T = load_task (mem s) (current s)"
  shows "\<exists>p s' tabC AC. copy_process im fl fn arg s = Inr (int (nr_tasks s), s') \<and>
    p - VA_START \<in> all_pages - used_pages_of s \<and> task s' ! nr_tasks s = p \<and> current s' = current s \<and>
    load_pt_regs (mem s') (task_pt_regs p) = (load_pt_regs (mem s) (task_pt_regs (current s)))\<lparr>regs :=
      (regs (load_pt_regs (mem s) (task_pt_regs (current s))))[0 := 0]\<rparr> \<and>
    load_context (mem s') p = zero_context\<lparr>sp := task_pt_regs p, pc := ret_from_fork im\<rparr> \<and>
    addr_space s' p tabC AC \<and> dom AC = {vpn (nth_va T j) | j. j < page_count T} \<and> inj_on AC (dom AC) \<and>
    ran tabC \<inter> used_pages_of s = {} \<and>
    (\<forall>va p'. AC (vpn va) = Some p' \<longrightarrow> p' \<in> used_pages_of s' - used_pages_of s \<and>
       user_walk (mem s') (mem s' (p + off_pgd)) va = Some (p' + (va AND mask PAGE_SHIFT)) \<and>
       same_page (mem s') p' (mem s) (the (AP (vpn va)))) \<and>
    (\<forall>b. page_aligned b \<and> b - VA_START \<notin> all_pages - used_pages_of s \<longrightarrow> (\<forall>y < 4096. mem s' (b + y) = mem s (b + y))) \<and>
    cpu s' = cpu s \<and> dev s' = dev s \<and> load_task (mem s') (current s) = T \<and> addr_space s' (current s) tabP AP \<and>
    sched_inv s' \<and> task_table s' \<and> placed VA_START s' \<and> running s' = insert p (running s) \<and>
    ran tabC \<subseteq> used_pages_of s' \<and> ran AC \<inter> ran tabC = {} \<and> ran AC \<subseteq> used_pages_of s' - used_pages_of s \<and>
    insert (p - VA_START) (used_pages_of s) \<subseteq> used_pages_of s' \<and> p - VA_START \<notin> ran tabC \<union> ran AC \<and>
    page_count (load_task (mem s') p) = page_count T \<and> (\<forall>j < page_count T. nth_va (load_task (mem s') p) j = nth_va T j) \<and>
    task s' = (task s)[nr_tasks s := p] \<and> nr_tasks s' = Suc (nr_tasks s)"
proof -
  have inv: "sched_inv s" "task_table s" "placed VA_START s" "nr_tasks s < NR_TASKS" "used_pages_of s \<noteq> all_pages"
    using assms(1) by (simp_all add: can_create_def)
  have tp: "task_page s tabP qp (current s)" using assms(2) by (simp add: forkable_def)
  note t = task_pageD [OF tp]
  have w: "waiting s" using inv(1) by (simp add: sched_inv_def)
  obtain pg mp where pg: "pg \<in> all_pages" "pg \<notin> used_pages_of s" "pg + VA_START \<noteq> 0"
    and alloc: "allocate_kernel_page (preempt_disable s) = (pg + VA_START, s\<lparr>mem_map := mp,
      mem := memzero (pg + VA_START) PAGE_SIZE (mem (preempt_disable s))\<rparr>)"
    and used: "\<forall>t. mem_map t = mp \<longrightarrow> used_pages_of t = insert pg (used_pages_of s)"
    by (rule kernel_page_run [OF inv(5)])
  define p where p: "p = pg + VA_START"
  have al: "page_aligned p" using pg(1) by (simp add: p page_aligned_add all_pages_aligned VA_START_aligned)
  have ne: "current s \<noteq> p" using pg t by (auto simp: p)
  define s2 where "s2 = before_copy s mp p"
  obtain s3 tabC AC where run3: "copy_virt_memory p s2 = Inr (0, s3)"
    and c: "addr_space s3 p tabC AC" "dom AC = {vpn (nth_va T j) | j. j < page_count T}"
      "inj_on AC (dom AC)" "addr_space s3 (current s) tabP AP"
      "load_task (mem s3) (current s) = T\<lparr>preempt_count := preempt_count T + 1\<rparr>"
      "s3 = s2\<lparr>mem := mem s3, mem_map := mem_map s3\<rparr>" "insert pg (used_pages_of s) \<subseteq> used_pages_of s3"
      "ran tabC \<inter> insert pg (used_pages_of s) = {}" "ran tabC \<subseteq> used_pages_of s3" "ran AC \<inter> ran tabC = {}"
      "page_count (load_task (mem s3) p) = page_count T" "\<forall>j < page_count T. nth_va (load_task (mem s3) p) j = nth_va T j"
      "\<forall>b. untouched s2 p b \<longrightarrow> (\<forall>y < 4096. mem s3 (b + y) = mem s2 (b + y))"
      "\<forall>y. outside_mm y \<longrightarrow> mem s3 (p + y) = mem s2 (p + y)"
    and pages: "\<forall>va p'. AC (vpn va) = Some p' \<longrightarrow> p' \<in> used_pages_of s3 - insert pg (used_pages_of s) \<and>
       user_walk (mem s3) (mem s3 (p + off_pgd)) va = Some (p' + (va AND mask PAGE_SHIFT)) \<and>
       same_page (mem s3) p' (mem s) (the (AP (vpn va)))"
    unfolding s2_def assms(4) by (rule before_copy_copies [OF assms(2) pg(1,2) used p])
  have s3: "current s3 = current s" "task s3 = task s" "nr_tasks s3 = nr_tasks s"
    using arg_cong [OF c(6), of current] arg_cong [OF c(6), of task] arg_cong [OF c(6), of nr_tasks]
    by (simp_all add: s2_def before_copy_rest)
  define pr where "pr = mem s3 (current s + off_priority)"
  define s' where "s' = s3\<lparr>nr_tasks := Suc (nr_tasks s), task := (task s)[nr_tasks s := p],
      mem := (child_fields im off_flags p fl pr (mem s3))
        (current s + off_preempt_count := mem s3 (current s + off_preempt_count) - 1)\<rparr>"
  have cur: "\<not> in_page p (current s + off_priority)" "\<not> in_page p (current s + off_preempt_count)"
    unfolding p by (rule current_apart [OF inv(1,3) pg(1,2)]; simp add: layout_defs)+
  have "start_task im off_flags p fl s3 = Inr (int (nr_tasks s), s')"
    using start_task_run [of s3 p off_flags im fl] inv(4) cur
    by (simp add: s3 s'_def pr_def off_flags_def)
  then have run: "copy_process im fl fn arg s = Inr (int (nr_tasks s), s')"
    using alloc assms(3) pg(3) run3 by (simp add: copy_process_def Let_def p [symmetric] s2_def before_copy_def)
  have used': "used_pages_of s' = used_pages_of s3" by (rule used_pages_of_cong) (simp add: s'_def)
  have sub': "insert pg (used_pages_of s) \<subseteq> used_pages_of s'" using c(7) used' by simp
  \<comment> \<open>memory outside the two structs\<close>
  have keep: "mem s' a = mem s3 a" if "\<not> in_page p a" "a \<noteq> current s + off_preempt_count" for a
    using that not_in_page [OF that(1)] by (simp add: s'_def child_fields_def layout_defs)
  have keep_page: "mem s' (x + VA_START + y) = mem s3 (x + VA_START + y)"
    if "x \<in> all_pages" "x \<noteq> pg" "x \<noteq> qp" "y < 4096" for x y
  proof -
    have x: "page_aligned (x + VA_START)" using that(1) by (simp add: page_aligned_add all_pages_aligned VA_START_aligned)
    have ne': "x + VA_START \<noteq> p" "x + VA_START \<noteq> current s" using that t(1) by (simp_all add: p)
    show ?thesis
    proof (rule keep)
      show "\<not> in_page p (x + VA_START + y)" using page_offset_neq [OF x al ne'(1) that(4)] by (auto simp: in_page_def)
      show "x + VA_START + y \<noteq> current s + off_preempt_count"
        by (rule page_offset_neq [OF x t(6) ne'(2) that(4)]) (simp add: layout_defs)
    qed
  qed
  \<comment> \<open>the tasks there were\<close>
  have same: "mem s' (b + y) = mem s (b + y)"
    if b: "page_aligned b" "b - VA_START \<notin> all_pages - used_pages_of s" and y: "y < 4096" for b y
  proof -
    have bp: "b \<noteq> p" using b(2) pg(1,2) by (auto simp: p)
    have "b - VA_START \<notin> all_pages - used_pages_of s2"
      using b(2) used by (auto simp: s2_def before_copy_rest)
    then have "untouched s2 p b" using b(1) bp by (simp add: untouched_def)
    then have s3_eq: "mem s3 (b + y) = mem (preempt_disable s) (b + y)"
      using c(13) y before_copy_mem [OF al b(1) y bp] by (simp add: s2_def)
    show ?thesis
    proof (cases "b + y = current s + off_preempt_count")
      case True
      then show ?thesis using s3_eq by (simp add: s'_def preempt_disable_mem)
    next
      case False
      have "\<not> in_page p (b + y)" using page_offset_neq [OF b(1) al bp y] by (auto simp: in_page_def)
      then show ?thesis using keep False s3_eq by (simp add: preempt_disable_mem)
    qed
  qed
  have old: "mem s' (q + off) = mem s (q + off)" if q: "q \<in> set (task s)" "q \<noteq> 0" "unat (off :: u64) < 552" for q off
  proof -
    obtain b y where a: "q + off = b + y" and b: "page_aligned b" and y: "y < 4096" by (rule page_of)
    have "q + off \<noteq> x + VA_START + y" if "x \<in> all_pages" "x \<notin> used_pages_of s" for x
      by (rule placedD [OF inv(3) q(1,2) that q(3) y])
    from this [of "b - VA_START"] have "b - VA_START \<notin> all_pages - used_pages_of s" using a by auto
    then show ?thesis using same [OF b _ y] by (simp add: a)
  qed
  have curD: "current s \<in> set (task s)" "current s \<noteq> 0" by (rule waitingD(3,4) [OF w])+
  have pr': "pr = mem s (current s + off_priority)"
    using keep [OF cur(1)] old [OF curD, of off_priority] by (simp add: pr_def layout_defs)
  have inside: "mem s' (p + y) = child_fields im off_flags p fl pr (mem s3) (p + y)" if "y < 4096" for y
    using not_in_page [OF cur(2) that] by (simp add: s'_def)
  have "task_added p s s'"
    unfolding task_added_def
    using old inside [of off_state] inside [of off_priority] inside [of off_counter] inside [of off_preempt_count]
    by (simp add: s'_def s3 pr' child_fields_def layout_defs)
  note added = task_added_inv [OF inv(1-4) pg(1,2) VA_START_aligned p _ this sub']
  \<comment> \<open>the child\<close>
  have frame: "mem s' (p + y) = mem s2 (p + y)" if "144 \<le> unat y" "y < 4096" "outside_mm y" for y
    using inside [OF that(2)] child_fields_other [OF that(1), of off_flags] c(14) that(3) by simp
  have "load_pt_regs (mem s') (task_pt_regs p) = load_pt_regs (mem s2) (task_pt_regs p)"
    by (rule load_frame_cong, rule frame) (simp_all add: outside_mm_def word_le_nat_alt)
  then have regs: "load_pt_regs (mem s') (task_pt_regs p) = (load_pt_regs (mem s) (task_pt_regs (current s)))\<lparr>regs :=
      (regs (load_pt_regs (mem s) (task_pt_regs (current s))))[0 := 0]\<rparr>"
    using before_copy_child(2) [OF al t(6) ne] by (simp add: s2_def)
  have zero: "mem s3 (p + 8 * i) = 0" if "i < 18" for i
  proof -
    have "unat i < 18" using that by (simp add: word_less_nat_alt)
    then have "unat (8 * i) < 144" by (simp add: unat_word_ariths)
    then have "outside_mm (8 * i)" by (simp add: outside_mm_def word_less_nat_alt)
    moreover have "i < 478" using that by (simp add: word_less_nat_alt)
    ultimately show ?thesis using c(14) before_copy_child(1) [OF al] by (simp add: s2_def)
  qed
  have ctx: "load_context (mem s') p = zero_context\<lparr>sp := task_pt_regs p, pc := ret_from_fork im\<rparr>"
    using zero [of 0] zero [of 1] zero [of 2] zero [of 3] zero [of 4] zero [of 5] zero [of 6] zero [of 7]
      zero [of 8] zero [of 9] zero [of 10] inside [of 0] inside [of 8] inside [of 16] inside [of 24]
      inside [of 32] inside [of 40] inside [of 48] inside [of 56] inside [of 64] inside [of 72]
      inside [of 80] inside [of 88] inside [of 96]
    by (simp add: load_context_def zero_context_def child_fields_def layout_defs)
  \<comment> \<open>the address spaces\<close>
  have pgd: "mem s' (p + off_pgd) = mem s3 (p + off_pgd)"
    using inside [of off_pgd] child_fields_other [of off_pgd off_flags] by (simp add: layout_defs)
  have tabC: "x \<in> all_pages \<and> x \<noteq> pg \<and> x \<noteq> qp" if "x \<in> ran tabC" for x
  proof -
    have "x \<in> all_pages" using that c(1) page_tablesD(2) by (auto simp: addr_space_def ran_def split: if_splits)
    then show ?thesis using that c(8) t(2) by auto
  qed
  have spC: "addr_space s' p tabC AC" by (rule addr_space_cong [OF c(1) pgd keep_page]) (use tabC in auto)
  have tabP: "x \<in> all_pages \<and> x \<noteq> pg \<and> x \<noteq> qp" if "x \<in> ran tabP" for x
    using that t(3,4) pg(2) used_pages_subset [of s] by auto
  have "mem s' (current s + off_pgd) = mem s3 (current s + off_pgd)"
    using current_apart [OF inv(1,3) pg(1,2), of off_pgd] by (intro keep) (simp_all add: p layout_defs)
  then have spP: "addr_space s' (current s) tabP AP"
    by (rule addr_space_cong [OF c(4) _ keep_page]) (use tabP in auto)
  have walk: "p' \<in> used_pages_of s' - used_pages_of s \<and>
      user_walk (mem s') (mem s' (p + off_pgd)) va = Some (p' + (va AND mask PAGE_SHIFT)) \<and>
      same_page (mem s') p' (mem s) (the (AP (vpn va)))" if va: "AC (vpn va) = Some p'" for va p'
  proof -
    have facts: "p' \<in> used_pages_of s3 - insert pg (used_pages_of s)"
        "user_walk (mem s3) (mem s3 (p + off_pgd)) va = Some (p' + (va AND mask PAGE_SHIFT))"
        "same_page (mem s3) p' (mem s) (the (AP (vpn va)))"
      using pages va by blast+
    have root: "mem s3 (p + off_pgd) \<noteq> 0" using c(1) va by (auto simp: addr_space_def)
    have "user_walk (mem s') (mem s' (p + off_pgd)) va = user_walk (mem s3) (mem s3 (p + off_pgd)) va"
      using addr_space_walk [OF spC, of va] addr_space_walk [OF c(1) root, of va] root pgd by simp
    moreover have "same_page (mem s') p' (mem s) (the (AP (vpn va)))"
      using facts(1) used_pages_subset [of s3] t(2) by (intro same_page_memory [OF facts(3)] keep_page) auto
    ultimately show ?thesis using facts used' by auto
  qed
  \<comment> \<open>the parent\<close>
  have "current s - VA_START \<notin> all_pages - used_pages_of s" using t(1,2) by simp
  then have parent: "load_task (mem s') (current s) = T"
    unfolding assms(4) using same [OF t(6)] by (intro load_task_cong) simp
  have rest: "cpu s' = cpu s" "dev s' = dev s"
    using arg_cong [OF c(6), of cpu] arg_cong [OF c(6), of dev] by (simp_all add: s'_def s2_def before_copy_rest)
  have ts: "task s' ! nr_tasks s = p" using inv(2,4) by (simp add: s'_def task_table_def)
  have fresh: "ran tabC \<inter> used_pages_of s = {}" using c(8) by auto
  have "p - VA_START \<in> all_pages - used_pages_of s" using pg by (simp add: p)
  moreover have "current s' = current s" "task s' = (task s)[nr_tasks s := p]" "nr_tasks s' = Suc (nr_tasks s)"
    by (simp_all add: s'_def s3)
  moreover have "mm (load_task (mem s') p) = mm (load_task (mem s3) p)"
    using inside child_fields_other [of _ off_flags] by (intro load_mm_cong) (simp add: word_less_nat_alt layout_defs)
  then have "page_count (load_task (mem s') p) = page_count T" "\<forall>j < page_count T. nth_va (load_task (mem s') p) j = nth_va T j"
    using c(11,12) by (simp_all add: page_count_def nth_va_def)
  moreover have ranA: "ran AC \<subseteq> used_pages_of s3 - insert pg (used_pages_of s)"
  proof
    fix x assume "x \<in> ran AC"
    then obtain k where k: "AC k = Some x" by (auto simp: ran_def)
    then obtain va where "k = vpn va" using c(2) by blast
    then show "x \<in> used_pages_of s3 - insert pg (used_pages_of s)" using pages k by blast
  qed
  then have "ran AC \<subseteq> used_pages_of s' - used_pages_of s" using used' by auto
  moreover have "p - VA_START \<notin> ran tabC \<union> ran AC" using ranA c(8) by (auto simp: p)
  moreover have "insert (p - VA_START) (used_pages_of s) \<subseteq> used_pages_of s'" "ran tabC \<subseteq> used_pages_of s'"
    using c(7,9) used' by (auto simp: p)
  ultimately show ?thesis
    using run ts regs ctx spC c(2,3,10) fresh walk same rest parent spP added pg(3)
    by (intro exI [of _ p] exI [of _ s'] exI [of _ tabC] exI [of _ AC] conjI) (assumption | simp add: p)+
qed

lemma fork_run:
  assumes "can_create VA_START s" and "forkable s tabP AP qp" and "fl AND PF_KTHREAD = 0"
    and "T = load_task (mem s) (current s)"
  shows "\<exists>p s' tabC AC. copy_process im fl fn arg s = Inr (int (nr_tasks s), s') \<and>
    p - VA_START \<in> all_pages - used_pages_of s \<and> task s' ! nr_tasks s = p \<and> current s' = current s \<and>
    load_pt_regs (mem s') (task_pt_regs p) = (load_pt_regs (mem s) (task_pt_regs (current s)))\<lparr>regs :=
      (regs (load_pt_regs (mem s) (task_pt_regs (current s))))[0 := 0]\<rparr> \<and>
    load_context (mem s') p = zero_context\<lparr>sp := task_pt_regs p, pc := ret_from_fork im\<rparr> \<and>
    addr_space s' p tabC AC \<and> dom AC = {vpn (nth_va T j) | j. j < page_count T} \<and> inj_on AC (dom AC) \<and>
    ran tabC \<inter> used_pages_of s = {} \<and>
    (\<forall>va p'. AC (vpn va) = Some p' \<longrightarrow> p' \<in> used_pages_of s' - used_pages_of s \<and>
       user_walk (mem s') (mem s' (p + off_pgd)) va = Some (p' + (va AND mask PAGE_SHIFT)) \<and>
       same_page (mem s') p' (mem s) (the (AP (vpn va)))) \<and>
    (\<forall>b. page_aligned b \<and> b - VA_START \<notin> all_pages - used_pages_of s \<longrightarrow> (\<forall>y < 4096. mem s' (b + y) = mem s (b + y))) \<and>
    cpu s' = cpu s \<and> dev s' = dev s \<and> load_task (mem s') (current s) = T \<and> addr_space s' (current s) tabP AP \<and>
    sched_inv s' \<and> task_table s' \<and> placed VA_START s' \<and> running s' = insert p (running s)"
  using fork_run_full [OF assms, of im fn arg]
  by (elim exE conjE) (intro exI conjI; assumption)

text \<open>
  C7. The fork of a user process in lesson 6 (\<open>copy_process\<close> without \<open>PF_KTHREAD\<close>), for a
  parent whose tables are active, with at most 3 user pages, and 5 free pages for each of
  them and one more: the result is the number of the new task. The saved frame at the end of
  the child's page is the parent's with 0 in \<open>x0\<close>; the child will start in
  \<open>ret_from_fork\<close> with \<open>x19\<close> 0, which returns to user mode. It has a page for each of
  the parent's, found by its own page tables at the same addresses, all of them free before, as its tables were,
  with the same contents. Every page that was not free and everything outside the pages is
  as before, so are the registers, and the scheduler's invariant holds with one more
  running task.
\<close>

theorem fork_user_process:
  assumes "can_create VA_START s" and "forkable s tabP AP qp" and "fl AND PF_KTHREAD = 0"
    and "T = load_task (mem s) (current s)"
  shows "\<exists>p s' tabC AC. copy_process im fl fn arg s = Inr (int (nr_tasks s), s') \<and>
    p - VA_START \<in> all_pages - used_pages_of s \<and> task s' ! nr_tasks s = p \<and> current s' = current s \<and>
    load_pt_regs (mem s') (task_pt_regs p) = (load_pt_regs (mem s) (task_pt_regs (current s)))\<lparr>regs :=
      (regs (load_pt_regs (mem s) (task_pt_regs (current s))))[0 := 0]\<rparr> \<and>
    load_context (mem s') p = zero_context\<lparr>sp := task_pt_regs p, pc := ret_from_fork im\<rparr> \<and>
    addr_space s' p tabC AC \<and> dom AC = {vpn (nth_va T j) | j. j < page_count T} \<and> inj_on AC (dom AC) \<and>
    ran tabC \<inter> used_pages_of s = {} \<and>
    (\<forall>va p'. AC (vpn va) = Some p' \<longrightarrow> p' \<in> used_pages_of s' - used_pages_of s \<and>
       user_walk (mem s') (mem s' (p + off_pgd)) va = Some (p' + (va AND mask PAGE_SHIFT)) \<and>
       same_page (mem s') p' (mem s) (the (AP (vpn va)))) \<and>
    (\<forall>b. page_aligned b \<and> b - VA_START \<notin> all_pages - used_pages_of s \<longrightarrow> (\<forall>y < 4096. mem s' (b + y) = mem s (b + y))) \<and>
    cpu s' = cpu s \<and> dev s' = dev s \<and> load_task (mem s') (current s) = T \<and> addr_space s' (current s) tabP AP \<and>
    sched_inv s' \<and> task_table s' \<and> placed VA_START s' \<and> running s' = insert p (running s)"
  by (rule fork_run [OF assms])

text \<open>A parent: \<open>task_B\<close> of \<open>pair_table\<close>, current, with one page, mapped at 0x1000.\<close>

definition fork_start :: kernel where
  "fork_start = pair_table\<lparr>mem := (mem pair_table)(task_A + off_preempt_count := 1, task_B + off_preempt_count := 0),
     current := task_B, mem_map := (\<lambda>_. 0)(0 := 1, 2 := 1)\<rparr>"

definition fork_parent :: kernel where
  "fork_parent = (let s = map_page task_B 0x1000 (page_at 2) fork_start
     in s\<lparr>cpu := reset_cpu\<lparr>ttbr0_el1 := mem s (task_B + off_pgd)\<rparr>\<rparr>)"

lemma fork_start_used: "used_pages_of fork_start = {page_at 0, page_at 2}"
  by (auto simp: used_pages_of_def fork_start_def map_values)

lemma fork_start_simps:
  "current fork_start = task_B" "task fork_start = [task_A, task_B] @ replicate 62 0" "nr_tasks fork_start = 2"
  by (simp_all add: fork_start_def pair_table_simps)

lemma fork_start_mem:
  "mem fork_start = (\<lambda>_. 0)(task_A + off_priority := 15, task_A + off_counter := 3, task_B + off_priority := 15,
     task_B + off_counter := 7, task_A + off_preempt_count := 1)"
  by (rule ext) (simp add: fork_start_def pair_table_simps pair_kernel_def pair_memory_def layout_defs
      task_A_def task_B_def)

lemma fork_start_mm: "144 \<le> unat y \<Longrightarrow> y < 4096 \<Longrightarrow> mem fork_start (task_B + y) = 0"
proof -
  assume y: "144 \<le> unat y" "y < 4096"
  have "task_B + y \<noteq> task_A + x" if "unat x < 4096" for x
    using pair_offsets [OF that, of y] y(2) by (auto simp: word_less_nat_alt)
  then have "task_B + y \<noteq> task_A + off_priority" "task_B + y \<noteq> task_A + off_counter"
      "task_B + y \<noteq> task_A + off_preempt_count" by (simp_all add: layout_defs)
  moreover have "y \<noteq> off_priority" "y \<noteq> off_counter" using y(1) by (auto simp: layout_defs)
  ultimately show "mem fork_start (task_B + y) = 0" by (simp add: fork_start_mem)
qed

lemma fork_start_empty:
  "mem fork_start (task_B + off_pgd) = 0" "user_pages_count (mm (load_task (mem fork_start) task_B)) = 0"
  "kernel_pages_count (mm (load_task (mem fork_start) task_B)) = 0"
  using fork_start_mm [of off_pgd] fork_start_mm [of off_user_pages_count] fork_start_mm [of off_kernel_pages_count]
  by (simp_all add: layout_defs load_task_def ld32_def)

lemma fork_start_free: "257022 \<le> card (all_pages - used_pages_of fork_start)"
proof -
  have "card (used_pages_of fork_start) \<le> 2" unfolding fork_start_used by (rule card_insert_le_m1) simp_all
  moreover have "card all_pages - card (used_pages_of fork_start) \<le> card (all_pages - used_pages_of fork_start)"
    by (rule diff_card_le_card_Diff) (simp add: fork_start_used)
  ultimately show ?thesis by (simp add: card_all_pages map_values)
qed

lemma task_A_no_page: "task_A - VA_START \<notin> all_pages"
  using task_A_placed [of "task_A - VA_START" 0 0] by auto

lemma tasks_aligned: "page_aligned task_A" "page_aligned task_B"
  by (simp_all add: page_aligned_def task_A_def task_B_def)

lemma fork_parent_facts:
  obtains tab where "can_create VA_START fork_parent"
    "forkable fork_parent tab (Map.empty(vpn 0x1000 \<mapsto> page_at 2)) (page_at 0)"
    "running fork_parent = {task_A, task_B}" "nr_tasks fork_parent = 2" "current fork_parent = task_B"
    "task fork_parent = [task_A, task_B] @ replicate 62 0" "mem fork_parent (task_A + off_pgd) = 0"
    "page_count (load_task (mem fork_parent) task_B) = 1" "nth_va (load_task (mem fork_parent) task_B) 0 = 0x1000"
    "6 \<le> card (all_pages - used_pages_of fork_parent)"
proof -
  let ?s = "map_page task_B 0x1000 (page_at 2) fork_start"
  have pages: "page_at 0 \<in> all_pages" "page_at 2 \<in> all_pages" "page_at 0 \<noteq> page_at 2"
    by (auto simp: all_pages_def map_values page_at_inj)
  have tp: "task_page fork_start Map.empty (page_at 0) task_B"
    by (simp add: task_page_def task_B_page fork_start_used)
  have sp: "addr_space fork_start task_B Map.empty Map.empty"
    by (simp add: addr_space_def fork_start_empty)
  have room: "4 \<le> card (all_pages - used_pages_of fork_start)" using fork_start_free by simp
  have counts: "unat (kernel_pages_count (mm (load_task (mem fork_start) task_B))) < 12"
      "unat (user_pages_count (mm (load_task (mem fork_start) task_B))) < 16"
    by (simp_all add: fork_start_empty)
  obtain r tab new where spec: "addr_space ?s task_B tab (Map.empty(vpn 0x1000 \<mapsto> page_at 2))"
    "mem ?s (task_B + off_pgd) = r" "r \<noteq> 0" "ran tab = ran (Map.empty :: tables) \<union> set new" "length new \<le> 4"
    "set new \<inter> used_pages_of fork_start = {}" "used_pages_of ?s = used_pages_of fork_start \<union> set new"
    "?s = fork_start\<lparr>mem := mem ?s, mem_map := mem_map ?s\<rparr>"
    "\<forall>b y. page_aligned b \<and> y < 4096 \<and> b \<noteq> task_B \<and> b - VA_START \<notin> ran tab \<longrightarrow>
       mem ?s (b + y) = mem fork_start (b + y)"
    "load_task (mem ?s) task_B = (load_task (mem fork_start) task_B)\<lparr>mm := \<lparr>pgd = r,
       user_pages_count = user_pages_count (mm (load_task (mem fork_start) task_B)) + 1,
       user_pages = (user_pages (mm (load_task (mem fork_start) task_B)))
         [unat (user_pages_count (mm (load_task (mem fork_start) task_B))) := \<lparr>phys_addr = page_at 2, virt_addr = 0x1000\<rparr>],
       kernel_pages_count = kernel_pages_count (mm (load_task (mem fork_start) task_B)) + word_of_nat (length new),
       kernel_pages = record_pages (kernel_pages (mm (load_task (mem fork_start) task_B)))
         (unat (kernel_pages_count (mm (load_task (mem fork_start) task_B)))) new\<rparr>\<rparr>"
    "\<forall>y. outside_mm y \<longrightarrow> mem ?s (task_B + y) = mem fork_start (task_B + y)"
    by (rule map_page_spec [OF tp sp pages(2) room counts, of "0x1000"]) (rule that)
  note rest = arg_cong [OF spec(8), of current] arg_cong [OF spec(8), of task] arg_cong [OF spec(8), of nr_tasks]
  have fp: "mem fork_parent = mem ?s" "current fork_parent = task_B" "nr_tasks fork_parent = 2"
      "task fork_parent = [task_A, task_B] @ replicate 62 0" "ttbr0_el1 (cpu fork_parent) = r"
      "used_pages_of fork_parent = used_pages_of ?s"
    using rest spec(2) by (simp_all add: fork_parent_def Let_def fork_start_simps used_pages_of_def)
  have tabs: "ran tab = set new" "set new \<subseteq> all_pages"
    using spec(4,7) used_pages_subset [of ?s] by auto
  \<comment> \<open>the scheduler's fields are those of the start\<close>
  have A: "mem ?s (task_A + y) = mem fork_start (task_A + y)" if "y < 4096" for y
    using spec(9) tasks_aligned(1) pair_tasks(5) task_A_no_page tabs that by blast
  have B: "mem ?s (task_B + y) = mem fork_start (task_B + y)" if "y < 144" for y
    using spec(11) that by (simp add: outside_mm_def)
  have fields: "mem ?s (task_A + off_state) = 0" "mem ?s (task_A + off_counter) = 3"
      "mem ?s (task_A + off_priority) = 15" "mem ?s (task_A + off_preempt_count) = 1"
      "mem ?s (task_B + off_state) = 0" "mem ?s (task_B + off_counter) = 7"
      "mem ?s (task_B + off_priority) = 15" "mem ?s (task_B + off_preempt_count) = 0"
    using A [of off_state] A [of off_counter] A [of off_priority] A [of off_preempt_count]
      B [of off_state] B [of off_counter] B [of off_priority] B [of off_preempt_count]
    by (simp_all add: fork_start_mem layout_defs task_A_def task_B_def)
  have sets: "set (task fork_parent) = {0, task_A, task_B}" by (auto simp: fp)
  have "structs_apart (task fork_parent)"
    using pair_table_inv waitingD(2) [of pair_table] by (simp add: sched_inv_def fp pair_table_simps)
  then have "waiting fork_parent"
    by (intro waitingI) (auto simp: sets fp pair_tasks runs_def cnt_def pri_def fields
        preempt_def get_field_def in_range_def TASK_RUNNING_def nth_append)
  then have inv: "sched_inv fork_parent"
    by (simp add: sched_inv_def fp runs_def fields TASK_RUNNING_def pair_tasks)
  have table: "task_table fork_parent"
    using pair_table_create by (simp add: can_create_def task_table_def fp pair_table_simps)
  have "page_at 0 \<in> used_pages_of fork_parent" by (simp add: fp(6) spec(7) fork_start_used)
  then have placed: "placed VA_START fork_parent"
    unfolding placed_def using task_A_placed task_B_placed by (auto simp: sets) metis
  have "card (all_pages - used_pages_of fork_start) - card (set new) \<le> card (all_pages - used_pages_of fork_start - set new)"
    by (rule diff_card_le_card_Diff) simp
  moreover have "all_pages - used_pages_of fork_start - set new = all_pages - used_pages_of fork_parent"
    unfolding fp(6) spec(7) by auto
  ultimately have "card (all_pages - used_pages_of fork_start) - card (set new) \<le> card (all_pages - used_pages_of fork_parent)"
    by simp
  then have free: "6 \<le> card (all_pages - used_pages_of fork_parent)"
    using fork_start_free spec(5) card_length [of new] by linarith
  then have "used_pages_of fork_parent \<noteq> all_pages" by auto
  then have create: "can_create VA_START fork_parent"
    using inv table placed by (simp add: can_create_def fp NR_TASKS_def)
  \<comment> \<open>the parent's page\<close>
  have used: "used_pages_of fork_parent = {page_at 0, page_at 2} \<union> set new"
    by (simp only: fp(6) spec(7) fork_start_used)
  have count: "page_count (load_task (mem fork_parent) task_B) = 1"
      "nth_va (load_task (mem fork_parent) task_B) 0 = 0x1000"
    unfolding page_count_def nth_va_def fp(1) spec(10) by (simp_all add: fork_start_empty)
  have ptask: "task_page fork_parent tab (page_at 0) task_B"
    using spec(6) unfolding task_page_def used tabs(1) fork_start_used by (auto simp: task_B_page)
  have parent: "parent_pages fork_parent (load_task (mem fork_parent) task_B)
      (Map.empty(vpn 0x1000 \<mapsto> page_at 2)) (insert (page_at 0) (ran tab))"
    unfolding parent_pages_def count(1)
  proof (intro conjI allI impI)
    fix j :: nat assume "j < 1"
    then have j: "nth_va (load_task (mem fork_parent) task_B) j = 0x1000" using count(2) by simp
    show "page_aligned (nth_va (load_task (mem fork_parent) task_B) j)"
        "nth_va (load_task (mem fork_parent) task_B) j < push_bit 48 1"
      unfolding j by (simp_all add: page_aligned_def)
    have "page_at 2 \<in> used_pages_of fork_parent - insert (page_at 0) (ran tab)"
      using spec(6) pages(3) unfolding used tabs(1) fork_start_used by auto
    then show "\<exists>p. (Map.empty(vpn 0x1000 \<mapsto> page_at 2)) (vpn (nth_va (load_task (mem fork_parent) task_B) j)) = Some p \<and>
        p \<in> used_pages_of fork_parent - insert (page_at 0) (ran tab)"
      unfolding j by simp
  qed (simp add: inj_on_def)
  have "forkable fork_parent tab (Map.empty(vpn 0x1000 \<mapsto> page_at 2)) (page_at 0)"
    unfolding forkable_def fp(2)
    using ptask spec(1-3) parent count free by (simp add: fp(1,5) addr_space_def)
  moreover have "running fork_parent = {task_A, task_B}"
    by (auto simp: running_def sets fp(1) runs_def fields TASK_RUNNING_def pair_tasks)
  moreover have "mem fork_parent (task_A + off_pgd) = 0"
    using A [of off_pgd] by (simp add: fp(1) fork_start_mem layout_defs task_A_def task_B_def)
  ultimately show thesis using create fp(2-4) count free by (intro that [of tab])
qed

theorem fork_user_process_witness:
  "\<exists>p s'. copy_process example_image 0 0 0 fork_parent = Inr (2, s') \<and> running s' = {task_A, task_B, p} \<and>
    regs (load_pt_regs (mem s') (task_pt_regs p)) ! 0 = 0"
proof -
  obtain tab where ok: "can_create VA_START fork_parent"
    "forkable fork_parent tab (Map.empty(vpn 0x1000 \<mapsto> page_at 2)) (page_at 0)"
    "running fork_parent = {task_A, task_B}" "nr_tasks fork_parent = 2"
    by (rule fork_parent_facts)
  have "(0 :: u64) AND PF_KTHREAD = 0" by simp
  from fork_user_process [OF ok(1,2) this refl, of example_image 0 0]
  obtain p s' where s': "copy_process example_image 0 0 0 fork_parent = Inr (int (nr_tasks fork_parent), s')"
    "load_pt_regs (mem s') (task_pt_regs p) = (load_pt_regs (mem fork_parent) (task_pt_regs (current fork_parent)))\<lparr>regs :=
      (regs (load_pt_regs (mem fork_parent) (task_pt_regs (current fork_parent))))[0 := 0]\<rparr>"
    "running s' = insert p (running fork_parent)"
    by auto
  then show ?thesis
    by (intro exI [of _ p] exI [of _ s']) (auto simp: ok load_pt_regs_def)
qed

end
