(* ===== verification/Fork_Lessons.thy ===== *)
theory Fork_Lessons
  imports Fork_User
begin

text \<open>
  Process creation in lessons 4 and 5, whose pages are not cleared, and what happens in every
  lesson when there is no page or no entry of \<open>task\<close> left.
\<close>

unbundle bit_operations_syntax

section \<open>The new page\<close>

lemma page_run_l5:
  assumes "used_pages_of s \<noteq> all_pages"
  obtains pg mp where "pg \<in> all_pages" "pg \<notin> used_pages_of s" "pg \<noteq> 0"
    "get_free_page_l5 (preempt_disable s) = (pg, s\<lparr>mem_map := mp, mem := mem (preempt_disable s)\<rparr>)"
    "\<forall>t. mem_map t = mp \<longrightarrow> used_pages_of t = insert pg (used_pages_of s)"
proof -
  have used: "used_pages_of (preempt_disable s) = used_pages_of s"
    by (rule used_pages_of_cong) (simp add: preempt_disable_mem)
  show thesis
  proof (cases rule: get_free_page_l5_cases [of "preempt_disable s"])
    case (1 i)
    have "used_pages_of t = insert (page_at i) (used_pages_of s)" if "mem_map t = (mem_map s)(i := 1)" for t
      using used_pages_of_mark [OF 1(1), of s] that
        used_pages_of_cong [of t "s\<lparr>mem_map := (mem_map s)(i := 1)\<rparr>"] by simp
    moreover have "page_at i \<notin> used_pages_of s"
      using 1(1,2) by (simp add: used_pages_of_page preempt_disable_mem)
    ultimately show thesis
      using 1 page_at_nonzero
      by (intro that [of "page_at i" "(mem_map s)(i := 1)"]) (auto simp: all_pages_def preempt_disable_mem)
  next
    case 2
    with assms used show thesis by simp
  qed
qed

lemma zero_aligned: "page_aligned 0"
  by (simp add: page_aligned_def)

section \<open>Lesson 4\<close>

lemma copy_process_l4_run:
  assumes "can_create 0 s"
  obtains p s' where "p \<in> all_pages" "p \<notin> used_pages_of s" "used_pages_of s' = insert p (used_pages_of s)"
    "copy_process_l4 im fn arg s = Inr (0, s')"
    "\<And>a. \<not> in_page p a \<Longrightarrow> mem s' a = mem s a"
    "load_task_l4 (mem s') p = \<lparr>cpu_ctx_l4 = (load_context (mem s) p)\<lparr>x19 := fn, x20 := arg,
         sp := p + THREAD_SIZE, pc := ret_from_fork im\<rparr>, state_l4 = TASK_RUNNING,
       counter_l4 = mem s (current s + off_priority), priority_l4 = mem s (current s + off_priority),
       preempt_count_l4 = 1\<rparr>"
    "sched_inv s'" "task_table s'" "placed 0 s'" "running s' = insert p (running s)"
    "task s' ! nr_tasks s = p" "nr_tasks s' = Suc (nr_tasks s)" "current s' = current s"
proof -
  have inv: "sched_inv s" "task_table s" "placed 0 s" "nr_tasks s < NR_TASKS" "used_pages_of s \<noteq> all_pages"
    using assms(1) by (simp_all add: can_create_def)
  obtain p mp where pg: "p \<in> all_pages" "p \<notin> used_pages_of s" "p \<noteq> 0"
    and alloc: "get_free_page_l5 (preempt_disable s) = (p, s\<lparr>mem_map := mp, mem := mem (preempt_disable s)\<rparr>)"
    and used: "\<forall>t. mem_map t = mp \<longrightarrow> used_pages_of t = insert p (used_pages_of s)"
    by (rule page_run_l5 [OF inv(5)])
  have cur: "\<not> in_page p (current s + off_priority)" "\<not> in_page p (current s + off_preempt_count)"
    using current_apart [OF inv(1,3) pg(1,2), of off_priority] current_apart [OF inv(1,3) pg(1,2), of off_preempt_count]
    by (simp_all add: layout_defs)
  define pr where "pr = mem s (current s + off_priority)"
  define M where "M = (mem (preempt_disable s))(p + off_priority := pr, p + off_state := TASK_RUNNING,
     p + off_counter := pr, p + off_preempt_count := 1, p + off_x19 := fn, p + off_x20 := arg,
     p + off_pc := ret_from_fork im, p + off_sp := p + THREAD_SIZE)"
  define s' where "s' = s\<lparr>mem_map := mp, nr_tasks := Suc (nr_tasks s), task := (task s)[nr_tasks s := p],
      mem := M(current s + off_preempt_count := M (current s + off_preempt_count) - 1)\<rparr>"
  have "current s + off_priority \<noteq> current s + off_preempt_count" by (simp add: layout_defs)
  then have pr: "mem (preempt_disable s) (current s + off_priority) = pr" by (simp add: pr_def preempt_disable_mem)
  have small: "off_priority < 4096" "off_state < 4096" "off_counter < 4096" "off_preempt_count < 4096"
      "off_x19 < 4096" "off_x20 < 4096" "off_pc < 4096" "off_sp < 4096" "p + off_priority \<noteq> p + off_state"
    by (simp_all add: layout_defs)
  have M_out: "M a = mem (preempt_disable s) a" if "\<not> in_page p a" for a
    using not_in_page [OF that] small by (simp add: M_def)
  have run: "copy_process_l4 im fn arg s = Inr (0, s')"
    using alloc pg(3) pr inv(4) not_in_page [OF cur(2)] small
    by (simp add: copy_process_l4_def Let_def field_defs add_task_def preempt_enable_def s'_def M_def)
  have used': "used_pages_of s' = insert p (used_pages_of s)" using used by (simp add: s'_def)
  have vals: "M (p + off_state) = TASK_RUNNING" "M (p + off_priority) = pr" "M (p + off_counter) = pr"
      "M (p + off_preempt_count) = 1"
    by (simp_all add: M_def layout_defs)
  have p0: "p = p + 0" by simp
  note created = created_memory [OF assms pg(1,2) p0 pg(3) zero_aligned M_out _ _ _ _ s'_def used']
  have created: "\<And>a. \<not> in_page p a \<Longrightarrow> mem s' a = mem s a" "\<And>y. y < 4096 \<Longrightarrow> mem s' (p + y) = M (p + y)"
      "sched_inv s'" "task_table s'" "placed 0 s'" "running s' = insert p (running s)"
    using created vals by (simp_all add: pr_def)
  have page: "M (p + y) = mem s (p + y)" if "y < 104" "y \<noteq> off_x19" "y \<noteq> off_x20" "y \<noteq> off_pc" "y \<noteq> off_sp" for y
  proof -
    have "y < 4096" using that(1) by (simp add: word_less_nat_alt)
    then have "p + y \<noteq> current s + off_preempt_count" using not_in_page [OF cur(2)] by metis
    moreover have "y \<noteq> off_priority" "y \<noteq> off_state" "y \<noteq> off_counter" "y \<noteq> off_preempt_count"
      using that(1) by (auto simp: layout_defs)
    ultimately show ?thesis using that by (simp add: M_def preempt_disable_mem)
  qed
  have "load_task_l4 (mem s') p = \<lparr>cpu_ctx_l4 = (load_context (mem s) p)\<lparr>x19 := fn, x20 := arg,
         sp := p + THREAD_SIZE, pc := ret_from_fork im\<rparr>, state_l4 = TASK_RUNNING,
       counter_l4 = pr, priority_l4 = pr, preempt_count_l4 = 1\<rparr>"
  proof -
    have "mem s' (p + off_state) = TASK_RUNNING" "mem s' (p + off_priority) = pr" "mem s' (p + off_counter) = pr"
      "mem s' (p + off_preempt_count) = 1"
      using created(2) vals small by simp_all
    moreover have "mem s' (p + off_x19) = fn" "mem s' (p + off_x20) = arg" "mem s' (p + off_pc) = ret_from_fork im"
      "mem s' (p + off_sp) = p + THREAD_SIZE"
      using created(2) [of off_x19] created(2) [of off_x20] created(2) [of off_pc] created(2) [of off_sp]
      by (simp_all add: M_def layout_defs)
    moreover have "mem s' (p + 16) = mem s (p + 16)" "mem s' (p + 24) = mem s (p + 24)" "mem s' (p + 32) = mem s (p + 32)"
      "mem s' (p + 40) = mem s (p + 40)" "mem s' (p + 48) = mem s (p + 48)" "mem s' (p + 56) = mem s (p + 56)"
      "mem s' (p + 64) = mem s (p + 64)" "mem s' (p + 72) = mem s (p + 72)" "mem s' (p + 80) = mem s (p + 80)"
      using created(2) page by (simp_all add: off_x19_def off_x20_def off_pc_def off_sp_def)
    ultimately show ?thesis
      by (simp add: load_task_l4_def load_context_def off_x19_def off_x20_def off_pc_def off_sp_def)
  qed
  then show thesis
    using pg used' run created inv(2,4)
    by (intro that [of p s']) (simp_all add: s'_def pr_def task_table_def)
qed

section \<open>Lesson 5\<close>

text \<open>Memory after the two \<open>memzero\<close>s: the frame and the \<open>cpu_context\<close> are clear.\<close>

definition cleared :: "addr \<Rightarrow> memory \<Rightarrow> memory" where
  "cleared p m = memzero (p + THREAD_CPU_CONTEXT) 104 (memzero (task_pt_regs p) sizeof_pt_regs m)"

lemma cleared_eq:
  "cleared p m = store_words p (replicate 13 0) (store_words (task_pt_regs p) (replicate 34 0) m)"
  by (simp add: cleared_def memzero_store_words layout_defs rounds_page)

lemma context_offset_neq:
  fixes p y :: addr
  assumes "104 \<le> unat y" "i < 13"
  shows "p + y \<noteq> p + 8 * word_of_nat i"
proof
  assume "p + y = p + 8 * word_of_nat i"
  then have "unat y = 8 * i" using page_run_offset(2) [of i] assms(2) by simp
  then show False using assms by simp
qed

lemma frame_offset_neq:
  assumes "unat y < 3824" "i < 34"
  shows "p + y \<noteq> task_pt_regs p + 8 * word_of_nat i"
proof
  assume "p + y = task_pt_regs p + 8 * word_of_nat i"
  then have "unat y = 3824 + 8 * i"
    unfolding frame_offset(1) [OF assms(2)] frame_offset(2) [OF assms(2), symmetric] by simp
  then show False using assms(1) by simp
qed

lemma cleared_mem:
  shows "i < 13 \<Longrightarrow> cleared p m (p + 8 * word_of_nat i) = 0"
    and "i < 34 \<Longrightarrow> cleared p m (task_pt_regs p + 8 * word_of_nat i) = 0"
    and "104 \<le> unat y \<Longrightarrow> unat y < 3824 \<Longrightarrow> cleared p m (p + y) = m (p + y)"
    and "\<not> in_page p a \<Longrightarrow> cleared p m a = m a"
proof -
  show "i < 13 \<Longrightarrow> cleared p m (p + 8 * word_of_nat i) = 0" by (simp add: cleared_eq store_words_inside)
  show "cleared p m (task_pt_regs p + 8 * word_of_nat i) = 0" if i: "i < 34"
  proof -
    have "104 \<le> unat (3824 + 8 * word_of_nat i :: u64)" unfolding frame_offset(2) [OF i] by simp
    then have "store_words p (replicate 13 0) m' (task_pt_regs p + 8 * word_of_nat i) = m' (task_pt_regs p + 8 * word_of_nat i)" for m'
      unfolding frame_offset(1) [OF i] using context_offset_neq by (intro store_words_outside) simp
    then show ?thesis using i by (simp add: cleared_eq store_words_inside)
  qed
  show "cleared p m (p + y) = m (p + y)" if y: "104 \<le> unat y" "unat y < 3824"
  proof -
    have "store_words p (replicate 13 0) m' (p + y) = m' (p + y)" for m'
      using context_offset_neq [OF y(1)] by (intro store_words_outside) simp
    moreover have "store_words (task_pt_regs p) (replicate 34 0) m (p + y) = m (p + y)"
      using frame_offset_neq [OF y(2)] by (intro store_words_outside) simp
    ultimately show ?thesis by (simp add: cleared_eq)
  qed
  show "cleared p m a = m a" if "\<not> in_page p a"
  proof -
    have "store_words p (replicate 13 0) m' a = m' a" for m'
      using not_in_page [OF that page_run_offset(1)] by (intro store_words_outside) simp
    moreover have "store_words (task_pt_regs p) (replicate 34 0) m a = m a"
      using not_in_page [OF that frame_offset(3)] by (intro store_words_outside) (simp add: frame_offset(1))
    ultimately show ?thesis by (simp add: cleared_eq)
  qed
qed

text \<open>The last steps, from the state in which the child's frame and registers are set.\<close>

lemma start_task_l5_run:
  assumes cc: "can_create 0 s" and pg: "p \<in> all_pages" "p \<notin> used_pages_of s" "p \<noteq> 0"
    and used: "\<forall>t. mem_map t = mp \<longrightarrow> used_pages_of t = insert p (used_pages_of s)"
    and m1: "\<And>a. \<not> in_page p a \<Longrightarrow> m1 a = mem (preempt_disable s) a"
  obtains s' where "start_task im off_flags_l5 p fl (s\<lparr>mem_map := mp, mem := m1\<rparr>) = Inr (int (nr_tasks s), s')"
    "\<forall>a. \<not> in_page p a \<longrightarrow> mem s' a = mem s a"
    "\<forall>y < 4096. mem s' (p + y) = child_fields im off_flags_l5 p fl (mem s (current s + off_priority)) m1 (p + y)"
    "sched_inv s'" "task_table s'" "placed 0 s'" "running s' = insert p (running s)"
    "used_pages_of s' = insert p (used_pages_of s)"
    "task s' ! nr_tasks s = p" "nr_tasks s' = Suc (nr_tasks s)" "current s' = current s"
proof -
  have inv: "sched_inv s" "task_table s" "placed 0 s" "nr_tasks s < NR_TASKS"
    using cc by (simp_all add: can_create_def)
  define pr where "pr = mem s (current s + off_priority)"
  let ?s1 = "s\<lparr>mem_map := mp, mem := m1\<rparr>"
  have cur: "\<not> in_page p (current s + off_priority)" "\<not> in_page p (current s + off_preempt_count)"
    using current_apart [OF inv(1,3) pg(1,2), of off_priority] current_apart [OF inv(1,3) pg(1,2), of off_preempt_count]
    by (simp_all add: layout_defs)
  have "current s + off_priority \<noteq> current s + off_preempt_count" by (simp add: layout_defs)
  then have pr: "m1 (current s + off_priority) = pr"
    using m1 [OF cur(1)] by (simp add: pr_def preempt_disable_mem)
  define M where "M = child_fields im off_flags_l5 p fl pr m1"
  define s' where "s' = s\<lparr>mem_map := mp, nr_tasks := Suc (nr_tasks s), task := (task s)[nr_tasks s := p],
      mem := M(current s + off_preempt_count := M (current s + off_preempt_count) - 1)\<rparr>"
  have M_out: "M a = m1 a" if "\<not> in_page p a" for a
    unfolding M_def by (rule child_fields_outside [OF that]) (simp add: layout_defs)
  have run: "start_task im off_flags_l5 p fl ?s1 = Inr (int (nr_tasks s), s')"
    using start_task_run [of ?s1 p off_flags_l5 im fl] inv(4) cur pr M_out [OF cur(2)]
    by (cases s) (simp add: s'_def M_def off_flags_l5_def)
  have used': "used_pages_of s' = insert p (used_pages_of s)" using used by (simp add: s'_def)
  note vals = child_fields_values [of off_flags_l5 im p fl pr m1, folded M_def]
  have p0: "p = p + 0" by simp
  note created = created_memory [OF cc pg(1,2) p0 pg(3) zero_aligned _ _ _ _ _ s'_def used']
  have created: "\<And>a. \<not> in_page p a \<Longrightarrow> mem s' a = mem s a" "\<And>y. y < 4096 \<Longrightarrow> mem s' (p + y) = M (p + y)"
      "sched_inv s'" "task_table s'" "placed 0 s'" "running s' = insert p (running s)"
    using created M_out m1 vals by (simp_all add: pr_def)
  show thesis
    using run created used' inv(2,4)
    by (intro that [of s']) (simp_all add: s'_def M_def pr_def task_table_def)
qed

text \<open>The struct and the frame of the new task, from memory before the last steps.\<close>

definition task_l5 :: "image \<Rightarrow> addr \<Rightarrow> u64 \<Rightarrow> u64 \<Rightarrow> u64 \<Rightarrow> u64 \<Rightarrow> u64 \<Rightarrow> task_struct_l5" where
  "task_l5 im p fl pr fn arg stack = \<lparr>cpu_ctx_l5 = zero_context\<lparr>x19 := fn, x20 := arg,
       sp := task_pt_regs p, pc := ret_from_fork im\<rparr>, state_l5 = TASK_RUNNING, counter_l5 = pr,
     priority_l5 = pr, preempt_count_l5 = 1, stack_l5 = stack, flags_l5 = fl\<rparr>"

definition zero_frame :: pt_regs where
  "zero_frame = \<lparr>regs = replicate 31 0, pt_sp = 0, pt_pc = 0, pstate = 0\<rparr>"

lemma load_task_l5_created:
  assumes zero: "\<And>i. 2 \<le> i \<Longrightarrow> i < 11 \<Longrightarrow> m1 (p + 8 * word_of_nat i) = 0"
    and m: "\<And>y. y < 4096 \<Longrightarrow> m (p + y) = child_fields im off_flags_l5 p fl pr m1 (p + y)"
  shows "load_task_l5 m p = task_l5 im p fl pr (m1 p) (m1 (p + 8)) (m1 (p + off_stack_l5))"
proof -
  have z: "m1 (p + 16) = 0" "m1 (p + 24) = 0" "m1 (p + 32) = 0" "m1 (p + 40) = 0" "m1 (p + 48) = 0"
      "m1 (p + 56) = 0" "m1 (p + 64) = 0" "m1 (p + 72) = 0" "m1 (p + 80) = 0"
    using zero [of 2] zero [of 3] zero [of 4] zero [of 5] zero [of 6] zero [of 7] zero [of 8] zero [of 9] zero [of 10]
    by simp_all
  let ?M = "child_fields im off_flags_l5 p fl pr m1"
  have "load_task_l5 m p = load_task_l5 ?M p"
    using m [of 0] by (simp add: load_task_l5_def load_context_def m layout_defs)
  also have "\<dots> = task_l5 im p fl pr (m1 p) (m1 (p + 8)) (m1 (p + off_stack_l5))"
    using z by (simp add: load_task_l5_def load_context_def child_fields_def task_l5_def zero_context_def layout_defs)
  finally show ?thesis .
qed

lemma load_frame_created:
  assumes "\<And>y. y < 4096 \<Longrightarrow> m (p + y) = child_fields im off_flags_l5 p fl pr m1 (p + y)"
  shows "load_pt_regs m (task_pt_regs p) = load_pt_regs m1 (task_pt_regs p)"
proof (rule load_frame_cong)
  fix y :: u64 assume y: "3824 \<le> y" "y < 4096"
  then have "152 \<le> unat y" by (simp add: word_le_nat_alt)
  then show "m (p + y) = m1 (p + y)"
    using assms [OF y(2)] child_fields_other [of y off_flags_l5] by simp
qed

lemma cleared_frame: "load_pt_regs (cleared p m) (task_pt_regs p) = zero_frame"
proof -
  have "load_words (cleared p m) (task_pt_regs p) 31 = replicate 31 0"
    by (rule nth_equalityI) (simp_all add: cleared_mem(2))
  then show ?thesis
    using cleared_mem(2) [of 31 p m] cleared_mem(2) [of 32 p m] cleared_mem(2) [of 33 p m]
    by (simp add: load_pt_regs_def zero_frame_def layout_defs)
qed

text \<open>Memory of a clone before the last steps.\<close>

definition cloned :: "addr \<Rightarrow> addr \<Rightarrow> u64 \<Rightarrow> memory \<Rightarrow> memory" where
  "cloned p cur stack m =
     (store_words (task_pt_regs p) (load_words (cleared p m) (task_pt_regs cur) 34) (cleared p m))
       (task_pt_regs p := 0, task_pt_regs p + off_pt_sp := stack + PAGE_SIZE, p + off_stack_l5 := stack)"

lemma cloned_outside:
  assumes "\<not> in_page p a"
  shows "cloned p cur stack m a = m a"
proof -
  have "store_words (task_pt_regs p) ws m' a = m' a" if "length ws = 34" for ws m'
    using not_in_page [OF assms frame_offset(3)] that by (intro store_words_outside) (simp add: frame_offset(1))
  moreover have "a \<noteq> task_pt_regs p" "a \<noteq> task_pt_regs p + off_pt_sp" "a \<noteq> p + off_stack_l5"
    using not_in_page [OF assms, of 3824] not_in_page [OF assms, of 4072] not_in_page [OF assms, of 136]
    by (simp_all add: task_pt_regs_def layout_defs add.commute [of p])
  ultimately show ?thesis using cleared_mem(4) [OF assms] by (simp add: cloned_def)
qed

lemma cloned_context:
  assumes "i < 13"
  shows "cloned p cur stack m (p + 8 * word_of_nat i) = 0"
proof -
  have u: "unat (8 * word_of_nat i :: u64) = 8 * i" using page_run_offset(2) [of i] assms by simp
  have "p + 8 * word_of_nat i \<noteq> task_pt_regs p + 8 * word_of_nat j" if "j < 34" for j
    using frame_offset_neq [of "8 * word_of_nat i" j] u assms that by simp
  note ne = this
  have "store_words (task_pt_regs p) ws m' (p + 8 * word_of_nat i) = m' (p + 8 * word_of_nat i)" if "length ws = 34" for ws m'
    using ne that by (intro store_words_outside) simp
  moreover have "p + 8 * word_of_nat i \<noteq> p + off_stack_l5"
    using context_offset_neq [of off_stack_l5 i p] assms by (simp add: layout_defs)
  ultimately show ?thesis
    using ne [of 0] ne [of 31] cleared_mem(1) [OF assms] by (simp add: cloned_def layout_defs)
qed

lemma cloned_frame:
  assumes "page_aligned p" "page_aligned cur" "p \<noteq> cur"
  shows "load_pt_regs (cloned p cur stack m) (task_pt_regs p) = (load_pt_regs m (task_pt_regs cur))\<lparr>
      regs := (regs (load_pt_regs m (task_pt_regs cur)))[0 := 0], pt_sp := stack + PAGE_SIZE\<rparr>"
proof -
  let ?f = "task_pt_regs p" and ?F = "load_pt_regs m (task_pt_regs cur)"
  let ?c = "store_words ?f (load_words (cleared p m) (task_pt_regs cur) 34) (cleared p m)"
  have cur: "cleared p m (task_pt_regs cur + 8 * word_of_nat i) = m (task_pt_regs cur + 8 * word_of_nat i)" if i: "i < 34" for i
  proof (rule cleared_mem(4))
    show "\<not> in_page p (task_pt_regs cur + 8 * word_of_nat i)"
      using page_offset_neq [OF assms(2,1) assms(3) [symmetric] frame_offset(3) [OF i]]
      unfolding in_page_def frame_offset(1) [OF i] by blast
  qed
  have "load_pt_regs ?c ?f = ?F"
    by (rule load_pt_regs_cong) (simp add: store_words_inside cur)
  then have c0: "load_pt_regs (?c(?f := 0)) ?f = ?F\<lparr>regs := (regs ?F)[0 := 0]\<rparr>" by (simp add: load_pt_regs_x0)
  have ne: "?f + 8 * word_of_nat i \<noteq> p + off_stack_l5" if i: "i < 34" for i
    using frame_offset_neq [of off_stack_l5 i p] i by (simp add: layout_defs)
  have "load_words (cloned p cur stack m) ?f 31 = load_words (?c(?f := 0)) ?f 31"
  proof (rule nth_equalityI)
    fix i assume "i < length (load_words (cloned p cur stack m) ?f 31)"
    then have i: "i < 31" by simp
    have "(8 :: u64) * word_of_nat i \<noteq> 8 * word_of_nat 31" using word_mult8_inj [of i 31] i by simp
    then show "load_words (cloned p cur stack m) ?f 31 ! i = load_words (?c(?f := 0)) ?f 31 ! i"
      using i ne [of i] by (simp add: cloned_def layout_defs)
  qed simp
  then have "load_pt_regs (cloned p cur stack m) ?f = (load_pt_regs (?c(?f := 0)) ?f)\<lparr>pt_sp := stack + PAGE_SIZE\<rparr>"
    using ne [of 31] ne [of 32] ne [of 33] by (simp add: load_pt_regs_def cloned_def layout_defs)
  then show ?thesis by (simp add: c0)
qed

section \<open>The kernels at boot\<close>

text \<open>Each lesson's kernel before \<open>kernel_main\<close>: \<open>task[0]\<close> is \<open>init_task\<close>, at an address
  below the first page. The fields the scheduler reads are words 13 to 16 of the struct.\<close>

definition boot_l5 :: kernel where
  "boot_l5 = initial_kernel 0x80000 (task_words_l5 INIT_TASK_l5) (\<lambda>_. 0) reset_cpu always_ready"

definition boot_l4 :: kernel where
  "boot_l4 = initial_kernel 0x80000 (task_words_l4 INIT_TASK_l4) (\<lambda>_. 0) reset_cpu always_ready"

lemma initial_can_create:
  assumes s: "s = initial_kernel a ws m c w" and len: "17 \<le> length ws" "length ws \<le> 100"
    and a: "a \<noteq> 0" "page_aligned a" "a - base \<notin> all_pages" "page_aligned base"
    and f: "ws ! 13 = TASK_RUNNING" "ws ! 14 = 0" "ws ! 16 = 0" "1 \<le> sint (ws ! 15)" "sint (ws ! 15) < 2 ^ 31"
  shows "can_create base s"
proof -
  have ts: "task s = a # replicate 63 0" "current s = a" "nr_tasks s = 1" "mem_map s = (\<lambda>_. 0)"
    by (simp_all add: s initial_kernel_def NR_TASKS_def)
  have sets: "set (task s) = {a, 0}" by (simp add: ts set_replicate)
  note fields = init_task_fields [OF len s]
  have r: "runs (mem s) a" "cnt (mem s) a = 0" "pri (mem s) a = sint (ws ! 15)" "preempt s a = 0"
    using fields f a(1) by (simp_all add: runs_def cnt_def pri_def preempt_def get_field_def)
  have "structs_apart (task s)" by (auto simp: structs_apart_def ts nth_Cons')
  then have "waiting s"
    using r a(1) f(4,5) by (intro waitingI) (auto simp: sets ts in_range_def runs_def)
  then have inv: "sched_inv s" using r(1) by (simp add: sched_inv_def ts)
  have tab: "task_table s" using a(1) by (auto simp: task_table_def ts NR_TASKS_def nth_Cons')
  have used: "used_pages_of s = {}" by (simp add: used_pages_of_def ts)
  have pl: "placed base s"
    unfolding placed_def
  proof (intro ballI impI allI)
    fix q pg and x y :: u64
    assume q: "q \<in> set (task s)" "q \<noteq> 0" and pg: "pg \<in> all_pages - used_pages_of s" and x: "unat x < 552" and y: "y < 4096"
    have "a \<noteq> pg + base" using pg a(3) by auto
    then have "a + x \<noteq> pg + base + y"
      using pg a(2,4) x y by (intro page_offset_neq) (simp_all add: page_aligned_add all_pages_aligned word_less_nat_alt)
    then show "q + x \<noteq> pg + base + y" using q by (simp add: sets)
  qed
  have "all_pages \<noteq> {}" using card_all_pages by (auto simp: map_values)
  then show ?thesis using inv tab pl used by (simp add: can_create_def ts NR_TASKS_def)
qed

lemma low_no_page: "a < LOW_MEMORY \<Longrightarrow> a \<notin> all_pages"
  using page_at_range by (force simp: all_pages_def)

lemma boot_create: "can_create 0 boot_l5" "can_create 0 boot_l4" "can_create VA_START boot_kernel"
proof -
  have u: "sint (1 :: u64) = 1" "sint (15 :: u64) = 15" by simp_all
  have a: "page_aligned 0x80000" "page_aligned 0xffff000000080000" by (simp_all add: page_aligned_def)
  have n: "(0x80000 :: addr) - 0 \<notin> all_pages" "(0xffff000000080000 :: addr) - VA_START \<notin> all_pages"
    by (rule low_no_page, simp add: map_values)+
  show "can_create 0 boot_l5"
    by (rule initial_can_create [OF boot_l5_def _ _ _ a(1) n(1) zero_aligned])
      (simp_all add: task_words_l5_def nth_append INIT_TASK_l5_def TASK_RUNNING_def)
  show "can_create 0 boot_l4"
    by (rule initial_can_create [OF boot_l4_def _ _ _ a(1) n(1) zero_aligned])
      (simp_all add: task_words_l4_def nth_append INIT_TASK_l4_def TASK_RUNNING_def)
  have "length (task_words INIT_TASK) = 69" by (rule length_task_words) (simp_all add: INIT_TASK_def MAX_PROCESS_PAGES_def)
  then show "can_create VA_START boot_kernel"
    by (intro initial_can_create [OF boot_kernel_def _ _ _ a(2) n(2) VA_START_aligned])
      (simp_all add: task_words_def nth_append INIT_TASK_def TASK_RUNNING_def)
qed

text \<open>
  Process creation in lesson 5, when a page and an entry of \<open>task\<close> are free: the result is
  the number of the new task, whose struct is at the start of a page that was free. A kernel
  thread gets its function and argument in \<open>x19\<close> and \<open>x20\<close> and an empty frame, and its
  \<open>stack\<close> field is whatever the page held before. A clone gets the parent's frame with 0 in
  \<open>x0\<close> and the end of the given page as its stack. Both start in \<open>ret_from_fork\<close> with
  preemption disabled and as many ticks as the parent's priority; memory outside the new page
  does not change and the scheduler's invariant holds with one more running task.
\<close>

theorem copy_process_l5_creates:
  assumes "can_create 0 s" and "fl AND PF_KTHREAD = 0 \<longrightarrow> page_aligned (current s)"
    and "pr = mem s (current s + off_priority)" and "F = load_pt_regs (mem s) (task_pt_regs (current s))"
  shows "\<exists>p s'. copy_process_l5 im fl fn arg stack s = Inr (int (nr_tasks s), s') \<and>
    p \<in> all_pages - used_pages_of s \<and> used_pages_of s' = insert p (used_pages_of s) \<and>
    (if fl AND PF_KTHREAD \<noteq> 0
     then load_task_l5 (mem s') p = task_l5 im p fl pr fn arg (mem s (p + off_stack_l5)) \<and>
       load_pt_regs (mem s') (task_pt_regs p) = zero_frame
     else load_task_l5 (mem s') p = task_l5 im p fl pr 0 0 stack \<and>
       load_pt_regs (mem s') (task_pt_regs p) = F\<lparr>regs := (regs F)[0 := 0], pt_sp := stack + PAGE_SIZE\<rparr>) \<and>
    task s' ! nr_tasks s = p \<and> nr_tasks s' = Suc (nr_tasks s) \<and> current s' = current s \<and>
    (\<forall>a. \<not> in_page p a \<longrightarrow> mem s' a = mem s a) \<and>
    sched_inv s' \<and> task_table s' \<and> placed 0 s' \<and> running s' = insert p (running s)"
proof -
  have inv: "sched_inv s" "placed 0 s" "used_pages_of s \<noteq> all_pages" using assms(1) by (simp_all add: can_create_def)
  obtain p mp where pg: "p \<in> all_pages" "p \<notin> used_pages_of s" "p \<noteq> 0"
    and alloc: "get_free_page_l5 (preempt_disable s) = (p, s\<lparr>mem_map := mp, mem := mem (preempt_disable s)\<rparr>)"
    and used: "\<forall>t. mem_map t = mp \<longrightarrow> used_pages_of t = insert p (used_pages_of s)"
    by (rule page_run_l5 [OF inv(3)])
  let ?m = "mem (preempt_disable s)"
  have pre: "\<not> in_page p (current s + off_preempt_count)"
    using current_apart [OF inv(1,2) pg(1,2), of off_preempt_count] by (simp add: layout_defs)
  define m1 where "m1 = (if fl AND PF_KTHREAD \<noteq> 0 then (cleared p ?m)(p + off_x19 := fn, p + off_x20 := arg)
    else cloned p (current s) stack ?m)"
  have out: "m1 a = ?m a" if "\<not> in_page p a" for a
    using cleared_mem(4) [OF that] cloned_outside [OF that] not_in_page [OF that, of off_x19] not_in_page [OF that, of off_x20]
    by (simp add: m1_def layout_defs)
  obtain s' where s': "start_task im off_flags_l5 p fl (s\<lparr>mem_map := mp, mem := m1\<rparr>) = Inr (int (nr_tasks s), s')"
    "\<forall>a. \<not> in_page p a \<longrightarrow> mem s' a = mem s a"
    "\<forall>y < 4096. mem s' (p + y) = child_fields im off_flags_l5 p fl pr m1 (p + y)"
    "sched_inv s'" "task_table s'" "placed 0 s'" "running s' = insert p (running s)"
    "used_pages_of s' = insert p (used_pages_of s)"
    "task s' ! nr_tasks s = p" "nr_tasks s' = Suc (nr_tasks s)" "current s' = current s"
    unfolding assms(3) by (rule start_task_l5_run [OF assms(1) pg used out, of im fl])
  have page: "mem s' (p + y) = child_fields im off_flags_l5 p fl pr m1 (p + y)" if "y < 4096" for y
    using s'(3) that by blast
  have run: "copy_process_l5 im fl fn arg stack s = Inr (int (nr_tasks s), s')"
    using alloc pg(3) s'(1)
    by (auto simp: copy_process_l5_def Let_def m1_def cleared_def cloned_def copy_regs_mem set_field_def
        set_mem_def THREAD_CPU_CONTEXT_def)
  have frame: "load_pt_regs (mem s') (task_pt_regs p) = load_pt_regs m1 (task_pt_regs p)"
    by (rule load_frame_created [OF page])
  have "if fl AND PF_KTHREAD \<noteq> 0
     then load_task_l5 (mem s') p = task_l5 im p fl pr fn arg (mem s (p + off_stack_l5)) \<and>
       load_pt_regs (mem s') (task_pt_regs p) = zero_frame
     else load_task_l5 (mem s') p = task_l5 im p fl pr 0 0 stack \<and>
       load_pt_regs (mem s') (task_pt_regs p) = F\<lparr>regs := (regs F)[0 := 0], pt_sp := stack + PAGE_SIZE\<rparr>"
  proof (cases "fl AND PF_KTHREAD = 0")
    case True
    have al: "page_aligned p" "page_aligned (current s)" using True assms(2) pg(1) by (simp_all add: all_pages_aligned)
    have "p \<noteq> current s"
    proof
      assume "p = current s"
      then show False using not_in_page [OF pre, of off_preempt_count] by (simp add: layout_defs)
    qed
    note f = cloned_frame [OF al this, of stack ?m]
    have "load_pt_regs ?m (task_pt_regs (current s)) = F"
      unfolding assms(4)
    proof (rule load_pt_regs_cong)
      fix i :: nat assume "i < 34"
      then have "current s + off_preempt_count \<noteq> task_pt_regs (current s) + 8 * word_of_nat i"
        using frame_offset_neq [of off_preempt_count i "current s"] by (simp add: layout_defs)
      then show "?m (task_pt_regs (current s) + 8 * word_of_nat i) = mem s (task_pt_regs (current s) + 8 * word_of_nat i)"
        by (simp add: preempt_disable_mem)
    qed
    moreover have "m1 = cloned p (current s) stack ?m" using True by (simp add: m1_def)
    moreover have "load_task_l5 (mem s') p = task_l5 im p fl pr (m1 p) (m1 (p + 8)) (m1 (p + off_stack_l5))"
      by (rule load_task_l5_created [OF _ page]) (simp add: calculation(2) cloned_context)
    ultimately show ?thesis
      using True frame f cloned_context [of 0 p "current s" stack ?m] cloned_context [of 1 p "current s" stack ?m]
      by (simp add: cloned_def [of p "current s" stack ?m, THEN fun_cong, of "p + off_stack_l5"])
  next
    case False
    have m1: "m1 = (cleared p ?m)(p + off_x19 := fn, p + off_x20 := arg)" using False by (simp add: m1_def)
    have "load_task_l5 (mem s') p = task_l5 im p fl pr (m1 p) (m1 (p + 8)) (m1 (p + off_stack_l5))"
    proof (rule load_task_l5_created [OF _ page])
      fix i :: nat assume i: "2 \<le> i" "i < 11"
      then have "(8 :: u64) * word_of_nat i \<noteq> 8 * word_of_nat 0" "(8 :: u64) * word_of_nat i \<noteq> 8 * word_of_nat 1"
        using word_mult8_inj [of i 0] word_mult8_inj [of i 1] by simp_all
      then show "m1 (p + 8 * word_of_nat i) = 0"
        using i cleared_mem(1) [of i p ?m] by (simp add: m1 off_x19_def off_x20_def)
    qed
    moreover have "load_pt_regs m1 (task_pt_regs p) = zero_frame"
      unfolding cleared_frame [of p ?m, symmetric] m1
    proof (rule load_pt_regs_cong)
      fix i :: nat assume "i < 34"
      then show "((cleared p ?m)(p + off_x19 := fn, p + off_x20 := arg)) (task_pt_regs p + 8 * word_of_nat i) =
          cleared p ?m (task_pt_regs p + 8 * word_of_nat i)"
        using frame_offset_neq [of 0 i p] frame_offset_neq [of 8 i p] by (simp add: off_x19_def off_x20_def)
    qed
    moreover have "m1 (p + off_stack_l5) = mem s (p + off_stack_l5)"
      using not_in_page [OF pre, of off_stack_l5] cleared_mem(3) [of off_stack_l5 p ?m]
      by (simp add: m1 preempt_disable_mem layout_defs)
    moreover have "m1 p = fn" "m1 (p + 8) = arg" by (simp_all add: m1 off_x19_def off_x20_def)
    ultimately show ?thesis using False frame by simp
  qed
  then show ?thesis
    using run s' pg by (intro exI [of _ p] exI [of _ s']) simp
qed

theorem copy_process_l5_creates_witness:
  "\<exists>p s'. copy_process_l5 example_image PF_KTHREAD 0x82000 7 0 boot_l5 = Inr (1, s') \<and>
    load_task_l5 (mem s') p = task_l5 example_image p PF_KTHREAD 1 0x82000 7 0 \<and> sched_inv s'"
proof -
  have k: "PF_KTHREAD AND PF_KTHREAD \<noteq> 0" by (simp add: PF_KTHREAD_def)
  have n: "nr_tasks boot_l5 = 1" "mem boot_l5 (current boot_l5 + off_priority) = 1"
    using init_task_fields [OF _ _ boot_l5_def]
    by (simp_all add: boot_l5_def initial_kernel_def task_words_l5_def nth_append INIT_TASK_l5_def)
  have out: "mem boot_l5 a = 0" if a: "a \<in> {p + off_stack_l5 | p. p \<in> all_pages}" for a
  proof -
    obtain p where p: "p \<in> all_pages" "a = p + 136"
      using a by (auto simp: layout_defs)
    have "p + 136 \<noteq> 0x80000 + 8 * word_of_nat i" if "i < 19" for i
    proof (rule page_offset_neq)
      show "p \<noteq> 0x80000" using p(1) low_no_page [of "0x80000"] by (auto simp: map_values)
      show "8 * word_of_nat i < (4096 :: u64)" using that by (intro page_run_offset(1)) simp
    qed (use p(1) in \<open>simp_all add: all_pages_aligned page_aligned_def [of "0x80000"]\<close>)
    moreover have "length (task_words_l5 INIT_TASK_l5) = 19" by (simp add: task_words_l5_def)
    ultimately have "store_words 0x80000 (task_words_l5 INIT_TASK_l5) (\<lambda>_. 0) (p + 136) = 0"
      by (metis store_words_outside)
    then show ?thesis by (simp add: boot_l5_def initial_kernel_def p(2))
  qed
  obtain p s' where "copy_process_l5 example_image PF_KTHREAD 0x82000 7 0 boot_l5 = Inr (1, s')" "p \<in> all_pages"
      "load_task_l5 (mem s') p = task_l5 example_image p PF_KTHREAD 1 0x82000 7 (mem boot_l5 (p + off_stack_l5))" "sched_inv s'"
    using copy_process_l5_creates [OF boot_create(1) _ refl refl, of PF_KTHREAD example_image "0x82000" 7 0] k n by auto
  moreover have "mem boot_l5 (p + off_stack_l5) = 0" using calculation(2) by (intro out) auto
  ultimately show ?thesis by (intro exI [of _ p] exI [of _ s']) simp
qed

text \<open>
  Process creation in lesson 4, when a page and an entry of \<open>task\<close> are free: the result is
  0 and the new task is entered under the next number. Of its \<open>cpu_context\<close> only the four
  registers it starts with are set: the others are whatever the page held before.
\<close>

theorem copy_process_l4_creates:
  assumes "can_create 0 s" and "pr = mem s (current s + off_priority)"
  shows "\<exists>p s'. copy_process_l4 im fn arg s = Inr (0, s') \<and>
    p \<in> all_pages - used_pages_of s \<and> used_pages_of s' = insert p (used_pages_of s) \<and>
    load_task_l4 (mem s') p = \<lparr>cpu_ctx_l4 = (load_context (mem s) p)\<lparr>x19 := fn, x20 := arg,
         sp := p + THREAD_SIZE, pc := ret_from_fork im\<rparr>, state_l4 = TASK_RUNNING,
       counter_l4 = pr, priority_l4 = pr, preempt_count_l4 = 1\<rparr> \<and>
    task s' ! nr_tasks s = p \<and> nr_tasks s' = Suc (nr_tasks s) \<and> current s' = current s \<and>
    (\<forall>a. \<not> in_page p a \<longrightarrow> mem s' a = mem s a) \<and>
    sched_inv s' \<and> task_table s' \<and> placed 0 s' \<and> running s' = insert p (running s)"
  unfolding assms(2) by (rule copy_process_l4_run [OF assms(1), of im fn arg]) blast

theorem copy_process_l4_creates_witness:
  "\<exists>p s'. copy_process_l4 example_image 0x82000 7 boot_l4 = Inr (0, s') \<and> nr_tasks s' = 2 \<and> running s' = {0x80000, p} \<and>
    counter_l4 (load_task_l4 (mem s') p) = 1"
proof -
  have n: "nr_tasks boot_l4 = 1" "current boot_l4 = 0x80000"
    by (simp_all add: boot_l4_def initial_kernel_def)
  have f: "mem boot_l4 (0x80000 + off_priority) = 1" "mem boot_l4 (0x80000 + off_state) = 0"
    using init_task_fields [OF _ _ boot_l4_def]
    by (simp_all add: task_words_l4_def nth_append INIT_TASK_l4_def)
  have "running boot_l4 = {0x80000}"
    using f by (auto simp: running_def runs_def TASK_RUNNING_def boot_l4_def initial_kernel_def)
  moreover obtain p s' where "copy_process_l4 example_image 0x82000 7 boot_l4 = Inr (0, s')" "nr_tasks s' = Suc (nr_tasks boot_l4)"
      "running s' = insert p (running boot_l4)" "counter_l4 (load_task_l4 (mem s') p) = mem boot_l4 (current boot_l4 + off_priority)"
    using copy_process_l4_creates [OF boot_create(2) refl, of example_image "0x82000" 7] by auto
  ultimately show ?thesis using n f(1) by (intro exI [of _ p] exI [of _ s']) (simp add: insert_commute)
qed

section \<open>No page, no entry\<close>

lemma no_page_alloc:
  assumes "used_pages_of s = all_pages"
  shows "get_free_page_l5 (preempt_disable s) = (0, preempt_disable s)"
    "allocate_kernel_page (preempt_disable s) = (0, preempt_disable s)"
proof -
  have "used_pages_of (preempt_disable s) = all_pages"
    using assms used_pages_of_cong [of "preempt_disable s" s] by (simp add: preempt_disable_mem)
  then show "get_free_page_l5 (preempt_disable s) = (0, preempt_disable s)"
    "allocate_kernel_page (preempt_disable s) = (0, preempt_disable s)"
    by (cases rule: get_free_page_l5_cases [of "preempt_disable s"];
        auto simp: used_all_pages allocate_kernel_page_def)+
qed

text \<open>A tick while preemption is disabled only counts down.\<close>

lemma tick_disabled:
  assumes "0 < sint (get_field off_preempt_count (current s) s)"
  shows "sched_step sched Tick s = Some (set_field off_counter (current s) (get_field off_counter (current s) s - 1) s)"
  using assms by (simp add: tick_with_def Let_def field_defs layout_defs)

lemma ticks_disabled:
  assumes "0 < sint (get_field off_preempt_count (current s) s)"
  shows "sched_run sched (replicate n Tick) s =
    Some (set_field off_counter (current s) (get_field off_counter (current s) s - word_of_nat n) s)"
  using assms
proof (induction n arbitrary: s)
  case 0
  then show ?case by (cases s) (simp add: field_defs)
next
  case (Suc n)
  let ?s = "set_field off_counter (current s) (get_field off_counter (current s) s - 1) s"
  have "get_field off_preempt_count (current ?s) ?s = get_field off_preempt_count (current s) s"
    by (simp add: field_defs layout_defs)
  then have "sched_run sched (replicate n Tick) ?s = Some (set_field off_counter (current ?s)
      (get_field off_counter (current ?s) ?s - word_of_nat n) ?s)"
    using Suc.prems by (intro Suc.IH) simp
  moreover have "set_field off_counter (current ?s) (get_field off_counter (current ?s) ?s - word_of_nat n) ?s =
      set_field off_counter (current s) (get_field off_counter (current s) s - word_of_nat (Suc n)) s"
    by (cases s) (simp add: field_defs algebra_simps)
  ultimately show ?case by (simp add: tick_disabled [OF Suc.prems] del: sched_step.simps)
qed

text \<open>
  C28. With no free page, process creation returns 1 in every lesson, and returns from inside its
  own critical section: the preemption counter of the caller has gone up for good. From then
  on the timer never takes the processor away from it: after any number of ticks the same
  task is current, and its time slice counts down without a lower limit.
\<close>

theorem creation_failure_stops_preemption:
  assumes "used_pages_of s = all_pages" and "sched_inv s"
  shows "copy_process_l4 im fn arg s = Inr (1, preempt_disable s) \<and>
    copy_process_l5 im fl fn arg stack s = Inr (1, preempt_disable s) \<and>
    copy_process im fl fn arg s = Inr (1, preempt_disable s) \<and>
    get_field off_preempt_count (current s) (preempt_disable s) = 1 \<and>
    (\<forall>sched n. sched_run sched (replicate n Tick) (preempt_disable s) =
      Some (set_field off_counter (current s) (get_field off_counter (current s) s - word_of_nat n) (preempt_disable s)))"
proof -
  have w: "waiting s" using assms(2) by (simp add: sched_inv_def)
  have "preempt s (current s) = 0" using waitingD(8) [OF w waitingD(3,4) [OF w]] by simp
  then have p: "get_field off_preempt_count (current s) (preempt_disable s) = 1"
    by (simp add: preempt_def get_field_def preempt_disable_mem)
  have cur: "current (preempt_disable s) = current s" by (simp add: preempt_disable_mem)
  have "get_field off_counter (current s) (preempt_disable s) = get_field off_counter (current s) s"
    by (simp add: get_field_def preempt_disable_mem layout_defs)
  then have "sched_run sched (replicate n Tick) (preempt_disable s) =
      Some (set_field off_counter (current s) (get_field off_counter (current s) s - word_of_nat n) (preempt_disable s))" for sched n
    using ticks_disabled [of "preempt_disable s" sched n] p by (simp add: cur)
  then show ?thesis
    using p no_page_alloc [OF assms(1)]
    by (simp add: copy_process_l4_def copy_process_l5_def copy_process_def)
qed

lemma mark_pages_inv: "sched_inv (s\<lparr>mem_map := f\<rparr>) \<longleftrightarrow> sched_inv s"
  by (simp add: sched_inv_def waiting_def sched_state_def preempt_def get_field_def)

theorem creation_failure_stops_preemption_witness:
  "\<exists>s'. copy_process example_image PF_KTHREAD 0x82000 7 (boot_kernel\<lparr>mem_map := (\<lambda>_. 1)\<rparr>) = Inr (1, s') \<and>
    sched_run do_schedule (replicate 1000 Tick) s' =
      Some (set_field off_counter (current boot_kernel) (- 1000) s')"
proof -
  let ?s = "boot_kernel\<lparr>mem_map := (\<lambda>_. 1)\<rparr>"
  have full: "used_pages_of ?s = all_pages" by (simp add: used_all_pages)
  have "sched_inv boot_kernel" using boot_create(3) by (simp add: can_create_def)
  then have inv: "sched_inv ?s" by (simp only: mark_pages_inv)
  have "17 \<le> length (task_words INIT_TASK)" "length (task_words INIT_TASK) \<le> 100"
    using length_task_words [of INIT_TASK] by (simp_all add: INIT_TASK_def MAX_PROCESS_PAGES_def)
  from init_task_fields [OF this boot_kernel_def]
  have "get_field off_counter (current ?s) ?s = 0" "current ?s = current boot_kernel"
    by (simp_all add: get_field_def task_words_def nth_append INIT_TASK_def boot_kernel_def initial_kernel_def)
  then show ?thesis
    using creation_failure_stops_preemption [OF full inv, of example_image "0x82000" 7 PF_KTHREAD 0]
    by (intro exI [of _ "preempt_disable ?s"]) (metis diff_0 of_nat_numeral)
qed

text \<open>
  C29. The number of tasks is not checked against the 64 entries of \<open>task\<close>, and no entry is
  ever used again: with 64 tasks created and a page left, the next creation stores the
  pointer past the end of the array, in every lesson and (in lesson 6) for a kernel thread.
\<close>

theorem task_table_overflow:
  assumes "used_pages_of s \<noteq> all_pages" and "NR_TASKS \<le> nr_tasks s"
  shows "copy_process_l4 im fn arg s = Inl Out_Of_Bounds \<and>
    copy_process_l5 im fl fn arg stack s = Inl Out_Of_Bounds \<and>
    (fl AND PF_KTHREAD \<noteq> 0 \<longrightarrow> copy_process im fl fn arg s = Inl Out_Of_Bounds)"
proof -
  obtain p mp where "p \<noteq> 0"
    "get_free_page_l5 (preempt_disable s) = (p, s\<lparr>mem_map := mp, mem := mem (preempt_disable s)\<rparr>)"
    by (rule page_run_l5 [OF assms(1)])
  moreover obtain pg mp' where "pg + VA_START \<noteq> 0"
    "allocate_kernel_page (preempt_disable s) = (pg + VA_START, s\<lparr>mem_map := mp',
      mem := memzero (pg + VA_START) PAGE_SIZE (mem (preempt_disable s))\<rparr>)"
    by (rule kernel_page_run [OF assms(1)])
  ultimately show ?thesis
    using assms(2)
    by (simp add: copy_process_l4_def copy_process_l5_def copy_process_def start_task_def add_task_def
        copy_regs_mem set_mem_def set_field_def get_field_def Let_def)
qed

theorem task_table_overflow_witness:
  "copy_process_l5 example_image 0 0 0 0x400000 (boot_l5\<lparr>nr_tasks := 64\<rparr>) = Inl Out_Of_Bounds"
proof -
  have "used_pages_of (boot_l5\<lparr>nr_tasks := 64\<rparr>) \<noteq> all_pages"
    using boot_create(1) used_pages_of_cong [of "boot_l5\<lparr>nr_tasks := 64\<rparr>" boot_l5] by (simp add: can_create_def)
  from task_table_overflow [OF this, of example_image 0 0 0 "0x400000"] show ?thesis by (simp add: NR_TASKS_def)
qed

end
