(* ===== verification/Fork_Mode.thy ===== *)
theory Fork_Mode
  imports Fork_Lessons
begin

text \<open>
  The move of a kernel thread to user mode (\<open>move_to_user_mode\<close>): the frame it will leave
  the kernel with, and its stack (lesson 5) or its first page, which gets the user program,
  and its page tables (lesson 6).
\<close>

unbundle bit_operations_syntax

section \<open>Lesson 5\<close>

definition user_frame :: "addr \<Rightarrow> u64 \<Rightarrow> pt_regs" where
  "user_frame user_pc user_sp = zero_frame\<lparr>pt_sp := user_sp, pt_pc := user_pc, pstate := PSR_MODE_EL0t\<rparr>"

lemma load_frame_set:
  "load_pt_regs (m(p + off_pt_sp := v)) p = (load_pt_regs m p)\<lparr>pt_sp := v\<rparr>"
  "load_pt_regs (m(p + off_pt_pc := v)) p = (load_pt_regs m p)\<lparr>pt_pc := v\<rparr>"
  "load_pt_regs (m(p + off_pstate := v)) p = (load_pt_regs m p)\<lparr>pstate := v\<rparr>"
proof -
  have "load_words (m(p + 8 * word_of_nat k := v)) p 31 = load_words m p 31" if k: "31 \<le> k" "k < 34" for k
  proof (rule nth_equalityI)
    fix i assume i: "i < length (load_words (m(p + 8 * word_of_nat k := v)) p 31)"
    then have "(8 :: u64) * word_of_nat i \<noteq> 8 * word_of_nat k" using word_mult8_inj [of i k] k by simp
    then show "load_words (m(p + 8 * word_of_nat k := v)) p 31 ! i = load_words m p 31 ! i" using i by simp
  qed simp
  from this [of 31] this [of 32] this [of 33]
  show "load_pt_regs (m(p + off_pt_sp := v)) p = (load_pt_regs m p)\<lparr>pt_sp := v\<rparr>"
    "load_pt_regs (m(p + off_pt_pc := v)) p = (load_pt_regs m p)\<lparr>pt_pc := v\<rparr>"
    "load_pt_regs (m(p + off_pstate := v)) p = (load_pt_regs m p)\<lparr>pstate := v\<rparr>"
    by (simp_all add: load_pt_regs_def layout_defs)
qed

lemma zeroed_frame:
  "load_pt_regs (memzero (task_pt_regs t) sizeof_pt_regs m) (task_pt_regs t) = zero_frame"
proof -
  have z: "memzero (task_pt_regs t) sizeof_pt_regs m = store_words (task_pt_regs t) (replicate 34 0) m"
    by (simp add: memzero_store_words layout_defs rounds_page)
  have "load_words (store_words (task_pt_regs t) (replicate 34 0) m) (task_pt_regs t) 31 = replicate 31 0"
    by (rule nth_equalityI) (simp_all add: store_words_inside)
  then show ?thesis
    using store_words_inside [of 31 "replicate 34 0" "task_pt_regs t" m]
      store_words_inside [of 32 "replicate 34 0" "task_pt_regs t" m]
      store_words_inside [of 33 "replicate 34 0" "task_pt_regs t" m]
    unfolding z by (simp add: load_pt_regs_def zero_frame_def layout_defs)
qed

text \<open>The frame and the struct do not overlap.\<close>

lemma frame_field_neq:
  "unat y < 3824 \<Longrightarrow> t + y \<noteq> task_pt_regs t + off_pt_pc" "unat y < 3824 \<Longrightarrow> t + y \<noteq> task_pt_regs t + off_pstate"
  "unat y < 3824 \<Longrightarrow> t + y \<noteq> task_pt_regs t + off_pt_sp"
  using frame_offset_neq [of y 31 t] frame_offset_neq [of y 32 t] frame_offset_neq [of y 33 t]
  by (simp_all add: layout_defs)

lemma load_frame_field:
  assumes "unat y < 3824"
  shows "load_pt_regs (m(t + y := v)) (task_pt_regs t) = load_pt_regs m (task_pt_regs t)"
  by (rule load_pt_regs_cong) (use frame_offset_neq [OF assms] in \<open>metis fun_upd_other\<close>)

lemma load_task_l5_cong:
  assumes "\<And>y. unat y < 152 \<Longrightarrow> m' (t + y) = m (t + y)"
  shows "load_task_l5 m' t = load_task_l5 m t"
  using assms [of 0] by (simp add: load_task_l5_def load_context_def assms layout_defs)

lemma load_task_l5_stack: "load_task_l5 (m(t + off_stack_l5 := v)) t = (load_task_l5 m t)\<lparr>stack_l5 := v\<rparr>"
  by (simp add: load_task_l5_def load_context_def layout_defs)

text \<open>
  \<open>move_to_user_mode\<close> in lesson 5: the frame of the current task becomes that of a
  program at \<open>user_pc\<close> in user mode with empty registers, its stack is a page that was free,
  and the page is recorded in the struct, of which nothing else changes. With no page left the
  answer is -1, and the frame stays without a stack pointer.
\<close>

theorem move_to_user_mode_l5_spec:
  assumes "t = current s"
  shows "if used_pages_of s = all_pages
    then \<exists>s'. move_to_user_mode_l5 user_pc s = (-1, s') \<and> load_pt_regs (mem s') (task_pt_regs t) = user_frame user_pc 0 \<and>
      load_task_l5 (mem s') t = load_task_l5 (mem s) t \<and> mem_map s' = mem_map s
    else \<exists>stack s'. move_to_user_mode_l5 user_pc s = (0, s') \<and> stack \<in> all_pages - used_pages_of s \<and>
      used_pages_of s' = insert stack (used_pages_of s) \<and>
      load_pt_regs (mem s') (task_pt_regs t) = user_frame user_pc (stack + PAGE_SIZE) \<and>
      load_task_l5 (mem s') t = (load_task_l5 (mem s) t)\<lparr>stack_l5 := stack\<rparr> \<and>
      (\<forall>a. \<not> in_page t a \<longrightarrow> mem s' a = mem s a)"
proof -
  let ?rs = "task_pt_regs t"
  define m0 where "m0 = (memzero ?rs sizeof_pt_regs (mem s))(?rs + off_pt_pc := user_pc, ?rs + off_pstate := PSR_MODE_EL0t)"
  have z: "memzero ?rs sizeof_pt_regs (mem s) = store_words ?rs (replicate 34 0) (mem s)"
    by (simp add: memzero_store_words layout_defs rounds_page)
  have m0: "m0 (t + y) = mem s (t + y)" if "unat y < 3824" for y
  proof -
    have "store_words ?rs (replicate 34 0) (mem s) (t + y) = mem s (t + y)"
      using frame_offset_neq [OF that] by (intro store_words_outside) simp
    then show ?thesis using frame_field_neq [OF that] by (simp add: m0_def z)
  qed
  have out: "m0 a = mem s a" if "\<not> in_page t a" for a
  proof -
    have ne: "a \<noteq> ?rs + 8 * word_of_nat i" if "i < 34" for i
      using not_in_page [OF \<open>\<not> in_page t a\<close> frame_offset(3) [OF that]] frame_offset(1) [OF that] by metis
    then have "store_words ?rs (replicate 34 0) (mem s) a = mem s a" by (intro store_words_outside) simp
    then show ?thesis using ne [of 32] ne [of 33] unfolding m0_def z by (simp add: layout_defs)
  qed
  have frame: "load_pt_regs m0 ?rs = user_frame user_pc 0"
    by (simp add: m0_def load_frame_set zeroed_frame user_frame_def zero_frame_def)
  have task: "load_task_l5 m0 t = load_task_l5 (mem s) t"
    by (rule load_task_l5_cong) (simp add: m0)
  let ?s1 = "s\<lparr>mem := m0\<rparr>"
  have used: "used_pages_of ?s1 = used_pages_of s" by (rule used_pages_of_cong) simp
  have run: "move_to_user_mode_l5 user_pc s = (case get_free_page_l5 ?s1 of (stack, s) \<Rightarrow>
        if stack = 0 then (-1, s)
        else (0, set_field off_stack_l5 (current s) stack (set_field off_pt_sp ?rs (stack + PAGE_SIZE) s)))"
    by (simp add: move_to_user_mode_l5_def Let_def set_mem_def set_field_def m0_def assms cong: prod.case_cong if_cong)
  show ?thesis
  proof (cases rule: get_free_page_l5_cases [of ?s1])
    case (1 i)
    let ?m = "m0(?rs + off_pt_sp := page_at i + PAGE_SIZE, t + off_stack_l5 := page_at i)"
    have small: "unat off_stack_l5 < 3824" by (simp add: layout_defs)
    define s' where s': "s' = s\<lparr>mem_map := (mem_map s)(i := 1), mem := ?m\<rparr>"
    have m: "mem s' = ?m" by (simp add: s')
    have "load_pt_regs (mem s') ?rs = user_frame user_pc (page_at i + PAGE_SIZE)"
      unfolding m by (simp add: load_frame_field [OF small] load_frame_set frame) (simp add: user_frame_def)
    moreover have "load_task_l5 (mem s') t = (load_task_l5 (mem s) t)\<lparr>stack_l5 := page_at i\<rparr>"
      unfolding m load_task_l5_stack task [symmetric]
      by (rule arg_cong [where f = "stack_l5_update _"], rule load_task_l5_cong) (use frame_field_neq(3) in auto)
    moreover have "mem s' a = mem s a" if "\<not> in_page t a" for a
      unfolding m using that out not_in_page [of t a 4072] not_in_page [of t a off_stack_l5]
      by (simp add: task_pt_regs_def layout_defs add.commute [of t])
    moreover have "page_at i \<in> all_pages - used_pages_of s" and full: "used_pages_of s \<noteq> all_pages"
      using 1(1,2) used_pages_of_page [OF 1(1), of s] by (auto simp: all_pages_def)
    moreover have "used_pages_of s' = insert (page_at i) (used_pages_of s)"
      using used_pages_of_mark [OF 1(1), of s] used_pages_of_cong [of s' "s\<lparr>mem_map := (mem_map s)(i := 1)\<rparr>"]
      by (simp add: s')
    moreover have "move_to_user_mode_l5 user_pc s = (0, s')"
      using 1 page_at_nonzero by (simp add: run set_field_def assms s')
    ultimately show ?thesis unfolding if_not_P [OF full] by blast
  next
    case 2
    then have "move_to_user_mode_l5 user_pc s = (-1, ?s1)" by (simp add: run)
    then show ?thesis using 2(1) frame task by (simp add: used)
  qed
qed

theorem move_to_user_mode_l5_spec_witness:
  "\<exists>s'. move_to_user_mode_l5 0x81000 boot_l5 = (0, s') \<and>
    pt_pc (load_pt_regs (mem s') (task_pt_regs 0x80000)) = 0x81000 \<and>
    stack_l5 (load_task_l5 (mem s') 0x80000) \<in> all_pages"
proof -
  have "used_pages_of boot_l5 \<noteq> all_pages" using boot_create(1) by (simp add: can_create_def)
  moreover have "0x80000 = current boot_l5" by (simp add: boot_l5_def initial_kernel_def)
  ultimately show ?thesis
    using move_to_user_mode_l5_spec [of "0x80000" boot_l5 "0x81000"] by (auto simp: user_frame_def)
qed

section \<open>Lesson 6\<close>

text \<open>The kernel's linear map on the memory below the first page, where the program's image is.\<close>

lemma image_translate:
  assumes "page_aligned b" "b < LOW_MEMORY" "y < 4096"
  shows "mmu_translate r m (b + VA_START + y) = Inr (b + VA_START + y)"
proof -
  have ub: "unat b < 0x400000" and uy: "unat y < 4096" using assms(2,3) by (simp_all add: word_less_nat_alt map_values)
  have bsum: "unat (b + y) = unat b + unat y" by (rule page_aligned_add_unat [OF assms(1,3)])
  have "unat (b + VA_START) = unat b + 0xffff000000000000"
    using ub by (simp add: unat_word_ariths map_values)
  moreover have "unat (b + VA_START + y) = unat (b + VA_START) + unat y"
    by (rule page_aligned_add_unat [OF page_aligned_add [OF assms(1) VA_START_aligned] assms(3)])
  ultimately have "VA_START \<le> b + VA_START + y" by (simp add: word_le_nat_alt map_values)
  moreover have "b + VA_START + y - VA_START < PHYS_MEMORY_SIZE"
    using bsum ub uy by (simp add: word_less_nat_alt map_values)
  ultimately show ?thesis by (simp add: mmu_translate_def)
qed

text \<open>The copy of the program: from the image to a page, both through the linear map.\<close>

lemma copy_image:
  assumes p: "p \<in> all_pages" and b: "page_aligned b" "b < LOW_MEMORY" and k: "rounds n \<le> 512"
  shows "memcpy (mmu_translate r) (p + VA_START) (b + VA_START) n m =
    Inr (store_words (p + VA_START) (load_words m (b + VA_START) (rounds n)) m)"
proof -
  have ne: "b + VA_START \<noteq> p + VA_START" using b(2) p low_no_page by auto
  have al: "page_aligned (b + VA_START)" "page_aligned (p + VA_START)"
    using p b(1) by (simp_all add: page_aligned_add all_pages_aligned VA_START_aligned)
  obtain d where d: "rounds n = Suc d" using rounds_pos [of n] by (cases "rounds n") auto
  have small: "8 * word_of_nat j < (4096 :: u64)" if "j < rounds n" for j
    using that k by (intro page_run_offset(1)) simp
  have "memcpy (mmu_translate r) (p + VA_START + 8 * word_of_nat 0) (b + VA_START + 8 * word_of_nat 0) n m =
      Inr (store_words (p + VA_START + 8 * word_of_nat 0)
        (load_words m (b + VA_START + 8 * word_of_nat 0) (rounds n)) m)"
  proof (rule memcpy_run [where k = "rounds n" and d' = d and ?m0.0 = m])
    show "\<forall>j < rounds n. mmu_translate r m' (b + VA_START + 8 * word_of_nat j) = Inr (b + VA_START + 8 * word_of_nat j) \<and>
        mmu_translate r m' (p + VA_START + 8 * word_of_nat j) = Inr (p + VA_START + 8 * word_of_nat j)" for m'
      using small image_translate [OF b] kernel_translate(1) [OF p] by blast
    show "b + VA_START + 8 * word_of_nat i \<noteq> p + VA_START + 8 * word_of_nat j" if "i < rounds n" "j < rounds n" for i j
      using that by (intro page_offset_neq al ne small)
  qed (simp_all add: d)
  then show ?thesis by simp
qed

lemma image_copied:
  assumes p: "p \<in> all_pages" and n: "rounds n \<le> 512" and clear: "\<forall>i < 512. m (p + VA_START + 8 * i) = 0"
    and m': "m' = store_words (p + VA_START) (load_words m (b + VA_START) (rounds n)) m"
  shows "page_aligned c \<Longrightarrow> c \<noteq> p + VA_START \<Longrightarrow> y < 4096 \<Longrightarrow> m' (c + y) = m (c + y)"
    and "\<forall>j < 512. m' (p + VA_START + 8 * word_of_nat j) =
      (if j < rounds n then m (b + VA_START + 8 * word_of_nat j) else 0)"
proof -
  show "page_aligned c \<Longrightarrow> c \<noteq> p + VA_START \<Longrightarrow> y < 4096 \<Longrightarrow> m' (c + y) = m (c + y)"
    unfolding m' using p n
    by (intro store_words_other_page) (simp_all add: page_aligned_add all_pages_aligned VA_START_aligned)
  show "\<forall>j < 512. m' (p + VA_START + 8 * word_of_nat j) =
      (if j < rounds n then m (b + VA_START + 8 * word_of_nat j) else 0)"
  proof (intro allI impI)
    fix j :: nat assume j: "j < 512"
    show "m' (p + VA_START + 8 * word_of_nat j) = (if j < rounds n then m (b + VA_START + 8 * word_of_nat j) else 0)"
    proof (cases "j < rounds n")
      case True
      then show ?thesis using n by (simp add: m' store_words_inside)
    next
      case False
      have "p + VA_START + 8 * word_of_nat j \<noteq> p + VA_START + 8 * word_of_nat i" if "i < rounds n" for i
        using word_mult8_inj [of j i] j that False n by auto
      then have "m' (p + VA_START + 8 * word_of_nat j) = m (p + VA_START + 8 * word_of_nat j)"
        unfolding m' by (intro store_words_outside) simp
      also have "\<dots> = 0" using clear j by (simp add: word_less_nat_alt unat_of_nat)
      finally show ?thesis using False by simp
    qed
  qed
qed

lemma first_page_walk:
  assumes "addr_space s t tab (A(vpn 0 \<mapsto> p))" "mem s (t + off_pgd) \<noteq> 0" "p \<in> all_pages" "y < 4096"
  shows "user_walk (mem s) (mem s (t + off_pgd)) y = Some (p + y)"
proof -
  have "vpn y = vpn 0" "y AND mask PAGE_SHIFT = y" using vpn_offset [of 0 y] assms(4) zero_aligned by simp_all
  then show ?thesis using addr_space_walk [OF assms(1,2), of y] page_or_offset [OF assms(3), of y] by simp
qed

text \<open>The frame the function sets before it allocates: the task's tables and struct stay.\<close>

definition mode_frame :: "u64 \<Rightarrow> addr \<Rightarrow> memory \<Rightarrow> memory" where
  "mode_frame user_pc t m = m(task_pt_regs t + off_pt_pc := user_pc, task_pt_regs t + off_pstate := PSR_MODE_EL0t,
     task_pt_regs t + off_pt_sp := 2 * PAGE_SIZE)"

lemma mode_frame_other:
  assumes "unat y < 3824 \<or> b \<noteq> t" "page_aligned b" "page_aligned t" "y < 4096"
  shows "mode_frame user_pc t m (b + y) = m (b + y)"
proof -
  have "b + y \<noteq> task_pt_regs t + 8 * word_of_nat i" if i: "i < 34" for i
  proof (cases "b = t")
    case True
    then show ?thesis using assms(1) frame_offset_neq [of y i t] i by simp
  next
    case False
    then show ?thesis
      unfolding frame_offset(1) [OF i]
      by (rule page_offset_neq [OF assms(2,3) _ assms(4) frame_offset(3) [OF i]])
  qed
  from this [of 31] this [of 32] this [of 33] show ?thesis
    by (simp add: mode_frame_def layout_defs)
qed

lemma mode_frame_keeps:
  assumes tp: "task_page s tab q t" and space: "addr_space s t tab A"
  shows "addr_space (s\<lparr>mem := mode_frame user_pc t (mem s)\<rparr>) t tab A"
    "mm (load_task (mode_frame user_pc t (mem s)) t) = mm (load_task (mem s) t)"
proof -
  note t = task_pageD [OF tp]
  show "addr_space (s\<lparr>mem := mode_frame user_pc t (mem s)\<rparr>) t tab A"
  proof (rule addr_space_cong [OF space])
    show "mem (s\<lparr>mem := mode_frame user_pc t (mem s)\<rparr>) (t + off_pgd) = mem s (t + off_pgd)"
      using mode_frame_other [of off_pgd t t] t(6) by (simp add: layout_defs)
    fix p and y :: u64 assume p: "p \<in> ran tab" "y < 4096"
    then have "p \<in> all_pages" "p \<noteq> q" using t(3,4) used_pages_subset [of s] by auto
    then show "mem (s\<lparr>mem := mode_frame user_pc t (mem s)\<rparr>) (p + VA_START + y) = mem s (p + VA_START + y)"
      using p(2) t(1,6) by (simp add: mode_frame_other page_aligned_add all_pages_aligned VA_START_aligned)
  qed
  have "load_task (mode_frame user_pc t (mem s)) t = load_task (mem s) t"
  proof (rule load_task_small_cong)
    show "mode_frame user_pc t (mem s) (t + y) = mem s (t + y)" if "unat y < 552" for y
      using that t(6) by (intro mode_frame_other) (simp_all add: word_less_nat_alt)
  qed
  then show "mm (load_task (mode_frame user_pc t (mem s)) t) = mm (load_task (mem s) t)" by simp
qed

text \<open>
  A task gets the page \<open>p\<close> at \<open>va\<close>: tables and the page come from the free ones, the record
  grows, the first part of the struct and all other memory in use stay.
\<close>

definition grown :: "kernel \<Rightarrow> addr \<Rightarrow> tables \<Rightarrow> addr \<times> addr \<Rightarrow> kernel \<Rightarrow> tables \<Rightarrow> bool" where
  "grown s t tab vp s' tab' \<longleftrightarrow> (\<exists>new. ran tab' = ran tab \<union> new \<and> new \<inter> insert (snd vp) (used_pages_of s) = {} \<and>
     used_pages_of s' = insert (snd vp) (used_pages_of s) \<union> new) \<and> snd vp \<notin> used_pages_of s \<and> snd vp \<notin> ran tab' \<and>
     user_pages_count (mm (load_task (mem s') t)) = user_pages_count (mm (load_task (mem s) t)) + 1 \<and>
     user_pages (mm (load_task (mem s') t)) = (user_pages (mm (load_task (mem s) t)))
       [unat (user_pages_count (mm (load_task (mem s) t))) := \<lparr>phys_addr = snd vp, virt_addr = fst vp\<rparr>] \<and>
     (\<forall>y. unat y < 144 \<longrightarrow> mem s' (t + y) = mem s (t + y)) \<and>
     (\<forall>b y. page_aligned b \<and> y < 4096 \<and> b \<noteq> t \<and> b \<noteq> snd vp + VA_START \<and> b - VA_START \<notin> ran tab' \<longrightarrow>
        mem s' (b + y) = mem s (b + y))"

lemma user_mode_run_full:
  assumes "task_page s tab q t" and "addr_space s t tab A" and "t = current s"
    and "5 \<le> card (all_pages - used_pages_of s)"
    and "unat (kernel_pages_count (mm (load_task (mem s) t))) < 12"
    and "unat (user_pages_count (mm (load_task (mem s) t))) < 16"
    and "page_aligned b" and "b < LOW_MEMORY" and "rounds n \<le> 512"
  shows "\<exists>p s' tab'. move_to_user_mode (b + VA_START) n user_pc s = Inr (0, s') \<and>
    p \<in> all_pages - used_pages_of s \<and> addr_space s' t tab' (A(vpn 0 \<mapsto> p)) \<and>
    current s' = t \<and> cpu s' = (cpu s)\<lparr>ttbr0_el1 := mem s' (t + off_pgd)\<rparr> \<and> dev s' = dev s \<and>
    mem s' (t + off_pgd) \<noteq> 0 \<and> ttbr0_el1 (cpu s') = mem s' (t + off_pgd) \<and>
    (\<forall>y < 4096. user_walk (mem s') (ttbr0_el1 (cpu s')) y = Some (p + y)) \<and>
    (\<forall>j < 512. mem s' (p + VA_START + 8 * word_of_nat j) =
      (if j < rounds n then mem s (b + VA_START + 8 * word_of_nat j) else 0)) \<and>
    load_pt_regs (mem s') (task_pt_regs t) = (load_pt_regs (mem s) (task_pt_regs t))\<lparr>pt_sp := 2 * PAGE_SIZE,
      pt_pc := user_pc, pstate := PSR_MODE_EL0t\<rparr> \<and>
    (\<forall>p' \<in> used_pages_of s. p' \<noteq> q \<and> p' \<notin> ran tab \<longrightarrow>
      (\<forall>y < 4096. mem s' (p' + VA_START + y) = mem s (p' + VA_START + y))) \<and>
    grown s t tab (0, p) s' tab' \<and> task s' = task s \<and> nr_tasks s' = nr_tasks s"
proof -
  note t = task_pageD [OF assms(1)]
  define s1 where "s1 = s\<lparr>mem := mode_frame user_pc t (mem s)\<rparr>"
  have used1: "used_pages_of s1 = used_pages_of s" by (rule used_pages_of_cong) (simp add: s1_def)
  have s1: "task_page s1 tab q t" "addr_space s1 t tab A" "mm (load_task (mem s1) t) = mm (load_task (mem s) t)"
      "cpu s1 = cpu s" "current s1 = t"
    using assms(1,3) mode_frame_keeps [OF assms(1,2), of user_pc] used1
    by (simp_all add: s1_def task_page_def)
  have free: "5 \<le> card (all_pages - used_pages_of s1)" unfolding used1 by (rule assms(4))
  have counts: "unat (kernel_pages_count (mm (load_task (mem s1) t))) < 12"
      "unat (user_pages_count (mm (load_task (mem s1) t))) < 16"
    using assms(5,6) by (simp_all add: s1(3))
  obtain p tab' new s2 where run: "allocate_user_page t 0 s1 = (p + VA_START, s2)"
    and p: "p \<in> all_pages" "p \<notin> used_pages_of s1" "p \<notin> ran tab'"
    and sp: "addr_space s2 t tab' (A(vpn 0 \<mapsto> p))" "mem s2 (t + off_pgd) \<noteq> 0"
    and tabs: "ran tab' = ran tab \<union> set new" "set new \<inter> insert p (used_pages_of s1) = {}"
      "used_pages_of s2 = insert p (used_pages_of s1) \<union> set new"
    and rest: "s2 = s1\<lparr>mem := mem s2, mem_map := mem_map s2\<rparr>"
    and frame: "\<forall>b y. page_aligned b \<and> y < 4096 \<and> b \<noteq> t \<and> b \<noteq> p + VA_START \<and> b - VA_START \<notin> ran tab' \<longrightarrow>
       mem s2 (b + y) = mem s1 (b + y)"
    and uc: "user_pages_count (mm (load_task (mem s2) t)) = user_pages_count (mm (load_task (mem s1) t)) + 1"
    and ups: "user_pages (mm (load_task (mem s2) t)) = (user_pages (mm (load_task (mem s1) t)))
       [unat (user_pages_count (mm (load_task (mem s1) t))) := \<lparr>phys_addr = p, virt_addr = 0\<rparr>]"
    and clear: "\<forall>i < 512. mem s2 (p + VA_START + 8 * i) = 0"
    and out: "\<forall>y. outside_mm y \<longrightarrow> mem s2 (t + y) = mem s1 (t + y)"
    by (rule allocate_user_page_run [OF s1(1,2) free counts, of 0]) (rule that)
  define m3 where "m3 = store_words (p + VA_START) (load_words (mem s2) (b + VA_START) (rounds n)) (mem s2)"
  define s' where "s' = set_pgd (m3 (t + off_pgd)) (s2\<lparr>mem := m3\<rparr>)"
  have al: "page_aligned (p + VA_START)" "page_aligned (b + VA_START)"
    using p(1) assms(7) by (simp_all add: page_aligned_add all_pages_aligned VA_START_aligned)
  have ne: "t \<noteq> p + VA_START" using p(2) t(1,2) by (auto simp: used1)
  note m3 = image_copied(1) [OF p(1) assms(9) clear m3_def]
  have pgd: "m3 (t + off_pgd) = mem s2 (t + off_pgd)" using m3 [OF t(6) ne] by (simp add: layout_defs)
  have s': "mem s' = m3" "ttbr0_el1 (cpu s') = mem s' (t + off_pgd)" "mem s' (t + off_pgd) = mem s2 (t + off_pgd)"
    by (simp_all add: s'_def set_pgd_rest pgd)
  \<comment> \<open>the run\<close>
  have "memcpy (mmu_translate (ttbr0_el1 (cpu s2))) (p + VA_START) (b + VA_START) n (mem s2) = Inr m3"
    unfolding m3_def by (rule copy_image [OF p(1) assms(7-9)])
  moreover have "current s2 = t" using arg_cong [OF rest, of current] s1(5) by simp
  moreover have "p + VA_START \<noteq> 0" using kernel_translate(2) [OF p(1), of 0] by simp
  ultimately have run': "move_to_user_mode (b + VA_START) n user_pc s = Inr (0, s')"
    using run by (simp add: move_to_user_mode_def Let_def s1_def mode_frame_def set_field_def get_field_def
        assms(3) [symmetric] s'_def)
  have regs: "current s' = t" "cpu s' = (cpu s)\<lparr>ttbr0_el1 := mem s' (t + off_pgd)\<rparr>" "dev s' = dev s"
    using arg_cong [OF rest, of current] arg_cong [OF rest, of cpu] arg_cong [OF rest, of dev] s1(4,5) s'(1)
    by (simp_all add: s'_def set_pgd_def s1_def)
  \<comment> \<open>the address space\<close>
  have tabs_in: "ran tab' \<subseteq> all_pages" using tabs(1,3) t(4) used_pages_subset [of s2] used_pages_subset [of s] by auto
  have space: "addr_space s' t tab' (A(vpn 0 \<mapsto> p))"
  proof (rule addr_space_cong [OF sp(1) s'(3)])
    fix c y assume "c \<in> ran tab'" "y < (4096 :: u64)"
    then show "mem s' (c + VA_START + y) = mem s2 (c + VA_START + y)"
      using tabs_in p(3) unfolding s'(1)
      by (intro m3) (auto simp: page_aligned_add all_pages_aligned VA_START_aligned)
  qed
  have nz: "mem s' (t + off_pgd) \<noteq> 0" using sp(2) s'(3) by simp
  note walk = first_page_walk [OF space nz p(1), folded s'(2)]
  \<comment> \<open>the contents of the pages\<close>
  have image: "mem s2 (b + VA_START + y) = mem s (b + VA_START + y)" if "y < 4096" for y
  proof -
    have "b \<notin> all_pages" by (rule low_no_page [OF assms(8)])
    then have "b + VA_START \<noteq> t" "b + VA_START \<noteq> p + VA_START" "b + VA_START - VA_START \<notin> ran tab'"
      using t(1,5) p(1) tabs_in by auto
    then show ?thesis
      using frame al(2) mode_frame_other [of y "b + VA_START" t user_pc "mem s"] that t(6) by (simp add: s1_def)
  qed
  have content: "\<forall>j < 512. mem s' (p + VA_START + 8 * word_of_nat j) =
      (if j < rounds n then mem s (b + VA_START + 8 * word_of_nat j) else 0)"
    using image_copied(2) [OF p(1) assms(9) clear m3_def] image [OF page_run_offset(1)] by (simp add: s'(1))
  \<comment> \<open>the frame and the other pages\<close>
  have "load_pt_regs (mem s') (task_pt_regs t) = load_pt_regs (mem s1) (task_pt_regs t)"
  proof (rule load_frame_cong)
    fix y :: u64 assume y: "3824 \<le> y" "y < 4096"
    then have "outside_mm y" unfolding outside_mm_def word_le_nat_alt word_less_nat_alt by simp
    then show "mem s' (t + y) = mem s1 (t + y)" using out m3 [OF t(6) ne y(2)] by (simp add: s'(1))
  qed
  then have fr: "load_pt_regs (mem s') (task_pt_regs t) = (load_pt_regs (mem s) (task_pt_regs t))\<lparr>pt_sp := 2 * PAGE_SIZE,
      pt_pc := user_pc, pstate := PSR_MODE_EL0t\<rparr>"
    by (simp add: s1_def mode_frame_def load_frame_set)
  have others: "\<forall>p' \<in> used_pages_of s. p' \<noteq> q \<and> p' \<notin> ran tab \<longrightarrow>
      (\<forall>y < 4096. mem s' (p' + VA_START + y) = mem s (p' + VA_START + y))"
  proof (intro ballI impI allI)
    fix p' and y :: u64 assume p': "p' \<in> used_pages_of s" "p' \<noteq> q \<and> p' \<notin> ran tab" and y: "y < 4096"
    have al': "page_aligned (p' + VA_START)" "p' + VA_START \<noteq> t" "p' + VA_START \<noteq> p + VA_START"
      using p' p(2) t(1) used_pages_subset [of s]
      by (auto simp: used1 page_aligned_add all_pages_aligned VA_START_aligned)
    moreover have "p' + VA_START - VA_START \<notin> ran tab'" using p' tabs(1,2) by (auto simp: used1)
    ultimately show "mem s' (p' + VA_START + y) = mem s (p' + VA_START + y)"
      using frame m3 [OF al'(1,3) y] mode_frame_other [of y "p' + VA_START" t user_pc "mem s"] t(6) y
      by (simp add: s'(1) s1_def)
  qed
  \<comment> \<open>what the task has now\<close>
  have mm: "mm (load_task (mem s') t) = mm (load_task (mem s2) t)"
    unfolding s'(1) by (intro load_mm_cong m3 [OF t(6) ne]) (simp add: word_less_nat_alt)
  have "used_pages_of s' = used_pages_of s2" by (rule used_pages_of_cong) (simp add: s'_def set_pgd_def)
  then have used': "used_pages_of s' = insert p (used_pages_of s) \<union> set new" using tabs(3) used1 by simp
  have first: "mem s' (t + y) = mem s (t + y)" if y: "unat y < 144" for y
  proof -
    have "outside_mm y" "y < 4096" using y by (simp_all add: outside_mm_def word_less_nat_alt)
    then show ?thesis
      using out m3 [OF t(6) ne] mode_frame_other [of y t t user_pc "mem s"] t(6) y by (simp add: s'(1) s1_def)
  qed
  have outside: "mem s' (c + y) = mem s (c + y)"
    if c: "page_aligned c" "y < 4096" "c \<noteq> t" "c \<noteq> p + VA_START" "c - VA_START \<notin> ran tab'" for c y
    using frame m3 [OF c(1,4,2)] mode_frame_other [of y c t user_pc "mem s"] c t(6) by (simp add: s'(1) s1_def)
  have grown: "grown s t tab (0, p) s' tab'"
    unfolding grown_def fst_conv snd_conv
  proof (intro conjI)
    show "\<exists>new. ran tab' = ran tab \<union> new \<and> new \<inter> insert p (used_pages_of s) = {} \<and>
        used_pages_of s' = insert p (used_pages_of s) \<union> new"
      using tabs(1,2) used' unfolding used1 by blast
    show "p \<notin> used_pages_of s" using p(2) unfolding used1 .
  qed (use p(3) uc ups first outside in \<open>simp_all add: mm s1(3)\<close>)
  have tasks: "task s' = task s" "nr_tasks s' = nr_tasks s"
    using arg_cong [OF rest, of task] arg_cong [OF rest, of nr_tasks] by (simp_all add: s'_def set_pgd_def s1_def)
  have "p \<in> all_pages - used_pages_of s" using p by (simp add: used1)
  then show ?thesis using run' space regs nz s'(2) walk content fr others grown tasks by blast
qed

lemma user_mode_run:
  assumes "task_page s tab q t" and "addr_space s t tab A" and "t = current s"
    and "5 \<le> card (all_pages - used_pages_of s)"
    and "unat (kernel_pages_count (mm (load_task (mem s) t))) < 12"
    and "unat (user_pages_count (mm (load_task (mem s) t))) < 16"
    and "page_aligned b" and "b < LOW_MEMORY" and "rounds n \<le> 512"
  shows "\<exists>p s' tab'. move_to_user_mode (b + VA_START) n user_pc s = Inr (0, s') \<and>
    p \<in> all_pages - used_pages_of s \<and> addr_space s' t tab' (A(vpn 0 \<mapsto> p)) \<and>
    current s' = t \<and> cpu s' = (cpu s)\<lparr>ttbr0_el1 := mem s' (t + off_pgd)\<rparr> \<and> dev s' = dev s \<and>
    mem s' (t + off_pgd) \<noteq> 0 \<and> ttbr0_el1 (cpu s') = mem s' (t + off_pgd) \<and>
    (\<forall>y < 4096. user_walk (mem s') (ttbr0_el1 (cpu s')) y = Some (p + y)) \<and>
    (\<forall>j < 512. mem s' (p + VA_START + 8 * word_of_nat j) =
      (if j < rounds n then mem s (b + VA_START + 8 * word_of_nat j) else 0)) \<and>
    load_pt_regs (mem s') (task_pt_regs t) = (load_pt_regs (mem s) (task_pt_regs t))\<lparr>pt_sp := 2 * PAGE_SIZE,
      pt_pc := user_pc, pstate := PSR_MODE_EL0t\<rparr> \<and>
    (\<forall>p' \<in> used_pages_of s. p' \<noteq> q \<and> p' \<notin> ran tab \<longrightarrow>
      (\<forall>y < 4096. mem s' (p' + VA_START + y) = mem s (p' + VA_START + y)))"
  using user_mode_run_full [OF assms, of user_pc]
  by (elim exE conjE) (intro exI conjI; assumption)

text \<open>
  C11. \<open>move_to_user_mode\<close> in lesson 6, for a kernel thread whose page tables have room, with 5
  free pages and a program of at most one page in the kernel's image: the answer is 0. A page
  that was free holds the program, followed by zeros, and is found by the MMU at address 0,
  with the task's page tables active and its other mappings kept. The frame will return to
  user mode at \<open>user_pc\<close> with the stack pointer at 0x2000, the rest of the registers as they
  were. Pages in use that are neither the task's own nor its tables do not change.
\<close>

theorem move_to_user_mode_spec:
  assumes "task_page s tab q t" and "addr_space s t tab A" and "t = current s"
    and "5 \<le> card (all_pages - used_pages_of s)"
    and "unat (kernel_pages_count (mm (load_task (mem s) t))) < 12"
    and "unat (user_pages_count (mm (load_task (mem s) t))) < 16"
    and "page_aligned b" and "b < LOW_MEMORY" and "rounds n \<le> 512"
  shows "\<exists>p s' tab'. move_to_user_mode (b + VA_START) n user_pc s = Inr (0, s') \<and>
    p \<in> all_pages - used_pages_of s \<and> addr_space s' t tab' (A(vpn 0 \<mapsto> p)) \<and>
    mem s' (t + off_pgd) \<noteq> 0 \<and> ttbr0_el1 (cpu s') = mem s' (t + off_pgd) \<and>
    (\<forall>y < 4096. user_walk (mem s') (ttbr0_el1 (cpu s')) y = Some (p + y)) \<and>
    (\<forall>j < 512. mem s' (p + VA_START + 8 * word_of_nat j) =
      (if j < rounds n then mem s (b + VA_START + 8 * word_of_nat j) else 0)) \<and>
    load_pt_regs (mem s') (task_pt_regs t) = (load_pt_regs (mem s) (task_pt_regs t))\<lparr>pt_sp := 2 * PAGE_SIZE,
      pt_pc := user_pc, pstate := PSR_MODE_EL0t\<rparr> \<and>
    (\<forall>p' \<in> used_pages_of s. p' \<noteq> q \<and> p' \<notin> ran tab \<longrightarrow>
      (\<forall>y < 4096. mem s' (p' + VA_START + y) = mem s (p' + VA_START + y)))"
  using user_mode_run [OF assms, of user_pc] by blast

theorem move_to_user_mode_spec_witness:
  "\<exists>s'. move_to_user_mode (0x1000 + VA_START) 512 0x40 two_tasks = Inr (0, s') \<and>
    pt_pc (load_pt_regs (mem s') (task_pt_regs (page_at 0 + VA_START))) = 0x40 \<and>
    (\<exists>p \<in> all_pages. user_walk (mem s') (ttbr0_el1 (cpu s')) 8 = Some (p + 8))"
proof -
  have free: "5 \<le> card (all_pages - used_pages_of two_tasks)" using two_tasks_free by simp
  have b: "page_aligned 0x1000" "0x1000 < LOW_MEMORY" "rounds 512 \<le> 512"
    by (simp_all add: page_aligned_def map_values rounds_def)
  from move_to_user_mode_spec [OF two_tasks_tasks(1) two_tasks_space two_tasks_current(1) [symmetric] free
      two_tasks_counts b, of "0x40"]
  obtain p s' where "move_to_user_mode (0x1000 + VA_START) 512 0x40 two_tasks = Inr (0, s')" "p \<in> all_pages"
    "\<forall>y < 4096. user_walk (mem s') (ttbr0_el1 (cpu s')) y = Some (p + y)"
    "load_pt_regs (mem s') (task_pt_regs (page_at 0 + VA_START)) =
      (load_pt_regs (mem two_tasks) (task_pt_regs (page_at 0 + VA_START)))\<lparr>pt_sp := 2 * PAGE_SIZE,
      pt_pc := 0x40, pstate := PSR_MODE_EL0t\<rparr>"
    by blast
  then show ?thesis by (intro exI [of _ s']) auto
qed

end
