(* ===== verification/Timer_Irq.thy ===== *)
theory Timer_Irq
  imports Fork_Lessons
begin

text \<open>
  Interrupts: the registers of the interrupt controller and the system timer
  (\<open>peripherals/irq.h\<close>, \<open>peripherals/timer.h\<close>), the timer (\<open>timer.c\<close>) and the interrupt
  handlers (\<open>irq.c\<close>) of lessons 3 to 6. The register addresses take the peripheral base as
  an argument, as in \<open>Mini_Uart\<close>; \<open>timer.c\<close> differs between the lessons only in what a
  timer interrupt does at the end, and \<open>irq.c\<close> only in the number of error messages.
\<close>

unbundle bit_operations_syntax

section \<open>Registers\<close>

definition IRQ_BASIC_PENDING :: "addr \<Rightarrow> addr" where "IRQ_BASIC_PENDING pb = pb + 0x0000B200"
definition IRQ_PENDING_1 :: "addr \<Rightarrow> addr" where "IRQ_PENDING_1 pb = pb + 0x0000B204"
definition IRQ_PENDING_2 :: "addr \<Rightarrow> addr" where "IRQ_PENDING_2 pb = pb + 0x0000B208"
definition FIQ_CONTROL :: "addr \<Rightarrow> addr" where "FIQ_CONTROL pb = pb + 0x0000B20C"
definition ENABLE_IRQS_1 :: "addr \<Rightarrow> addr" where "ENABLE_IRQS_1 pb = pb + 0x0000B210"
definition ENABLE_IRQS_2 :: "addr \<Rightarrow> addr" where "ENABLE_IRQS_2 pb = pb + 0x0000B214"
definition ENABLE_BASIC_IRQS :: "addr \<Rightarrow> addr" where "ENABLE_BASIC_IRQS pb = pb + 0x0000B218"
definition DISABLE_IRQS_1 :: "addr \<Rightarrow> addr" where "DISABLE_IRQS_1 pb = pb + 0x0000B21C"
definition DISABLE_IRQS_2 :: "addr \<Rightarrow> addr" where "DISABLE_IRQS_2 pb = pb + 0x0000B220"
definition DISABLE_BASIC_IRQS :: "addr \<Rightarrow> addr" where "DISABLE_BASIC_IRQS pb = pb + 0x0000B224"

definition SYSTEM_TIMER_IRQ_0 :: u32 where "SYSTEM_TIMER_IRQ_0 = push_bit 0 1"
definition SYSTEM_TIMER_IRQ_1 :: u32 where "SYSTEM_TIMER_IRQ_1 = push_bit 1 1"
definition SYSTEM_TIMER_IRQ_2 :: u32 where "SYSTEM_TIMER_IRQ_2 = push_bit 2 1"
definition SYSTEM_TIMER_IRQ_3 :: u32 where "SYSTEM_TIMER_IRQ_3 = push_bit 3 1"

definition TIMER_CS :: "addr \<Rightarrow> addr" where "TIMER_CS pb = pb + 0x00003000"
definition TIMER_CLO :: "addr \<Rightarrow> addr" where "TIMER_CLO pb = pb + 0x00003004"
definition TIMER_CHI :: "addr \<Rightarrow> addr" where "TIMER_CHI pb = pb + 0x00003008"
definition TIMER_C0 :: "addr \<Rightarrow> addr" where "TIMER_C0 pb = pb + 0x0000300C"
definition TIMER_C1 :: "addr \<Rightarrow> addr" where "TIMER_C1 pb = pb + 0x00003010"
definition TIMER_C2 :: "addr \<Rightarrow> addr" where "TIMER_C2 pb = pb + 0x00003014"
definition TIMER_C3 :: "addr \<Rightarrow> addr" where "TIMER_C3 pb = pb + 0x00003018"

definition TIMER_CS_M0 :: u32 where "TIMER_CS_M0 = push_bit 0 1"
definition TIMER_CS_M1 :: u32 where "TIMER_CS_M1 = push_bit 1 1"
definition TIMER_CS_M2 :: u32 where "TIMER_CS_M2 = push_bit 2 1"
definition TIMER_CS_M3 :: u32 where "TIMER_CS_M3 = push_bit 3 1"

lemmas irq_registers = IRQ_BASIC_PENDING_def IRQ_PENDING_1_def IRQ_PENDING_2_def FIQ_CONTROL_def
  ENABLE_IRQS_1_def ENABLE_IRQS_2_def ENABLE_BASIC_IRQS_def DISABLE_IRQS_1_def DISABLE_IRQS_2_def
  DISABLE_BASIC_IRQS_def TIMER_CS_def TIMER_CLO_def TIMER_CHI_def TIMER_C0_def TIMER_C1_def
  TIMER_C2_def TIMER_C3_def

section \<open>printf in the kernel\<close>

text \<open>What \<open>init_printf(0, putc)\<close> sets; before it no character can be printed.\<close>

definition console :: "addr \<Rightarrow> world printf_state" where
  "console pb = init_printf (putc pb) \<lparr>stdout_putf = (\<lambda>c w. None)\<rparr>"

definition kernel_printf :: "addr \<Rightarrow> char list \<Rightarrow> va list \<Rightarrow> kernel \<Rightarrow> kernel option" where
  "kernel_printf pb fmt va s =
     map_option (\<lambda>w. s\<lparr>dev := w\<rparr>) (tfp_printf (console pb) (c_string fmt []) va (dev s))"

definition crlf :: "char list" where "crlf = [CHR 0x0D, CHR 0x0A]"

section \<open>The timer\<close>

definition interval :: u32 where "interval = 200000"

definition timer_init :: "addr \<Rightarrow> kernel \<Rightarrow> kernel" where
  "timer_init pb s =
     (case get32 (TIMER_CLO pb) (dev s) of (v, w) \<Rightarrow>
        let s = s\<lparr>curVal := v, dev := w\<rparr>; s = s\<lparr>curVal := curVal s + interval\<rparr>
        in s\<lparr>dev := put32 (TIMER_C1 pb) (curVal s) (dev s)\<rparr>)"

text \<open>\<open>handle_timer_irq\<close> up to its last line, which differs.\<close>

definition timer_rearm :: "addr \<Rightarrow> kernel \<Rightarrow> kernel" where
  "timer_rearm pb s =
     (let s = s\<lparr>curVal := curVal s + interval\<rparr>;
          s = s\<lparr>dev := put32 (TIMER_C1 pb) (curVal s) (dev s)\<rparr>
      in s\<lparr>dev := put32 (TIMER_CS pb) TIMER_CS_M1 (dev s)\<rparr>)"

definition handle_timer_irq :: "addr \<Rightarrow> kernel \<Rightarrow> kernel option" where
  "handle_timer_irq pb s = timer_tick (timer_rearm pb s)"

definition handle_timer_irq_l5 :: "addr \<Rightarrow> kernel \<Rightarrow> kernel option" where
  "handle_timer_irq_l5 pb s = timer_tick_l5 (timer_rearm pb s)"

definition handle_timer_irq_l4 :: "addr \<Rightarrow> kernel \<Rightarrow> kernel option" where
  "handle_timer_irq_l4 pb s = timer_tick_l4 (timer_rearm pb s)"

definition handle_timer_irq_l3 :: "addr \<Rightarrow> kernel \<Rightarrow> kernel option" where
  "handle_timer_irq_l3 pb s = kernel_printf pb (''Timer interrupt received'' @ crlf) [] (timer_rearm pb s)"

section \<open>The handlers of irq.c\<close>

definition entry_error_messages :: "char list list" where
  "entry_error_messages =
     [''SYNC_INVALID_EL1t'', ''IRQ_INVALID_EL1t'', ''FIQ_INVALID_EL1t'', ''ERROR_INVALID_EL1T'',
      ''SYNC_INVALID_EL1h'', ''IRQ_INVALID_EL1h'', ''FIQ_INVALID_EL1h'', ''ERROR_INVALID_EL1h'',
      ''SYNC_INVALID_EL0_64'', ''IRQ_INVALID_EL0_64'', ''FIQ_INVALID_EL0_64'', ''ERROR_INVALID_EL0_64'',
      ''SYNC_INVALID_EL0_32'', ''IRQ_INVALID_EL0_32'', ''FIQ_INVALID_EL0_32'', ''ERROR_INVALID_EL0_32'',
      ''SYNC_ERROR'', ''SYSCALL_ERROR'']"

definition entry_error_messages_l4 :: "char list list" where
  "entry_error_messages_l4 =
     [''SYNC_INVALID_EL1t'', ''IRQ_INVALID_EL1t'', ''FIQ_INVALID_EL1t'', ''ERROR_INVALID_EL1T'',
      ''SYNC_INVALID_EL1h'', ''IRQ_INVALID_EL1h'', ''FIQ_INVALID_EL1h'', ''ERROR_INVALID_EL1h'',
      ''SYNC_INVALID_EL0_64'', ''IRQ_INVALID_EL0_64'', ''FIQ_INVALID_EL0_64'', ''ERROR_INVALID_EL0_64'',
      ''SYNC_INVALID_EL0_32'', ''IRQ_INVALID_EL0_32'', ''FIQ_INVALID_EL0_32'', ''ERROR_INVALID_EL0_32'']"

definition enable_interrupt_controller :: "addr \<Rightarrow> kernel \<Rightarrow> kernel" where
  "enable_interrupt_controller pb s = s\<lparr>dev := put32 (ENABLE_IRQS_1 pb) SYSTEM_TIMER_IRQ_1 (dev s)\<rparr>"

text \<open>The index of the message is an \<open>int\<close>; it is not checked.\<close>

definition invalid_entry_message :: "char list list \<Rightarrow> addr \<Rightarrow> int \<Rightarrow> u64 \<Rightarrow> u64 \<Rightarrow> kernel \<Rightarrow> fault + kernel option" where
  "invalid_entry_message msgs pb type esr address s =
     (if 0 \<le> type \<and> nat type < length msgs
      then Inr (kernel_printf pb (''%s, ESR: %x, address: %x'' @ crlf)
        [Chars (c_string (msgs ! nat type) []), Slot esr, Slot address] s)
      else Inl Out_Of_Bounds)"

definition show_invalid_entry_message :: "addr \<Rightarrow> int \<Rightarrow> u64 \<Rightarrow> u64 \<Rightarrow> kernel \<Rightarrow> fault + kernel option" where
  "show_invalid_entry_message = invalid_entry_message entry_error_messages"

definition show_invalid_entry_message_l4 :: "addr \<Rightarrow> int \<Rightarrow> u64 \<Rightarrow> u64 \<Rightarrow> kernel \<Rightarrow> fault + kernel option" where
  "show_invalid_entry_message_l4 = invalid_entry_message entry_error_messages_l4"

text \<open>\<open>handle_irq\<close>, for the timer handler of a lesson. The \<open>switch\<close> is on the whole register.\<close>

definition irq_with :: "(addr \<Rightarrow> kernel \<Rightarrow> kernel option) \<Rightarrow> addr \<Rightarrow> kernel \<Rightarrow> kernel option" where
  "irq_with timer pb s =
     (case get32 (IRQ_PENDING_1 pb) (dev s) of (irq, w) \<Rightarrow>
        let s = s\<lparr>dev := w\<rparr>
        in if irq = SYSTEM_TIMER_IRQ_1 then timer pb s
           else kernel_printf pb (''Unknown pending irq: %x'' @ crlf) [Slot (ucast irq)] s)"

definition handle_irq :: "addr \<Rightarrow> kernel \<Rightarrow> kernel option" where
  "handle_irq pb s = irq_with handle_timer_irq pb s"

definition handle_irq_l5 :: "addr \<Rightarrow> kernel \<Rightarrow> kernel option" where
  "handle_irq_l5 pb s = irq_with handle_timer_irq_l5 pb s"

definition handle_irq_l4 :: "addr \<Rightarrow> kernel \<Rightarrow> kernel option" where
  "handle_irq_l4 pb s = irq_with handle_timer_irq_l4 pb s"

definition handle_irq_l3 :: "addr \<Rightarrow> kernel \<Rightarrow> kernel option" where
  "handle_irq_l3 pb s = irq_with handle_timer_irq_l3 pb s"

section \<open>What is printed\<close>

text \<open>Literal text of a format string.\<close>

lemma spelling_literals: "concat (map spelling (map Literal s)) = s"
  by (induction s) simp_all

lemma good_literals: "list_all good_piece (map Literal s) \<longleftrightarrow> NUL \<notin> set s \<and> CHR ''%'' \<notin> set s"
  by (induction s) auto

lemma format_literals: "format_text (map Literal s @ ps) va = map_option ((@) s) (format_text ps va)"
  by (induction s) (simp_all add: option.map_comp o_def option.map_ident)

lemma kernel_printf_text:
  assumes "line_ready pb 0x20 (dev s)" and "list_all good_piece ps" and "format_text ps va = Some t"
    and "fmt = concat (map spelling ps)"
  shows "\<exists>w. kernel_printf pb fmt va s = Some (s\<lparr>dev := w\<rparr>) \<and> sent pb w = sent pb (dev s) @ t \<and> line_ready pb 0x20 w"
proof -
  have "stdout_putf (console pb) = putc pb" by (simp add: console_def init_printf_def)
  from printf_uart_run [OF assms(1-3) this, of "[]"] show ?thesis
    by (auto simp: kernel_printf_def assms(4))
qed

section \<open>The timer and the scheduler\<close>

text \<open>Repeated interrupts of one handler.\<close>

fun irqs :: "(kernel \<Rightarrow> kernel option) \<Rightarrow> nat \<Rightarrow> kernel \<Rightarrow> kernel option" where
  "irqs h 0 s = Some s"
| "irqs h (Suc n) s = Option.bind (h s) (irqs h n)"

text \<open>The scheduler does not look at the devices or at the variables of \<open>timer.c\<close>.\<close>

lemma sched_inv_timer [simp]: "sched_inv (s\<lparr>dev := w\<rparr>) \<longleftrightarrow> sched_inv s" "sched_inv (s\<lparr>curVal := v\<rparr>) \<longleftrightarrow> sched_inv s"
  by (simp_all add: sched_inv_def waiting_def sched_state_def preempt_def get_field_def)

lemma rearm_inv [simp]: "sched_inv (timer_rearm pb s) \<longleftrightarrow> sched_inv s"
  by (simp add: timer_rearm_def Let_def)

lemma set_field_timer [simp]: "dev (set_field off p v s) = dev s" "curVal (set_field off p v s) = curVal s"
  by (simp_all add: set_field_def)

lemma irq_mask_timer [simp]: "dev (enable_irq s) = dev s" "curVal (enable_irq s) = curVal s"
  "dev (disable_irq s) = dev s" "curVal (disable_irq s) = curVal s"
  "dev (tick_end p s) = dev s" "curVal (tick_end p s) = curVal s"
  by (simp_all add: enable_irq_def disable_irq_def tick_end_def)

lemma preempt_timer [simp]: "dev (preempt_disable s) = dev s" "curVal (preempt_disable s) = curVal s"
  "dev (preempt_enable s) = dev s" "curVal (preempt_enable s) = curVal s"
  by (simp_all add: preempt_disable_def preempt_enable_def)

lemma switch_timer [simp]: "dev (cpu_switch_to p q s) = dev s" "curVal (cpu_switch_to p q s) = curVal s"
  "dev (set_pgd v s) = dev s" "curVal (set_pgd v s) = curVal s"
  by (simp_all add: cpu_switch_to_def set_pgd_def Let_def)

lemma schedule_with_timer:
  assumes "schedule_with sw s = Some t" and "\<And>p i s. dev (sw p i s) = dev s" "\<And>p i s. curVal (sw p i s) = curVal s"
  shows "dev t = dev s \<and> curVal t = curVal s"
  using assms by (auto simp: schedule_with_def Let_def)

locale timer_driver = scheduler +
  assumes sched_devices: "sched s = Some t \<Longrightarrow> dev t = dev s \<and> curVal t = curVal s"
begin

lemma tick_devices: "tick_with sched s = Some t \<Longrightarrow> dev t = dev s \<and> curVal t = curVal s"
  using sched_devices by (fastforce simp: tick_with_def Let_def split: if_splits)

text \<open>One interrupt: the next one is set and the pending one acknowledged, then the tick.\<close>

lemma timer_irq:
  assumes "sched_inv s"
  obtains t where "tick_with sched (timer_rearm pb s) = Some t" "sched_inv t" "task t = task s"
    "running t = running s" "curVal t = curVal s + interval"
    "dev t = put32 (TIMER_CS pb) TIMER_CS_M1 (put32 (TIMER_C1 pb) (curVal s + interval) (dev s))"
proof -
  obtain t where t: "tick_with sched (timer_rearm pb s) = Some t" "sched_inv t" "task t = task (timer_rearm pb s)"
      "running t = running (timer_rearm pb s)"
    using step_inv [of "timer_rearm pb s" Tick] assms by auto
  show thesis
    using t tick_devices [OF t(1)]
    by (intro that [OF t(1,2)]) (simp_all add: timer_rearm_def Let_def running_def)
qed

lemma timer_irqs:
  assumes "sched_inv s" and "\<And>s. h s = tick_with sched (timer_rearm pb s)"
  shows "\<exists>t. irqs h n s = Some t \<and> sched_inv t \<and> task t = task s \<and> running t = running s \<and>
    curVal t = curVal s + word_of_nat n * interval \<and>
    w_log (dev t) = w_log (dev s) @ concat (map (\<lambda>k. [Wr (TIMER_C1 pb) (curVal s + word_of_nat (Suc k) * interval),
      Wr (TIMER_CS pb) TIMER_CS_M1]) [0..<n])"
  using assms(1)
proof (induction n arbitrary: s)
  case (Suc n)
  obtain t where t: "h s = Some t" "sched_inv t" "task t = task s" "running t = running s"
    "curVal t = curVal s + interval"
    "dev t = put32 (TIMER_CS pb) TIMER_CS_M1 (put32 (TIMER_C1 pb) (curVal s + interval) (dev s))"
    using timer_irq [OF Suc.prems, of pb] assms(2) by metis
  obtain u where u: "irqs h n t = Some u" "sched_inv u" "task u = task t" "running u = running t"
    "curVal u = curVal t + word_of_nat n * interval"
    "w_log (dev u) = w_log (dev t) @ concat (map (\<lambda>k. [Wr (TIMER_C1 pb) (curVal t + word_of_nat (Suc k) * interval),
      Wr (TIMER_CS pb) TIMER_CS_M1]) [0..<n])"
    using Suc.IH [OF t(2)] by blast
  have "[0..<Suc n] = 0 # map Suc [0..<n]" by (simp add: map_Suc_upt upt_conv_Cons)
  then show ?case
    using t u by (intro exI [of _ u]) (simp add: o_def algebra_simps)
qed simp

end

lemma schedules_devices:
  "do_schedule s = Some t \<Longrightarrow> dev t = dev s \<and> curVal t = curVal s"
  "do_schedule_l5 s = Some t \<Longrightarrow> dev t = dev s \<and> curVal t = curVal s"
  "do_schedule_l4 s = Some t \<Longrightarrow> dev t = dev s \<and> curVal t = curVal s"
  unfolding do_schedule_def do_schedule_l5_def do_schedule_l4_def
  by (erule schedule_with_timer; simp add: switch_to_def switch_to_l5_def switch_to_l4_def Let_def)+

interpretation timer_l6: timer_driver do_schedule
  by unfold_locales (rule schedules_devices)

interpretation timer_l5: timer_driver do_schedule_l5
  by unfold_locales (rule schedules_devices)

interpretation timer_l4: timer_driver do_schedule_l4
  by unfold_locales (rule schedules_devices)

section \<open>Properties\<close>

lemma boot_inv: "sched_inv boot_kernel"
  using boot_create(3) by (simp add: can_create_def)

text \<open>
  C22. The timer is periodic. From any state that satisfies the scheduler's invariant,
  \<open>timer_init\<close> followed by any number of timer interrupts returns, in lessons 4, 5 and 6, with
  the invariant and the set of running tasks kept; the values written to the compare register
  are the start value plus 1, 2, 3, \<dots> intervals modulo 2^32, whatever the latency of the
  interrupts, and each is followed by the acknowledgement.
\<close>

theorem timer_period:
  assumes "sched_inv s" and "v = w_reply (dev s) (w_time (dev s)) (TIMER_CLO pb)"
    and "h \<in> {handle_timer_irq pb, handle_timer_irq_l5 pb, handle_timer_irq_l4 pb}"
  shows "\<exists>t. irqs h n (timer_init pb s) = Some t \<and> sched_inv t \<and> running t = running s \<and>
    curVal t = v + word_of_nat (Suc n) * interval \<and>
    w_log (dev t) = w_log (dev s) @ [Rd (TIMER_CLO pb) v, Wr (TIMER_C1 pb) (v + interval)] @
      concat (map (\<lambda>k. [Wr (TIMER_C1 pb) (v + word_of_nat (k + 2) * interval), Wr (TIMER_CS pb) TIMER_CS_M1]) [0..<n])"
proof -
  let ?s = "timer_init pb s"
  have i: "sched_inv ?s" "running ?s = running s" "curVal ?s = v + interval"
    "w_log (dev ?s) = w_log (dev s) @ [Rd (TIMER_CLO pb) v, Wr (TIMER_C1 pb) (v + interval)]"
    using assms(1,2) by (simp_all add: timer_init_def Let_def split_beta running_def)
  have "\<exists>t. irqs h n ?s = Some t \<and> sched_inv t \<and> task t = task ?s \<and> running t = running ?s \<and>
    curVal t = curVal ?s + word_of_nat n * interval \<and>
    w_log (dev t) = w_log (dev ?s) @ concat (map (\<lambda>k. [Wr (TIMER_C1 pb) (curVal ?s + word_of_nat (Suc k) * interval),
      Wr (TIMER_CS pb) TIMER_CS_M1]) [0..<n])"
    using assms(3) timer_l6.timer_irqs [OF i(1), of h pb n] timer_l5.timer_irqs [OF i(1), of h pb n]
      timer_l4.timer_irqs [OF i(1), of h pb n]
    by (auto simp: handle_timer_irq_def handle_timer_irq_l5_def handle_timer_irq_l4_def timer_tick_def
        timer_tick_l5_def timer_tick_l4_def)
  then show ?thesis by (simp add: i algebra_simps) (metis i(2))
qed

theorem timer_period_witness:
  "\<exists>t. irqs (handle_timer_irq PBASE) 2 (timer_init PBASE boot_kernel) = Some t \<and> sched_inv t \<and>
    curVal t = 0x21 + 3 * interval"
proof -
  have "w_reply (dev boot_kernel) (w_time (dev boot_kernel)) (TIMER_CLO PBASE) = 0x21"
    by (simp add: boot_kernel_def initial_kernel_def always_ready_def)
  from timer_period [OF boot_inv this [symmetric], of "handle_timer_irq PBASE" 2]
  show ?thesis by auto
qed



text \<open>
  What an invalid exception prints. For a type within the messages of lessons 5 and 6, the
  message with that index, the low 32 bits of the syndrome and the low 32 bits of the address
  in hexadecimal; any other type reads past the end of the array.
\<close>

lemma invalid_entry_message_run:
  assumes "line_ready pb 0x20 (dev s)"
  shows "if 0 \<le> type \<and> type < 18
    then \<exists>w. show_invalid_entry_message pb type esr address s = Inr (Some (s\<lparr>dev := w\<rparr>)) \<and>
      sent pb w = sent pb (dev s) @ entry_error_messages ! nat type @ '', ESR: '' @
        unsigned_text 16 False (ucast esr) @ '', address: '' @ unsigned_text 16 False (ucast address) @ crlf
    else show_invalid_entry_message pb type esr address s = Inl Out_Of_Bounds"
proof (cases "0 \<le> type \<and> type < 18")
  case True
  let ?m = "entry_error_messages ! nat type"
  let ?ps = "[Conversion False 0 CHR ''s''] @ map Literal '', ESR: '' @ [Conversion False 0 CHR ''x''] @
    map Literal '', address: '' @ [Conversion False 0 CHR ''x''] @ map Literal crlf"
  let ?va = "[Chars (c_string ?m []), Slot esr, Slot address]"
  have len: "length entry_error_messages = 18" by (simp add: entry_error_messages_def)
  then have "?m \<in> set entry_error_messages" using True by (intro nth_mem) (simp add: nat_less_iff)
  then have m: "NUL \<notin> set ?m" by (auto simp: entry_error_messages_def)
  then have tw: "takeWhile (\<lambda>c. c \<noteq> NUL) (c_string ?m []) = ?m" "NUL \<in> set (c_string ?m [])"
    unfolding c_string_def by (subst takeWhile_append2, auto)
  have good: "list_all good_piece ?ps" by (simp add: crlf_def)
  have out: "format_text ?ps ?va = Some (?m @ '', ESR: '' @
      unsigned_text 16 False (ucast esr) @ '', address: '' @ unsigned_text 16 False (ucast address) @ crlf)"
    by (simp add: crlf_def padded_def tw)
  have spell: "''%s, ESR: %x, address: %x'' @ crlf = concat (map spelling ?ps)" by (simp add: crlf_def)
  obtain w where "kernel_printf pb (''%s, ESR: %x, address: %x'' @ crlf) ?va s = Some (s\<lparr>dev := w\<rparr>)"
      "sent pb w = sent pb (dev s) @ ?m @ '', ESR: '' @
        unsigned_text 16 False (ucast esr) @ '', address: '' @ unsigned_text 16 False (ucast address) @ crlf"
    using kernel_printf_text [OF assms good out spell] by blast
  moreover have "show_invalid_entry_message pb type esr address s =
      Inr (kernel_printf pb (''%s, ESR: %x, address: %x'' @ crlf) ?va s)"
    using True len by (simp add: show_invalid_entry_message_def invalid_entry_message_def nat_less_iff)
  ultimately show ?thesis unfolding if_P [OF True] by (intro exI [of _ w]) simp
next
  case False
  moreover have "nat type < 18 \<longleftrightarrow> type < 18" if "0 \<le> type" using that by (simp add: nat_less_iff)
  ultimately show ?thesis
    by (auto simp: show_invalid_entry_message_def invalid_entry_message_def entry_error_messages_def)
qed

end
