(* ===== verification/Syscalls.thy ===== *)
theory Syscalls
  imports Fork_Mode Timer_Irq
begin

text \<open>
  The system calls of lessons 5 and 6 (\<open>sys.c\<close>, \<open>sys.h\<close>). They run in the kernel, on the
  stack of the calling task; their arguments come from the registers the user set.

  A call need not come back to its caller: \<open>outcome\<close> says how it ends. \<open>Switched\<close> is a call
  in which the processor has gone over to another task; \<open>Hangs\<close> the endless loop
  \<open>err_hang\<close>; \<open>No_Result\<close> a call that never ends or has no defined result.
\<close>

unbundle bit_operations_syntax

datatype 'a outcome = Returns 'a | Switched kernel | Hangs kernel | Faults fault | No_Result

section \<open>User memory\<close>

text \<open>The byte at an address, in the doubleword that holds it (little endian).\<close>

definition byte_at :: "memory \<Rightarrow> addr \<Rightarrow> char" where
  "byte_at m a = char_of (unat (drop_bit (8 * unat (a AND 7)) (m (a AND NOT 7)) AND 0xFF))"

text \<open>The characters of a C string, with its terminator; \<open>rd\<close> reads one byte.\<close>

partial_function (option) read_string :: "(addr \<Rightarrow> fault + char) \<Rightarrow> addr \<Rightarrow> (fault + char list) option" where
  "read_string rd a =
     (case rd a of
        Inl f \<Rightarrow> Some (Inl f)
      | Inr c \<Rightarrow> if c = NUL then Some (Inr [NUL])
          else Option.bind (read_string rd (a + 1)) (\<lambda>r. Some (res_bind r (\<lambda>cs. Inr (c # cs)))))"

text \<open>The kernel reads through the MMU in lesson 6, and has no MMU in lesson 5.\<close>

definition read_byte :: "kernel \<Rightarrow> addr \<Rightarrow> fault + char" where
  "read_byte s a = res_bind (mmu_translate (ttbr0_el1 (cpu s)) (mem s) a) (\<lambda>p. Inr (byte_at (mem s) p))"

definition read_byte_l5 :: "kernel \<Rightarrow> addr \<Rightarrow> fault + char" where
  "read_byte_l5 s a = Inr (byte_at (mem s) a)"

section \<open>The functions of sys.c\<close>

text \<open>\<open>printf(buf)\<close>: the buffer is the format string, and there are no further arguments.\<close>

definition write_with :: "(kernel \<Rightarrow> addr \<Rightarrow> fault + char) \<Rightarrow> addr \<Rightarrow> addr \<Rightarrow> kernel \<Rightarrow> kernel outcome" where
  "write_with rd pb buf s =
     (case read_string (rd s) buf of
        None \<Rightarrow> No_Result
      | Some (Inl f) \<Rightarrow> Faults f
      | Some (Inr fmt) \<Rightarrow>
          (case tfp_printf (console pb) fmt [] (dev s) of
             None \<Rightarrow> No_Result
           | Some w \<Rightarrow> Returns (s\<lparr>dev := w\<rparr>)))"

definition sys_write :: "addr \<Rightarrow> addr \<Rightarrow> kernel \<Rightarrow> kernel outcome" where
  "sys_write pb buf s = write_with read_byte pb buf s"

definition sys_write_l5 :: "addr \<Rightarrow> addr \<Rightarrow> kernel \<Rightarrow> kernel outcome" where
  "sys_write_l5 pb buf s = write_with read_byte_l5 pb buf s"

definition created :: "fault + int \<times> kernel \<Rightarrow> (int \<times> kernel) outcome" where
  "created r = (case r of Inl f \<Rightarrow> Faults f | Inr x \<Rightarrow> Returns x)"

definition sys_fork :: "image \<Rightarrow> kernel \<Rightarrow> (int \<times> kernel) outcome" where
  "sys_fork im s = created (copy_process im 0 0 0 s)"

definition sys_clone :: "image \<Rightarrow> addr \<Rightarrow> kernel \<Rightarrow> (int \<times> kernel) outcome" where
  "sys_clone im stack s = created (copy_process_l5 im 0 0 0 stack s)"

definition sys_malloc :: "kernel \<Rightarrow> u64 \<times> kernel" where
  "sys_malloc s =
     (case get_free_page_l5 s of (a, s) \<Rightarrow> if a = 0 then (-1, s) else (a, s))"

text \<open>The exit of the last running task would come back.\<close>

definition exited :: "kernel \<Rightarrow> kernel option \<Rightarrow> kernel outcome" where
  "exited s r = (case r of None \<Rightarrow> No_Result
     | Some t \<Rightarrow> if current t = current s then Returns t else Switched t)"

definition sys_exit :: "kernel \<Rightarrow> kernel outcome" where
  "sys_exit s = exited s (exit_process s)"

definition sys_exit_l5 :: "kernel \<Rightarrow> kernel outcome" where
  "sys_exit_l5 s = (case exit_process_l5 s of Inl f \<Rightarrow> Faults f | Inr r \<Rightarrow> exited s r)"

section \<open>The system call tables\<close>

datatype syscall = Write | Malloc | Clone | Fork | Exit

definition sys_call_table :: "syscall list" where
  "sys_call_table = [Write, Fork, Exit]"

definition sys_call_table_l5 :: "syscall list" where
  "sys_call_table_l5 = [Write, Malloc, Clone, Exit]"

definition NR_syscalls :: u64 where "NR_syscalls = 3"
definition NR_syscalls_l5 :: u64 where "NR_syscalls_l5 = 4"

text \<open>The numbers the user side uses.\<close>

definition SYS_WRITE_NUMBER :: u64 where "SYS_WRITE_NUMBER = 0"
definition SYS_MALLOC_NUMBER :: u64 where "SYS_MALLOC_NUMBER = 1"
definition SYS_CLONE_NUMBER :: u64 where "SYS_CLONE_NUMBER = 2"
definition SYS_EXIT_NUMBER :: u64 where "SYS_EXIT_NUMBER = 3"

definition SYS_FORK_NUMBER_l6 :: u64 where "SYS_FORK_NUMBER_l6 = 1"
definition SYS_EXIT_NUMBER_l6 :: u64 where "SYS_EXIT_NUMBER_l6 = 2"

text \<open>
  The call through the table (\<open>blr x16\<close>): the argument is in \<open>x0\<close>, the result in \<open>x0\<close>. An
  \<open>int\<close> result is sign extended (the procedure call standard leaves the upper half of \<open>x0\<close>
  open; the user programs read the lower); a \<open>void\<close> function leaves \<open>x0\<close> as it is.
\<close>

definition set_x :: "nat \<Rightarrow> u64 \<Rightarrow> kernel \<Rightarrow> kernel" where
  "set_x i v s = s\<lparr>cpu := (cpu s)\<lparr>gpr := (gpr (cpu s))(i := v)\<rparr>\<rparr>"

definition int_result :: "(int \<times> kernel) outcome \<Rightarrow> kernel outcome" where
  "int_result r = (case r of Returns (n, s) \<Rightarrow> Returns (set_x 0 (word_of_int n) s)
     | Switched s \<Rightarrow> Switched s | Hangs s \<Rightarrow> Hangs s | Faults f \<Rightarrow> Faults f | No_Result \<Rightarrow> No_Result)"

fun call_syscall :: "image \<Rightarrow> addr \<Rightarrow> syscall \<Rightarrow> kernel \<Rightarrow> kernel outcome" where
  "call_syscall im pb Write s = sys_write pb (gpr (cpu s) 0) s"
| "call_syscall im pb Fork s = int_result (sys_fork im s)"
| "call_syscall im pb Exit s = sys_exit s"
| "call_syscall im pb Malloc s = No_Result"
| "call_syscall im pb Clone s = No_Result"

fun call_syscall_l5 :: "image \<Rightarrow> addr \<Rightarrow> syscall \<Rightarrow> kernel \<Rightarrow> kernel outcome" where
  "call_syscall_l5 im pb Write s = sys_write_l5 pb (gpr (cpu s) 0) s"
| "call_syscall_l5 im pb Malloc s = (case sys_malloc s of (a, s) \<Rightarrow> Returns (set_x 0 a s))"
| "call_syscall_l5 im pb Clone s = int_result (sys_clone im (gpr (cpu s) 0) s)"
| "call_syscall_l5 im pb Exit s = sys_exit_l5 s"
| "call_syscall_l5 im pb Fork s = No_Result"

end
