(* ===== verification/Entry.thy ===== *)
theory Entry
  imports Syscalls
begin

text \<open>
  Exceptions (\<open>entry.S\<close>, \<open>entry.h\<close>): the vector table, the saving and restoring of registers,
  and the handlers of interrupts, system calls and data aborts, for lessons 3 to 6.

  The processor's part: an exception puts the interrupted program counter and processor state
  in \<open>elr_el1\<close> and \<open>spsr_el1\<close> and masks interrupts (\<open>take_exception\<close>); \<open>eret\<close>, the end of
  \<open>kernel_exit\<close>, goes on at \<open>elr_el1\<close> in the state \<open>spsr_el1\<close>. The functions in C are modelled
  without their own stack frames, so \<open>sp_el1\<close> is the same before and after a call; what
  they do to the other registers does not matter, as \<open>kernel_exit\<close> loads them all.
\<close>

unbundle bit_operations_syntax

section \<open>The header\<close>

datatype vector_source = EL1t | EL1h | EL0_64 | EL0_32
datatype exception = Sync | Irq | Fiq | Error
datatype entry = Invalid exception vector_source | Sync_Error | Syscall_Error | Data_Abort_Error

definition S_FRAME_SIZE :: u64 where "S_FRAME_SIZE = 272"
definition S_FRAME_SIZE_l4 :: u64 where "S_FRAME_SIZE_l4 = 256"
definition S_X0 :: u64 where "S_X0 = 0"

text \<open>The numbers \<open>entry.h\<close> gives to the errors; \<open>None\<close> for one it does not define.\<close>

fun entry_code :: "entry \<Rightarrow> int option" where
  "entry_code (Invalid Sync EL1t) = Some 0"
| "entry_code (Invalid Irq EL1t) = Some 1"
| "entry_code (Invalid Fiq EL1t) = Some 2"
| "entry_code (Invalid Error EL1t) = Some 3"
| "entry_code (Invalid Sync EL1h) = Some 4"
| "entry_code (Invalid Fiq EL1h) = Some 5"
| "entry_code (Invalid Error EL1h) = Some 6"
| "entry_code (Invalid Fiq EL0_64) = Some 7"
| "entry_code (Invalid Error EL0_64) = Some 8"
| "entry_code (Invalid Sync EL0_32) = Some 9"
| "entry_code (Invalid Irq EL0_32) = Some 10"
| "entry_code (Invalid Fiq EL0_32) = Some 11"
| "entry_code (Invalid Error EL0_32) = Some 12"
| "entry_code Sync_Error = Some 13"
| "entry_code Syscall_Error = Some 14"
| "entry_code Data_Abort_Error = Some 15"
| "entry_code (Invalid Irq EL1h) = None"
| "entry_code (Invalid Sync EL0_64) = None"
| "entry_code (Invalid Irq EL0_64) = None"

fun entry_code_l4 :: "entry \<Rightarrow> int option" where
  "entry_code_l4 (Invalid Sync EL1t) = Some 0"
| "entry_code_l4 (Invalid Irq EL1t) = Some 1"
| "entry_code_l4 (Invalid Fiq EL1t) = Some 2"
| "entry_code_l4 (Invalid Error EL1t) = Some 3"
| "entry_code_l4 (Invalid Sync EL1h) = Some 4"
| "entry_code_l4 (Invalid Irq EL1h) = Some 5"
| "entry_code_l4 (Invalid Fiq EL1h) = Some 6"
| "entry_code_l4 (Invalid Error EL1h) = Some 7"
| "entry_code_l4 (Invalid Sync EL0_64) = Some 8"
| "entry_code_l4 (Invalid Irq EL0_64) = Some 9"
| "entry_code_l4 (Invalid Fiq EL0_64) = Some 10"
| "entry_code_l4 (Invalid Error EL0_64) = Some 11"
| "entry_code_l4 (Invalid Sync EL0_32) = Some 12"
| "entry_code_l4 (Invalid Irq EL0_32) = Some 13"
| "entry_code_l4 (Invalid Fiq EL0_32) = Some 14"
| "entry_code_l4 (Invalid Error EL0_32) = Some 15"
| "entry_code_l4 Sync_Error = None"
| "entry_code_l4 Syscall_Error = None"
| "entry_code_l4 Data_Abort_Error = None"

text \<open>Lesson 5 adds two errors to the numbers of lessons 3 and 4.\<close>

fun entry_code_l5 :: "entry \<Rightarrow> int option" where
  "entry_code_l5 Sync_Error = Some 16"
| "entry_code_l5 Syscall_Error = Some 17"
| "entry_code_l5 e = entry_code_l4 e"

definition entry_code_l3 :: "entry \<Rightarrow> int option" where "entry_code_l3 = entry_code_l4"

section \<open>The vector table\<close>

datatype handler = Invalid_Entry nat entry | Handle_Irq nat | Handle_Sync

text \<open>What each vector jumps to; the number is the exception level its macro is given.\<close>

definition vectors :: "vector_source \<Rightarrow> exception \<Rightarrow> handler" where
  "vectors src ex =
     (if src = EL1h \<and> ex = Irq then Handle_Irq 1
      else if src = EL0_64 \<and> ex = Irq then Handle_Irq 0
      else if src = EL0_64 \<and> ex = Sync then Handle_Sync
      else Invalid_Entry (if src = EL1t \<or> src = EL1h then 1 else 0) (Invalid ex src))"

definition vectors_l4 :: "vector_source \<Rightarrow> exception \<Rightarrow> handler" where
  "vectors_l4 src ex = (if src = EL1h \<and> ex = Irq then Handle_Irq 1 else Invalid_Entry 1 (Invalid ex src))"

section \<open>Saving and restoring the registers\<close>

definition take_exception :: "addr \<Rightarrow> u64 \<Rightarrow> kernel \<Rightarrow> kernel" where
  "take_exception at pst s =
     s\<lparr>cpu := (cpu s)\<lparr>elr_el1 := at, spsr_el1 := pst, irq_masked := True\<rparr>\<rparr>"

definition kernel_entry :: "nat \<Rightarrow> kernel \<Rightarrow> kernel" where
  "kernel_entry el s =
     (let c = cpu s; fr = sp_el1 c - S_FRAME_SIZE;
          m = store_words fr (map (gpr c) [0..<30]) (mem s);
          r21 = (if el = 0 then sp_el0 c else fr + S_FRAME_SIZE);
          r22 = elr_el1 c; r23 = spsr_el1 c;
          m = store_words (fr + 16 * 15) [gpr c 30, r21] m;
          m = store_words (fr + 16 * 16) [r22, r23] m
      in s\<lparr>mem := m, cpu := c\<lparr>sp_el1 := fr, gpr := (gpr c)(21 := r21, 22 := r22, 23 := r23)\<rparr>\<rparr>)"

text \<open>With the \<open>eret\<close> at its end: bit 7 of the state that is restored masks interrupts.\<close>

definition kernel_exit :: "nat \<Rightarrow> kernel \<Rightarrow> kernel" where
  "kernel_exit el s =
     (let c = cpu s; fr = sp_el1 c; m = mem s;
          r22 = m (fr + 16 * 16); r23 = m (fr + 16 * 16 + 8);
          r30 = m (fr + 16 * 15); r21 = m (fr + 16 * 15 + 8);
          c = (if el = 0 then c\<lparr>sp_el0 := r21\<rparr> else c);
          c = c\<lparr>elr_el1 := r22, spsr_el1 := r23\<rparr>;
          c = c\<lparr>gpr := (\<lambda>i. if i < 30 then m (fr + 8 * word_of_nat i) else if i = 30 then r30 else gpr c i),
                sp_el1 := fr + S_FRAME_SIZE, irq_masked := bit r23 7\<rparr>
      in s\<lparr>cpu := c\<rparr>)"

text \<open>Lesson 4 saves no stack pointer, and \<open>spsr_el1\<close> goes to the place 256 bytes up.\<close>

definition kernel_entry_l4 :: "kernel \<Rightarrow> kernel" where
  "kernel_entry_l4 s =
     (let c = cpu s; fr = sp_el1 c - S_FRAME_SIZE_l4;
          m = store_words fr (map (gpr c) [0..<30]) (mem s);
          r22 = elr_el1 c; r23 = spsr_el1 c;
          m = store_words (fr + 16 * 15) [gpr c 30, r22] m;
          m = m(fr + 16 * 16 := r23)
      in s\<lparr>mem := m, cpu := c\<lparr>sp_el1 := fr, gpr := (gpr c)(22 := r22, 23 := r23)\<rparr>\<rparr>)"

definition kernel_exit_l4 :: "kernel \<Rightarrow> kernel" where
  "kernel_exit_l4 s =
     (let c = cpu s; fr = sp_el1 c; m = mem s;
          r23 = m (fr + 16 * 16); r30 = m (fr + 16 * 15); r22 = m (fr + 16 * 15 + 8);
          c = c\<lparr>elr_el1 := r22, spsr_el1 := r23\<rparr>;
          c = c\<lparr>gpr := (\<lambda>i. if i < 30 then m (fr + 8 * word_of_nat i) else if i = 30 then r30 else gpr c i),
                sp_el1 := fr + S_FRAME_SIZE_l4, irq_masked := bit r23 7\<rparr>
      in s\<lparr>cpu := c\<rparr>)"

text \<open>Lesson 3 leaves \<open>elr_el1\<close> and \<open>spsr_el1\<close> in the registers.\<close>

definition kernel_entry_l3 :: "kernel \<Rightarrow> kernel" where
  "kernel_entry_l3 s =
     (let c = cpu s; fr = sp_el1 c - S_FRAME_SIZE_l4;
          m = store_words fr (map (gpr c) [0..<30]) (mem s);
          m = m(fr + 16 * 15 := gpr c 30)
      in s\<lparr>mem := m, cpu := c\<lparr>sp_el1 := fr\<rparr>\<rparr>)"

definition kernel_exit_l3 :: "kernel \<Rightarrow> kernel" where
  "kernel_exit_l3 s =
     (let c = cpu s; fr = sp_el1 c; m = mem s; r30 = m (fr + 16 * 15);
          c = c\<lparr>gpr := (\<lambda>i. if i < 30 then m (fr + 8 * word_of_nat i) else if i = 30 then r30 else gpr c i),
                sp_el1 := fr + S_FRAME_SIZE_l4, irq_masked := bit (spsr_el1 c) 7\<rparr>
      in s\<lparr>cpu := c\<rparr>)"

section \<open>The handlers\<close>

text \<open>
  \<open>handle_invalid_entry\<close>: the registers are saved (again, inside \<open>el0_sync\<close>), the message is
  printed, and the processor stays in \<open>err_hang\<close>.
\<close>

definition invalid_entry_with :: "(entry \<Rightarrow> int option) \<Rightarrow> (nat \<Rightarrow> kernel \<Rightarrow> kernel) \<Rightarrow>
    (int \<Rightarrow> u64 \<Rightarrow> u64 \<Rightarrow> kernel \<Rightarrow> fault + kernel option) \<Rightarrow> nat \<Rightarrow> entry \<Rightarrow> kernel \<Rightarrow> kernel outcome" where
  "invalid_entry_with code save message el e s =
     (case code e of
        None \<Rightarrow> No_Result
      | Some type \<Rightarrow>
          let s = save el s;
              s = set_x 0 (word_of_int type) s; s = set_x 1 (esr_el1 (cpu s)) s; s = set_x 2 (elr_el1 (cpu s)) s
          in case message type (gpr (cpu s) 1) (gpr (cpu s) 2) s of
               Inl f \<Rightarrow> Faults f | Inr None \<Rightarrow> No_Result | Inr (Some s) \<Rightarrow> Hangs s)"

definition handle_invalid_entry :: "addr \<Rightarrow> nat \<Rightarrow> entry \<Rightarrow> kernel \<Rightarrow> kernel outcome" where
  "handle_invalid_entry pb = invalid_entry_with entry_code kernel_entry (show_invalid_entry_message pb)"

definition handle_invalid_entry_l5 :: "addr \<Rightarrow> nat \<Rightarrow> entry \<Rightarrow> kernel \<Rightarrow> kernel outcome" where
  "handle_invalid_entry_l5 pb = invalid_entry_with entry_code_l5 kernel_entry (show_invalid_entry_message pb)"

definition handle_invalid_entry_l4 :: "addr \<Rightarrow> nat \<Rightarrow> entry \<Rightarrow> kernel \<Rightarrow> kernel outcome" where
  "handle_invalid_entry_l4 pb =
     invalid_entry_with entry_code_l4 (\<lambda>el. kernel_entry_l4) (show_invalid_entry_message_l4 pb)"

definition handle_invalid_entry_l3 :: "addr \<Rightarrow> nat \<Rightarrow> entry \<Rightarrow> kernel \<Rightarrow> kernel outcome" where
  "handle_invalid_entry_l3 pb =
     invalid_entry_with entry_code_l3 (\<lambda>el. kernel_entry_l3) (show_invalid_entry_message_l4 pb)"

text \<open>\<open>el1_irq\<close> and \<open>el0_irq\<close>. A switch to another task is resumed there.\<close>

definition irq_entry_with ::
    "(kernel \<Rightarrow> kernel) \<Rightarrow> (kernel \<Rightarrow> kernel) \<Rightarrow> (kernel \<Rightarrow> kernel option) \<Rightarrow> kernel \<Rightarrow> kernel outcome" where
  "irq_entry_with save restore handle s =
     (let s = save s
      in case handle s of
           None \<Rightarrow> No_Result
         | Some t \<Rightarrow> if current t = current s then Returns (restore t) else Switched t)"

definition el1_irq :: "addr \<Rightarrow> kernel \<Rightarrow> kernel outcome" where
  "el1_irq pb = irq_entry_with (kernel_entry 1) (kernel_exit 1) (handle_irq pb)"

definition el0_irq :: "addr \<Rightarrow> kernel \<Rightarrow> kernel outcome" where
  "el0_irq pb = irq_entry_with (kernel_entry 0) (kernel_exit 0) (handle_irq pb)"

definition el1_irq_l5 :: "addr \<Rightarrow> kernel \<Rightarrow> kernel outcome" where
  "el1_irq_l5 pb = irq_entry_with (kernel_entry 1) (kernel_exit 1) (handle_irq_l5 pb)"

definition el0_irq_l5 :: "addr \<Rightarrow> kernel \<Rightarrow> kernel outcome" where
  "el0_irq_l5 pb = irq_entry_with (kernel_entry 0) (kernel_exit 0) (handle_irq_l5 pb)"

definition el1_irq_l4 :: "addr \<Rightarrow> kernel \<Rightarrow> kernel outcome" where
  "el1_irq_l4 pb = irq_entry_with kernel_entry_l4 kernel_exit_l4 (handle_irq_l4 pb)"

definition el1_irq_l3 :: "addr \<Rightarrow> kernel \<Rightarrow> kernel outcome" where
  "el1_irq_l3 pb = irq_entry_with kernel_entry_l3 kernel_exit_l3 (handle_irq_l3 pb)"

definition ESR_ELx_EC_SHIFT :: nat where "ESR_ELx_EC_SHIFT = 26"
definition ESR_ELx_EC_SVC64 :: u64 where "ESR_ELx_EC_SVC64 = 0x15"
definition ESR_ELx_EC_DABT_LOW :: u64 where "ESR_ELx_EC_DABT_LOW = 0x24"

definition ret_from_syscall :: "kernel \<Rightarrow> kernel" where
  "ret_from_syscall s =
     (let s = disable_irq s; s = s\<lparr>mem := (mem s)(sp_el1 (cpu s) + S_X0 := gpr (cpu s) 0)\<rparr>
      in kernel_exit 0 s)"

text \<open>\<open>el0_svc\<close>, with the number of system calls, their table and the code for a wrong number.\<close>

definition svc_with :: "u64 \<Rightarrow> syscall list \<Rightarrow> (syscall \<Rightarrow> kernel \<Rightarrow> kernel outcome) \<Rightarrow>
    (kernel \<Rightarrow> kernel outcome) \<Rightarrow> kernel \<Rightarrow> kernel outcome" where
  "svc_with nr tbl call ni_sys s =
     (let s = set_x 26 (gpr (cpu s) 8 AND mask 32) s; s = set_x 25 nr s; s = enable_irq s
      in if gpr (cpu s) 25 \<le> gpr (cpu s) 26 then ni_sys s
         else case call (tbl ! unat (gpr (cpu s) 26)) s of
                Returns s \<Rightarrow> Returns (ret_from_syscall s) | r \<Rightarrow> r)"

definition el0_svc :: "image \<Rightarrow> addr \<Rightarrow> kernel \<Rightarrow> kernel outcome" where
  "el0_svc im pb =
     svc_with NR_syscalls sys_call_table (call_syscall im pb) (handle_invalid_entry pb 0 Syscall_Error)"

definition el0_svc_l5 :: "image \<Rightarrow> addr \<Rightarrow> kernel \<Rightarrow> kernel outcome" where
  "el0_svc_l5 im pb =
     svc_with NR_syscalls_l5 sys_call_table_l5 (call_syscall_l5 im pb) (handle_invalid_entry_l5 pb 0 Syscall_Error)"

definition el0_da :: "addr \<Rightarrow> kernel \<Rightarrow> kernel outcome" where
  "el0_da pb s =
     (let s = enable_irq s; s = set_x 0 (far_el1 (cpu s)) s; s = set_x 1 (esr_el1 (cpu s)) s
      in case do_mem_abort (gpr (cpu s) 0) (gpr (cpu s) 1) s of (r, s) \<Rightarrow>
           let s = set_x 0 (word_of_int r) s
           in if gpr (cpu s) 0 = 0 then Returns (kernel_exit 0 (disable_irq s))
              else handle_invalid_entry pb 0 Data_Abort_Error s)"

definition el0_sync :: "image \<Rightarrow> addr \<Rightarrow> kernel \<Rightarrow> kernel outcome" where
  "el0_sync im pb s =
     (let s = kernel_entry 0 s;
          s = set_x 25 (esr_el1 (cpu s)) s; s = set_x 24 (drop_bit ESR_ELx_EC_SHIFT (gpr (cpu s) 25)) s
      in if gpr (cpu s) 24 = ESR_ELx_EC_SVC64 then el0_svc im pb s
         else if gpr (cpu s) 24 = ESR_ELx_EC_DABT_LOW then el0_da pb s
         else handle_invalid_entry pb 0 Sync_Error s)"

definition el0_sync_l5 :: "image \<Rightarrow> addr \<Rightarrow> kernel \<Rightarrow> kernel outcome" where
  "el0_sync_l5 im pb s =
     (let s = kernel_entry 0 s;
          s = set_x 25 (esr_el1 (cpu s)) s; s = set_x 24 (drop_bit ESR_ELx_EC_SHIFT (gpr (cpu s) 25)) s
      in if gpr (cpu s) 24 = ESR_ELx_EC_SVC64 then el0_svc_l5 im pb s
         else handle_invalid_entry_l5 pb 0 Sync_Error s)"

text \<open>Each exception, through the vectors of a lesson.\<close>

definition exception_entry :: "image \<Rightarrow> addr \<Rightarrow> vector_source \<Rightarrow> exception \<Rightarrow> kernel \<Rightarrow> kernel outcome" where
  "exception_entry im pb src ex s =
     (case vectors src ex of
        Invalid_Entry el e \<Rightarrow> handle_invalid_entry pb el e s
      | Handle_Irq el \<Rightarrow> if el = 0 then el0_irq pb s else el1_irq pb s
      | Handle_Sync \<Rightarrow> el0_sync im pb s)"

definition exception_entry_l5 :: "image \<Rightarrow> addr \<Rightarrow> vector_source \<Rightarrow> exception \<Rightarrow> kernel \<Rightarrow> kernel outcome" where
  "exception_entry_l5 im pb src ex s =
     (case vectors src ex of
        Invalid_Entry el e \<Rightarrow> handle_invalid_entry_l5 pb el e s
      | Handle_Irq el \<Rightarrow> if el = 0 then el0_irq_l5 pb s else el1_irq_l5 pb s
      | Handle_Sync \<Rightarrow> el0_sync_l5 im pb s)"

definition exception_entry_l4 :: "addr \<Rightarrow> vector_source \<Rightarrow> exception \<Rightarrow> kernel \<Rightarrow> kernel outcome" where
  "exception_entry_l4 pb src ex s =
     (case vectors_l4 src ex of
        Invalid_Entry el e \<Rightarrow> handle_invalid_entry_l4 pb el e s
      | _ \<Rightarrow> el1_irq_l4 pb s)"

definition exception_entry_l3 :: "addr \<Rightarrow> vector_source \<Rightarrow> exception \<Rightarrow> kernel \<Rightarrow> kernel outcome" where
  "exception_entry_l3 pb src ex s =
     (case vectors_l4 src ex of
        Invalid_Entry el e \<Rightarrow> handle_invalid_entry_l3 pb el e s
      | _ \<Rightarrow> el1_irq_l3 pb s)"

section \<open>A new task\<close>

definition ret_to_user :: "kernel \<Rightarrow> kernel" where
  "ret_to_user s = kernel_exit 0 (disable_irq s)"

text \<open>
  \<open>ret_from_fork\<close> after \<open>schedule_tail\<close>, which the model of \<open>_schedule\<close> includes: a kernel
  thread goes on at the function in \<open>x19\<close> with its argument, a user process in user mode.
\<close>

definition start_forked :: "kernel \<Rightarrow> addr option \<times> kernel" where
  "start_forked s =
     (if gpr (cpu s) 19 = 0 then (None, ret_to_user s)
      else (Some (gpr (cpu s) 19), set_x 0 (gpr (cpu s) 20) s))"

end
