(* ===== verification/Entry_Props.thy ===== *)
theory Entry_Props
  imports Entry
begin

text \<open>
  The properties of exceptions: what the saved frame holds and that leaving the kernel
  undoes entering it, the frame of lesson 4, the names of the errors, and the way of a
  system call through the table.
\<close>

unbundle bit_operations_syntax

section \<open>The frame\<close>

text \<open>The registers of the interrupted code, as \<open>struct pt_regs\<close>.\<close>

definition trap_frame :: "nat \<Rightarrow> cpu \<Rightarrow> pt_regs" where
  "trap_frame el c = \<lparr>regs = map (gpr c) [0..<31], pt_sp = (if el = 0 then sp_el0 c else sp_el1 c),
     pt_pc = elr_el1 c, pstate = spsr_el1 c\<rparr>"

lemma kernel_entry_eq:
  "kernel_entry el s = s\<lparr>mem := store_words (sp_el1 (cpu s) - 272) (pt_regs_words (trap_frame el (cpu s))) (mem s),
     cpu := (cpu s)\<lparr>sp_el1 := sp_el1 (cpu s) - 272, gpr := (gpr (cpu s))
       (21 := pt_sp (trap_frame el (cpu s)), 22 := elr_el1 (cpu s), 23 := spsr_el1 (cpu s))\<rparr>\<rparr>"
proof -
  let ?c = "cpu s" and ?fr = "sp_el1 (cpu s) - 272"
  have "pt_regs_words (trap_frame el ?c) = map (gpr ?c) [0..<30] @ [gpr ?c 30, pt_sp (trap_frame el ?c)] @ [elr_el1 ?c, spsr_el1 ?c]"
    using upt_Suc_append [of 0 30] by (simp add: pt_regs_words_def trap_frame_def del: upt_Suc)
  then have "store_words ?fr (pt_regs_words (trap_frame el ?c)) (mem s) =
      store_words (?fr + 256) [elr_el1 ?c, spsr_el1 ?c]
        (store_words (?fr + 240) [gpr ?c 30, pt_sp (trap_frame el ?c)] (store_words ?fr (map (gpr ?c) [0..<30]) (mem s)))"
    by (simp only: store_words_append) (simp add: algebra_simps)
  then show ?thesis
    by (simp add: kernel_entry_def Let_def S_FRAME_SIZE_def trap_frame_def)
qed

lemma kernel_entry_frame:
  "load_pt_regs (mem (kernel_entry el s)) (sp_el1 (cpu s) - 272) = trap_frame el (cpu s)"
  "sp_el1 (cpu (kernel_entry el s)) = sp_el1 (cpu s) - 272"
proof -
  let ?F = "trap_frame el (cpu s)" and ?fr = "sp_el1 (cpu s) - 272"
  have len: "length (pt_regs_words ?F) = 34" by (simp add: pt_regs_words_def trap_frame_def)
  have "load_words (store_words ?fr (pt_regs_words ?F) (mem s)) ?fr 34 = pt_regs_words ?F"
    using load_store_words [of "pt_regs_words ?F" ?fr "mem s"] len by simp
  then have w: "pt_regs_words (load_pt_regs (store_words ?fr (pt_regs_words ?F) (mem s)) ?fr) = pt_regs_words ?F"
    by (simp add: pt_regs_words_load)
  show "load_pt_regs (mem (kernel_entry el s)) ?fr = ?F"
    using w by (simp add: kernel_entry_eq pt_regs_words_def trap_frame_def load_pt_regs_def)
  show "sp_el1 (cpu (kernel_entry el s)) = ?fr" by (simp add: kernel_entry_eq)
qed

text \<open>Leaving the kernel loads the frame at the stack pointer.\<close>

lemma kernel_exit_frame:
  fixes s :: kernel and el :: nat
  defines "F \<equiv> load_pt_regs (mem s) (sp_el1 (cpu s))"
  shows "i < 31 \<Longrightarrow> gpr (cpu (kernel_exit el s)) i = regs F ! i"
    "sp_el1 (cpu (kernel_exit el s)) = sp_el1 (cpu s) + 272"
    "elr_el1 (cpu (kernel_exit el s)) = pt_pc F" "spsr_el1 (cpu (kernel_exit el s)) = pstate F"
    "irq_masked (cpu (kernel_exit el s)) = bit (pstate F) 7"
    "sp_el0 (cpu (kernel_exit el s)) = (if el = 0 then pt_sp F else sp_el0 (cpu s))"
    "ttbr0_el1 (cpu (kernel_exit el s)) = ttbr0_el1 (cpu s)"
    "kernel_exit el s = s\<lparr>cpu := cpu (kernel_exit el s)\<rparr>"
  by (auto simp: kernel_exit_def Let_def F_def load_pt_regs_def S_FRAME_SIZE_def layout_defs less_Suc_eq
      add.assoc numeral_eq_Suc)

lemma take_exception_simps [simp]:
  "mem (take_exception at pst s) = mem s" "gpr (cpu (take_exception at pst s)) = gpr (cpu s)"
  "sp_el1 (cpu (take_exception at pst s)) = sp_el1 (cpu s)" "sp_el0 (cpu (take_exception at pst s)) = sp_el0 (cpu s)"
  "elr_el1 (cpu (take_exception at pst s)) = at" "spsr_el1 (cpu (take_exception at pst s)) = pst"
  "current (take_exception at pst s) = current s" "dev (take_exception at pst s) = dev s"
  by (simp_all add: take_exception_def)

lemma kernel_entry_outside:
  assumes "\<And>i. i < 34 \<Longrightarrow> a \<noteq> sp_el1 (cpu s) - 272 + 8 * word_of_nat i"
  shows "mem (kernel_entry el s) a = mem s a"
proof -
  have "length (pt_regs_words (trap_frame el (cpu s))) = 34" by (simp add: pt_regs_words_def trap_frame_def)
  then show ?thesis using assms by (simp add: kernel_entry_eq store_words_outside)
qed

text \<open>
  C36. The kernel is transparent to interrupts and exceptions in lessons 5 and 6: entering it
  stores the 31 registers, the stack pointer of the interrupted code, its program counter and
  its state as a \<open>pt_regs\<close> just below the kernel's stack pointer, and changes no other memory;
  leaving it, with that frame and the stack pointer as they were then, restores every
  register, the kernel's stack pointer and, for an exception from user mode, the user's, and goes on where the exception came with the same state.
\<close>

theorem exception_roundtrip:
  assumes "s1 = kernel_entry el (take_exception at pst s)" and "fr = sp_el1 (cpu s) - 272"
    and "sp_el1 (cpu t) = fr" and "\<forall>i < 34. mem t (fr + 8 * word_of_nat i) = mem s1 (fr + 8 * word_of_nat i)"
    and "c = cpu (kernel_exit el t)"
  shows "load_pt_regs (mem s1) fr = \<lparr>regs = map (gpr (cpu s)) [0..<31],
       pt_sp = (if el = 0 then sp_el0 (cpu s) else sp_el1 (cpu s)), pt_pc = at, pstate = pst\<rparr> \<and>
    (\<forall>a. (\<forall>i < 34. a \<noteq> fr + 8 * word_of_nat i) \<longrightarrow> mem s1 a = mem s a) \<and>
    (\<forall>i < 31. gpr c i = gpr (cpu s) i) \<and> sp_el1 c = sp_el1 (cpu s) \<and>
    (el = 0 \<longrightarrow> sp_el0 c = sp_el0 (cpu s)) \<and> elr_el1 c = at \<and> spsr_el1 c = pst \<and> irq_masked c = bit pst 7"
proof -
  let ?F = "trap_frame el (cpu (take_exception at pst s))"
  have F: "load_pt_regs (mem s1) fr = ?F"
    using kernel_entry_frame(1) [of el "take_exception at pst s"] by (simp add: assms(1,2))
  have "load_pt_regs (mem t) fr = load_pt_regs (mem s1) fr"
    by (rule load_pt_regs_cong) (use assms(4) in blast)
  then have T: "load_pt_regs (mem t) (sp_el1 (cpu t)) = ?F" by (simp add: F assms(3))
  have "gpr c i = gpr (cpu s) i" if "i < 31" for i
    using kernel_exit_frame(1) [OF that, of el t] that
    by (simp add: T assms(5)) (simp add: trap_frame_def del: upt_Suc)
  moreover have "mem s1 a = mem s a" if "\<forall>i < 34. a \<noteq> fr + 8 * word_of_nat i" for a
    using kernel_entry_outside [of a "take_exception at pst s" el] that by (simp add: assms(1,2))
  moreover have "el = 0 \<Longrightarrow> sp_el0 c = sp_el0 (cpu s)"
    using kernel_exit_frame(6) [of el t] by (simp add: T assms(5)) (simp add: trap_frame_def)
  moreover have "load_pt_regs (mem s1) fr = \<lparr>regs = map (gpr (cpu s)) [0..<31],
       pt_sp = (if el = 0 then sp_el0 (cpu s) else sp_el1 (cpu s)), pt_pc = at, pstate = pst\<rparr>"
    by (simp add: F trap_frame_def)
  ultimately show ?thesis
    using kernel_exit_frame(2-5) [of el t]
    by (simp add: T assms(5)) (simp add: trap_frame_def assms(2,3) del: upt_Suc)
qed

definition numbered :: kernel where
  "numbered = boot_kernel\<lparr>cpu := reset_cpu\<lparr>gpr := word_of_nat\<rparr>\<rparr>"

theorem exception_roundtrip_witness:
  "gpr (cpu (kernel_entry 0 (take_exception 0x40 0 numbered))) 22 = 0x40 \<and>
    gpr (cpu (kernel_exit 0 (kernel_entry 0 (take_exception 0x40 0 numbered)))) 22 = 22"
proof -
  let ?s1 = "kernel_entry 0 (take_exception 0x40 0 numbered)"
  have "sp_el1 (cpu ?s1) = sp_el1 (cpu numbered) - 272" by (simp add: kernel_entry_frame(2))
  from exception_roundtrip [OF refl refl this _ refl]
  have "\<forall>i < 31. gpr (cpu (kernel_exit 0 ?s1)) i = gpr (cpu numbered) i" by blast
  then have "gpr (cpu (kernel_exit 0 ?s1)) 22 = gpr (cpu numbered) 22" by simp
  then show ?thesis by (simp add: kernel_entry_eq numbered_def)
qed

section \<open>The frame of lesson 4\<close>

lemma words_256: "(a :: u64) - 256 + 8 * word_of_nat 30 = a - 16" "(a :: u64) - 256 + 8 * word_of_nat 31 = a - 8"
  by simp_all

lemma kernel_entry_l4_mem:
  "mem (kernel_entry_l4 s) = (store_words (sp_el1 (cpu s) - 256)
     (map (gpr (cpu s)) [0..<31] @ [elr_el1 (cpu s)]) (mem s)) (sp_el1 (cpu s) := spsr_el1 (cpu s))"
proof -
  have "map (gpr (cpu s)) [0..<31] @ [elr_el1 (cpu s)] = map (gpr (cpu s)) [0..<30] @ [gpr (cpu s) 30, elr_el1 (cpu s)]"
    using upt_Suc_append [of 0 30] by (simp del: upt_Suc)
  then show ?thesis
    by (simp only: store_words_append) (simp add: kernel_entry_l4_def Let_def S_FRAME_SIZE_l4_def algebra_simps)
qed

text \<open>
  C37. In lesson 4 the frame is 256 bytes but 33 doublewords are stored: \<open>spsr_el1\<close> goes to
  the address the interrupted code's stack pointer holds. Every interrupt overwrites that word
  of the interrupted code's stack, although all registers come back.
\<close>

theorem entry_l4_overwrites_stack:
  assumes "s1 = kernel_entry_l4 (take_exception at pst s)" and "sp_el1 (cpu t) = sp_el1 (cpu s1)"
    and "\<forall>i < 33. mem t (sp_el1 (cpu s1) + 8 * word_of_nat i) = mem s1 (sp_el1 (cpu s1) + 8 * word_of_nat i)"
    and "u = kernel_exit_l4 t"
  shows "sp_el1 (cpu u) = sp_el1 (cpu s) \<and> mem u (sp_el1 (cpu s)) = pst \<and>
    (\<forall>i < 31. gpr (cpu u) i = gpr (cpu s) i) \<and> elr_el1 (cpu u) = at \<and> spsr_el1 (cpu u) = pst"
proof -
  let ?sp = "sp_el1 (cpu s)" and ?ws = "map (gpr (cpu s)) [0..<31] @ [at]"
  have sp: "sp_el1 (cpu s1) = ?sp - 256" by (simp add: assms(1) kernel_entry_l4_def Let_def S_FRAME_SIZE_l4_def)
  have m1: "mem s1 = (store_words (?sp - 256) ?ws (mem s)) (?sp := pst)"
    using kernel_entry_l4_mem [of "take_exception at pst s"] by (simp add: assms(1))
  have word: "mem t (?sp - 256 + 8 * word_of_nat i) = ?ws ! i" if i: "i < 32" for i
  proof -
    have "(8 :: u64) * word_of_nat i \<noteq> 8 * word_of_nat 32" using word_mult8_inj [of i 32] i by simp
    then have "?sp - 256 + 8 * word_of_nat i \<noteq> ?sp" by (simp add: algebra_simps)
    then have "mem s1 (?sp - 256 + 8 * word_of_nat i) = ?ws ! i"
      unfolding m1 using store_words_inside [of i ?ws "?sp - 256" "mem s"] i by (simp del: upt_Suc)
    then show ?thesis using assms(3) i unfolding sp by simp
  qed
  have top: "mem t ?sp = pst" using assms(3) [unfolded sp, rule_format, of 32] by (simp add: m1)
  have w30: "mem t (?sp - 16) = gpr (cpu s) 30" and w31: "mem t (?sp - 8) = at"
    using word [of 30] word [of 31] by (simp_all add: words_256 nth_append del: upt_Suc)
  have "gpr (cpu u) i = gpr (cpu s) i" if i: "i < 31" for i
    using word [of i] i w30
    by (cases "i = 30")
      (simp_all add: assms(2,4) sp kernel_exit_l4_def Let_def nth_append algebra_simps del: upt_Suc)
  then show ?thesis
    using top w31 by (simp add: assms(2,4) sp kernel_exit_l4_def Let_def S_FRAME_SIZE_l4_def algebra_simps)
qed

theorem entry_l4_overwrites_stack_witness:
  "mem (kernel_exit_l4 (kernel_entry_l4 (take_exception 0x81000 0x60000305 boot_l4))) (sp_el1 (cpu boot_l4)) = 0x60000305 \<and>
    mem boot_l4 (sp_el1 (cpu boot_l4)) = 0"
proof -
  have "sp_el1 (cpu boot_l4) = 0" by (simp add: boot_l4_def initial_kernel_def reset_cpu_def)
  moreover have "mem boot_l4 0 = 0"
    by (simp add: boot_l4_def initial_kernel_def task_words_l4_def context_words_def)
  ultimately show ?thesis
    using entry_l4_overwrites_stack [OF refl refl _ refl, of "0x81000" "0x60000305" boot_l4] by simp
qed

section \<open>The names of the errors\<close>

text \<open>The name of the macro that stands for the error in \<open>entry.h\<close>.\<close>

fun source_name :: "vector_source \<Rightarrow> char list" where
  "source_name EL1t = ''EL1t''"
| "source_name EL1h = ''EL1h''"
| "source_name EL0_64 = ''EL0_64''"
| "source_name EL0_32 = ''EL0_32''"

fun exception_name :: "exception \<Rightarrow> char list" where
  "exception_name Sync = ''SYNC''"
| "exception_name Irq = ''IRQ''"
| "exception_name Fiq = ''FIQ''"
| "exception_name Error = ''ERROR''"

fun entry_name :: "entry \<Rightarrow> char list" where
  "entry_name (Invalid ex src) = exception_name ex @ ''_INVALID_'' @ source_name src"
| "entry_name Sync_Error = ''SYNC_ERROR''"
| "entry_name Syscall_Error = ''SYSCALL_ERROR''"
| "entry_name Data_Abort_Error = ''DATA_ABORT_ERROR''"

lemma entry_forall: "(\<forall>e. P e) \<longleftrightarrow> (\<forall>ex src. P (Invalid ex src)) \<and> P Sync_Error \<and> P Syscall_Error \<and> P Data_Abort_Error"
  by (metis entry.exhaust)

lemma exception_forall: "(\<forall>ex. P ex) \<longleftrightarrow> P Sync \<and> P Irq \<and> P Fiq \<and> P Error"
  by (metis exception.exhaust)

lemma source_forall: "(\<forall>src. P src) \<longleftrightarrow> P EL1t \<and> P EL1h \<and> P EL0_64 \<and> P EL0_32"
  by (metis vector_source.exhaust)

text \<open>
  The messages and the error numbers. In lessons 3, 4 and 5 every number indexes the message
  with the name of its macro, but for the spelling of \<open>ERROR_INVALID_EL1t\<close>. Lesson 6
  renumbered the errors without the messages: every error from number 5 on is reported
  under the name of another one.
\<close>

theorem invalid_entry_names:
  "\<forall>e. (case entry_code_l5 e of None \<Rightarrow> e = Data_Abort_Error
       | Some k \<Rightarrow> entry_error_messages ! nat k =
           (if e = Invalid Error EL1t then ''ERROR_INVALID_EL1T'' else entry_name e)) \<and>
     (case entry_code_l4 e of None \<Rightarrow> e = Sync_Error \<or> e = Syscall_Error \<or> e = Data_Abort_Error
       | Some k \<Rightarrow> entry_error_messages_l4 ! nat k =
           (if e = Invalid Error EL1t then ''ERROR_INVALID_EL1T'' else entry_name e)) \<and>
     (case entry_code e of None \<Rightarrow> True
       | Some k \<Rightarrow> entry_error_messages ! nat k = entry_name e \<longleftrightarrow> k < 5 \<and> k \<noteq> 3)"
  unfolding entry_forall exception_forall source_forall
  by (simp add: entry_error_messages_def entry_error_messages_l4_def nth_Cons')

end
