(* ===== verification/Lessons.thy ===== *)
theory Lessons
  imports Timer_Irq
begin

text \<open>
  The drivers as lessons 1 to 5 have them, at the physical address of the peripherals, and
  their relation to lesson 6, where the same code runs at the address the linear map gives
  the peripherals. Moving the peripherals moves the accesses and nothing else, so what is
  shown of the one holds for the others.
\<close>

section \<open>The drivers at physical addresses\<close>

definition uart_send_l5 :: "char \<Rightarrow> world \<Rightarrow> world option" where
  "uart_send_l5 c w = uart_send PBASE_phys c w"

definition uart_recv_l5 :: "world \<Rightarrow> (char \<times> world) option" where
  "uart_recv_l5 w = uart_recv PBASE_phys w"

fun uart_send_string_l5 :: "char list \<Rightarrow> world \<Rightarrow> world option" where
  "uart_send_string_l5 [] w = None"
| "uart_send_string_l5 (c # str) w =
     (if c \<noteq> NUL then Option.bind (uart_send_l5 c w) (uart_send_string_l5 str) else Some w)"

definition uart_init_l5 :: "world \<Rightarrow> world" where
  "uart_init_l5 w = uart_init PBASE_phys w"

definition putc_l5 :: "char \<Rightarrow> world \<Rightarrow> world option" where
  "putc_l5 c w = uart_send_l5 c w"

definition timer_init_l5 :: "kernel \<Rightarrow> kernel" where
  "timer_init_l5 s = timer_init PBASE_phys s"

definition enable_interrupt_controller_l5 :: "kernel \<Rightarrow> kernel" where
  "enable_interrupt_controller_l5 s = enable_interrupt_controller PBASE_phys s"

section \<open>Moving the peripherals\<close>

fun relocate_access :: "addr \<Rightarrow> io \<Rightarrow> io" where
  "relocate_access d (Rd a v) = Rd (a + d) v"
| "relocate_access d (Wr a v) = Wr (a + d) v"
| "relocate_access d (Dly n) = Dly n"

text \<open>The same devices \<open>d\<close> further up.\<close>

definition relocate :: "addr \<Rightarrow> world \<Rightarrow> world" where
  "relocate d w = w\<lparr>w_reply := (\<lambda>t a. w_reply w t (a - d)), w_log := map (relocate_access d) (w_log w)\<rparr>"

lemma relocate_back [simp]: "relocate (- d) (relocate d w) = w"
proof -
  have "relocate_access (- d) (relocate_access d e) = e" for e by (cases e) simp_all
  then show ?thesis by (simp add: relocate_def o_def)
qed

named_theorems relocates

lemma get32_relocates [relocates]:
  "get32 (a + d) (relocate d w) = (case get32 a w of (v, w) \<Rightarrow> (v, relocate d w))"
  by (simp add: get32_def relocate_def Let_def)

lemma put32_relocates [relocates]: "put32 (a + d) v (relocate d w) = relocate d (put32 a v w)"
  by (simp add: put32_def relocate_def)

lemma delay_relocates [relocates]: "delay n (relocate d w) = relocate d (delay n w)"
  by (simp add: delay_def relocate_def)

lemma registers_relocate [relocates]:
  "GPFSEL1 (pb + d) = GPFSEL1 pb + d" "GPPUD (pb + d) = GPPUD pb + d"
  "GPPUDCLK0 (pb + d) = GPPUDCLK0 pb + d" "AUX_ENABLES (pb + d) = AUX_ENABLES pb + d"
  "AUX_MU_IO_REG (pb + d) = AUX_MU_IO_REG pb + d" "AUX_MU_IER_REG (pb + d) = AUX_MU_IER_REG pb + d"
  "AUX_MU_LCR_REG (pb + d) = AUX_MU_LCR_REG pb + d" "AUX_MU_MCR_REG (pb + d) = AUX_MU_MCR_REG pb + d"
  "AUX_MU_LSR_REG (pb + d) = AUX_MU_LSR_REG pb + d" "AUX_MU_CNTL_REG (pb + d) = AUX_MU_CNTL_REG pb + d"
  "AUX_MU_BAUD_REG (pb + d) = AUX_MU_BAUD_REG pb + d" "TIMER_CLO (pb + d) = TIMER_CLO pb + d"
  "TIMER_C1 (pb + d) = TIMER_C1 pb + d" "ENABLE_IRQS_1 (pb + d) = ENABLE_IRQS_1 pb + d"
  by (simp_all add: register_defs irq_registers algebra_simps)

text \<open>A wait that ends ends in the moved world too; moved back, one that does not end does not
end there either.\<close>

lemma lsr_wait_relocates_Some:
  "lsr_wait pb m w = Some w' \<Longrightarrow> lsr_wait (pb + d) m (relocate d w) = Some (relocate d w')"
proof (rule lsr_wait.raw_induct [where P = "\<lambda>pb m w w'.
    lsr_wait (pb + d) m (relocate d w) = Some (relocate d w')"])
  fix f pb m w w'
  assume IH: "\<And>pb m w w'. f pb m w = Some w' \<Longrightarrow> lsr_wait (pb + d) m (relocate d w) = Some (relocate d w')"
    and step: "(case get32 (AUX_MU_LSR_REG pb) w of (v, w) \<Rightarrow> if v AND m \<noteq> 0 then Some w else f pb m w) = Some w'"
  then show "lsr_wait (pb + d) m (relocate d w) = Some (relocate d w')"
    by (subst lsr_wait.simps) (auto simp: relocates split: prod.splits if_splits)
qed assumption

lemma lsr_wait_relocates [relocates]:
  "lsr_wait (pb + d) m (relocate d w) = map_option (relocate d) (lsr_wait pb m w)"
proof (cases "lsr_wait pb m w")
  case None
  have False if "lsr_wait (pb + d) m (relocate d w) = Some w'" for w'
    using lsr_wait_relocates_Some [OF that, of "- d"] None by simp
  then show ?thesis using None by fastforce
next
  case (Some w')
  then show ?thesis using lsr_wait_relocates_Some by simp
qed

lemma uart_relocates [relocates]:
  "uart_send (pb + d) c (relocate d w) = map_option (relocate d) (uart_send pb c w)"
  "uart_recv (pb + d) (relocate d w) = map_option (apsnd (relocate d)) (uart_recv pb w)"
  "uart_init (pb + d) (relocate d w) = relocate d (uart_init pb w)"
  by (simp_all add: uart_send_def uart_recv_def uart_init_def relocates option.map_comp o_def
      split: prod.split) (auto intro!: option.map_cong split: prod.split)

lemma uart_send_string_relocates [relocates]:
  "uart_send_string (pb + d) str (relocate d w) = map_option (relocate d) (uart_send_string pb str w)"
  by (induction str arbitrary: w) (auto simp: relocates Option.bind_map_option o_def map_option_bind split: option.split)

lemma uart_send_string_l5_eq: "uart_send_string_l5 str = uart_send_string PBASE_phys str"
  by (induction str) (rule ext, simp add: uart_send_l5_def)+

definition move_devices :: "addr \<Rightarrow> kernel \<Rightarrow> kernel" where
  "move_devices d s = s\<lparr>dev := relocate d (dev s)\<rparr>"

lemma interrupts_relocate [relocates]:
  "timer_init (pb + d) (move_devices d s) = move_devices d (timer_init pb s)"
  "enable_interrupt_controller (pb + d) (move_devices d s) = move_devices d (enable_interrupt_controller pb s)"
  by (simp_all add: timer_init_def enable_interrupt_controller_def move_devices_def relocates Let_def
      split: prod.split)

text \<open>
  The drivers of the lessons before virtual memory are those of lesson 6 with the
  peripherals moved from \<open>VA_START + 0x3F000000\<close> to \<open>0x3F000000\<close>: each makes the same accesses
  in the same order with the same values, gives the same result and waits as long.
\<close>

theorem drivers_relocate:
  "let d = PBASE_phys - PBASE in
     uart_init_l5 (relocate d w) = relocate d (uart_init PBASE w) \<and>
     uart_send_l5 c (relocate d w) = map_option (relocate d) (uart_send PBASE c w) \<and>
     putc_l5 c (relocate d w) = map_option (relocate d) (putc PBASE c w) \<and>
     uart_recv_l5 (relocate d w) = map_option (apsnd (relocate d)) (uart_recv PBASE w) \<and>
     uart_send_string_l5 str (relocate d w) = map_option (relocate d) (uart_send_string PBASE str w) \<and>
     timer_init_l5 (move_devices d s) = move_devices d (timer_init PBASE s) \<and>
     enable_interrupt_controller_l5 (move_devices d s) =
       move_devices d (enable_interrupt_controller PBASE s)"
proof -
  have pb: "PBASE_phys = PBASE + (PBASE_phys - PBASE)" by simp
  show ?thesis
    unfolding Let_def uart_init_l5_def uart_send_l5_def putc_l5_def putc_def uart_recv_l5_def
      uart_send_string_l5_eq timer_init_l5_def enable_interrupt_controller_l5_def
    using uart_relocates [of PBASE "PBASE_phys - PBASE"]
      uart_send_string_relocates [of PBASE "PBASE_phys - PBASE"]
      interrupts_relocate [of PBASE "PBASE_phys - PBASE"]
    by (simp only: pb [symmetric])
qed

end
