(* ===== verification/User_Programs.thy ===== *)
theory User_Programs
  imports Entry_Props
begin

text \<open>
  The user side: the programs of \<open>user.c\<close> (lesson 6) and of \<open>kernel.c\<close> (lesson 5) that run in
  user mode. A program that never ends is a tree of the calls it makes: each system call is a
  node, with the rest of the program as a function of what the call returns in \<open>x0\<close>.
  Numbers are those of \<open>x0\<close>; the \<open>int\<close> the C code reads is its low 32 bits.
\<close>

unbundle bit_operations_syntax

codatatype user_program =
    Sys_Write "char list" user_program
  | Sys_Malloc "u64 \<Rightarrow> user_program"
  | Sys_Clone u64 "u64 \<Rightarrow> user_program"
  | Sys_Fork "u64 \<Rightarrow> user_program"
  | Sys_Exit
  | Wait u64 user_program
  | Print "char list" user_program
  | Ended

definition as_int :: "u64 \<Rightarrow> int" where "as_int v = sint (ucast v :: u32)"

section \<open>Lesson 6: user.c\<close>

text \<open>
  \<open>loop\<close>: the character number \<open>i\<close> is to be written, or has been and the delay follows.
  \<open>buf\<close> is the character and the zero byte after it.
\<close>

definition next_index :: "nat \<Rightarrow> nat" where "next_index i = (if Suc i < 5 then Suc i else 0)"

primcorec loop_at :: "char list \<Rightarrow> u64 \<Rightarrow> bool \<Rightarrow> nat \<Rightarrow> user_program" where
  "loop_at str ticks pausing i =
     (if pausing then Wait ticks (loop_at str ticks False (next_index i))
      else Sys_Write [str ! i, NUL] (loop_at str ticks True i))"

definition loop :: "char list \<Rightarrow> user_program" where
  "loop str = loop_at str 1000000 False 0"

definition user_process :: user_program where
  "user_process = Sys_Write (c_string (''User process'' @ crlf) [])
     (Sys_Fork (\<lambda>x0. let pid = as_int x0
       in if pid < 0 then Sys_Write (c_string (''Error during fork'' @ crlf) []) Sys_Exit
          else if pid = 0 then loop (c_string ''abcde'' []) else loop (c_string ''12345'' [])))"

section \<open>Lesson 5: kernel.c\<close>

definition user_process1 :: "char list \<Rightarrow> user_program" where
  "user_process1 array = loop_at array 100000 False 0"

text \<open>
  \<open>call_sys_clone\<close> of \<open>sys.S\<close>: the system call returns in both tasks; the one that gets 0 goes to
  \<open>thread_start\<close> and runs the function, given here with its argument. The functions the code
  clones never return, so that the \<open>exit\<close> after the call is not reached.
\<close>

definition call_sys_clone :: "user_program \<Rightarrow> u64 \<Rightarrow> (u64 \<Rightarrow> user_program) \<Rightarrow> user_program" where
  "call_sys_clone thread stack k = Sys_Clone stack (\<lambda>x0. if x0 = 0 then thread else k x0)"

text \<open>\<open>stack < 0\<close> compares an unsigned number.\<close>

definition lfcr :: "char list" where "lfcr = [CHR 0x0A, CHR 0x0D]"

definition user_process_l5 :: user_program where
  "user_process_l5 = Sys_Write (c_string (''User process started'' @ lfcr) [])
     (Sys_Malloc (\<lambda>stack. if uint stack < 0
       then Print (''Errpr while allocationg stack for process 1'' @ lfcr) Ended
       else call_sys_clone (user_process1 (c_string ''123456'' [])) stack (\<lambda>err. if as_int err < 0
         then Print (''Error while clonning process1'' @ lfcr) Ended
         else Sys_Malloc (\<lambda>stack. if uint stack < 0
           then Print (''Error while allocating stack for process 2'' @ lfcr) Ended
           else call_sys_clone (user_process1 (c_string ''abcd'' [])) stack (\<lambda>err. if as_int err < 0
             then Print (''Error while clonning process 2'' @ lfcr) Ended
             else Sys_Exit)))))"

section \<open>What a program does\<close>

datatype user_call = Wrote "char list" | Allocated | Cloned u64 | Forked | Exited
  | Waited u64 | Printed "char list" | Stopped

text \<open>The first calls of a program, for the values the calls return one after the other.\<close>

primrec calls :: "nat \<Rightarrow> u64 list \<Rightarrow> user_program \<Rightarrow> user_call list" where
  "calls 0 vs p = []"
| "calls (Suc n) vs p =
     (case p of
        Sys_Write b q \<Rightarrow> Wrote b # calls n vs q
      | Sys_Malloc k \<Rightarrow> Allocated # calls n (tl vs) (k (hd vs))
      | Sys_Clone st k \<Rightarrow> Cloned st # calls n (tl vs) (k (hd vs))
      | Sys_Fork k \<Rightarrow> Forked # calls n (tl vs) (k (hd vs))
      | Sys_Exit \<Rightarrow> [Exited]
      | Wait t q \<Rightarrow> Waited t # calls n vs q
      | Print s q \<Rightarrow> Printed s # calls n vs q
      | Ended \<Rightarrow> [Stopped])"

text \<open>The text that the writes of a program put out: each buffer up to its zero byte.\<close>

fun output_text :: "user_call list \<Rightarrow> char list" where
  "output_text [] = []"
| "output_text (Wrote b # cs) = takeWhile (\<lambda>c. c \<noteq> NUL) b @ output_text cs"
| "output_text (Printed s # cs) = s @ output_text cs"
| "output_text (_ # cs) = output_text cs"

lemma loop_turn:
  assumes "i < 5"
  shows "calls (Suc (Suc n)) vs (loop_at str ticks False i) =
    [Wrote [str ! i, NUL], Waited ticks] @ calls n vs (loop_at str ticks False (next_index i))"
  by (simp add: loop_at.code [of str ticks False i] loop_at.code [of str ticks True i])

text \<open>One pass over the five characters.\<close>

lemma loop_pass:
  "calls (10 + n) vs (loop_at str ticks False 0) =
    concat (map (\<lambda>i. [Wrote [str ! i, NUL], Waited ticks]) [0..<5]) @ calls n vs (loop_at str ticks False 0)"
proof -
  have "[0..<5] = [0, 1, 2, 3, 4 :: nat]" by (simp add: upt_rec)
  moreover have "calls (10 + n) vs p = calls (Suc (Suc (Suc (Suc (Suc (Suc (Suc (Suc (Suc (Suc n)))))))))) vs p" for p
    by (simp add: numeral_eq_Suc)
  ultimately show ?thesis
    by (simp only: loop_turn) (simp del: calls.simps add: loop_turn next_index_def numeral_eq_Suc)
qed

lemma output_text_append: "output_text (as @ bs) = output_text as @ output_text bs"
  by (induction as rule: output_text.induct) simp_all

lemma loop_output:
  "output_text (calls (10 * n) vs (loop_at str ticks False 0)) =
    concat (replicate n (concat (map (\<lambda>i. if str ! i = NUL then [] else [str ! i]) [0..<5])))"
proof (induction n)
  case (Suc n)
  have "10 * Suc n = 10 + 10 * n" by simp
  then have "output_text (calls (10 * Suc n) vs (loop_at str ticks False 0)) =
      output_text (concat (map (\<lambda>i. [Wrote [str ! i, NUL], Waited ticks]) [0..<5])) @
      output_text (calls (10 * n) vs (loop_at str ticks False 0))"
    by (simp only: loop_pass output_text_append)
  also have "output_text (concat (map (\<lambda>i. [Wrote [str ! i, NUL], Waited ticks]) [0..<5])) =
      concat (map (\<lambda>i. if str ! i = NUL then [] else [str ! i]) [0..<5])"
    by (simp add: upt_rec)
  finally show ?case using Suc by simp
qed simp

lemma upt_5: "[0..<5] = [0, 1, 2, 3, 4 :: nat]"
  by (simp add: upt_rec)

lemma loop_texts:
  "output_text (calls (10 * n) vs (loop (c_string ''abcde'' []))) = concat (replicate n ''abcde'')"
  "output_text (calls (10 * n) vs (loop (c_string ''12345'' []))) = concat (replicate n ''12345'')"
  "output_text (calls (10 * n) vs (user_process1 (c_string ''123456'' []))) = concat (replicate n ''12345'')"
  "output_text (calls (10 * n) vs (user_process1 (c_string ''abcd'' []))) = concat (replicate n ''abcd'')"
  by (simp_all only: loop_def user_process1_def loop_output upt_5) (simp_all add: c_string_def)

text \<open>Lesson 5, up to the two clones.\<close>

lemma user_process_l5_calls:
  "calls (7 + n) (a # e1 # b # e2 # vs) user_process_l5 =
      [Wrote (c_string (''User process started'' @ lfcr) []), Allocated, Cloned a] @
      (if e1 = 0 then calls (4 + n) (b # e2 # vs) (user_process1 (c_string ''123456'' []))
       else if as_int e1 < 0 then [Printed (''Error while clonning process1'' @ lfcr), Stopped]
       else [Allocated, Cloned b] @
         (if e2 = 0 then calls (2 + n) vs (user_process1 (c_string ''abcd'' []))
          else if as_int e2 < 0 then [Printed (''Error while clonning process 2'' @ lfcr), Stopped]
          else [Exited]))"
proof -
  define two where "two = Sys_Malloc (\<lambda>stack. if uint stack < 0
           then Print (''Error while allocating stack for process 2'' @ lfcr) Ended
           else call_sys_clone (user_process1 (c_string ''abcd'' [])) stack (\<lambda>err. if as_int err < 0
             then Print (''Error while clonning process 2'' @ lfcr) Ended
             else Sys_Exit))"
  have one: "calls (Suc (Suc (Suc m))) (a # e1 # us) user_process_l5 =
      [Wrote (c_string (''User process started'' @ lfcr) []), Allocated, Cloned a] @
      calls m us (if e1 = 0 then user_process1 (c_string ''123456'' [])
        else if as_int e1 < 0 then Print (''Error while clonning process1'' @ lfcr) Ended else two)" for m us
    by (simp add: user_process_l5_def call_sys_clone_def two_def)
  have two: "calls (Suc (Suc m)) (b # e2 # us) two = [Allocated, Cloned b] @
      calls m us (if e2 = 0 then user_process1 (c_string ''abcd'' [])
        else if as_int e2 < 0 then Print (''Error while clonning process 2'' @ lfcr) Ended else Sys_Exit)" for m us
    by (simp add: call_sys_clone_def two_def)
  have more: "7 + n = Suc (Suc (Suc (4 + n)))" "4 + n = Suc (Suc (2 + n))" "2 + n = Suc (Suc n)" by simp_all
  have "calls (4 + n) us (Print t Ended) = [Printed t, Stopped]" "calls (2 + n) us (Print t Ended) = [Printed t, Stopped]"
    "calls (2 + n) us Sys_Exit = [Exited]" for us t
    unfolding more by simp_all
  moreover have "calls (4 + n) (b # e2 # vs) two = [Allocated, Cloned b] @
    calls (2 + n) vs (if e2 = 0 then user_process1 (c_string ''abcd'' [])
      else if as_int e2 < 0 then Print (''Error while clonning process 2'' @ lfcr) Ended else Sys_Exit)"
    unfolding more(2) by (rule two)
  ultimately show ?thesis
    unfolding more(1) one by (simp only: if_split_asm split: if_split) simp
qed


end
