(* ===== verification/Boot.thy ===== *)
theory Boot
  imports Address_Space
begin

text \<open>
  The way from reset to \<open>kernel_main\<close> (\<open>boot.S\<close> of the six lessons, with \<open>arm/sysregs.h\<close>
  and the rest of \<open>arm/mmu.h\<close>): the system registers, the descent from EL3 to EL1, the
  clearing of the bss and, in lesson 6, the page tables of the kernel's linear map.

  The MMU is still off, so memory is physical memory here. The linear map that the other
  theories take for granted in \<open>mmu_translate\<close> is shown at the end to be the one the tables
  built here give.
\<close>

unbundle bit_operations_syntax

section \<open>System registers\<close>

definition SCTLR_RESERVED :: u64 where
  "SCTLR_RESERVED = push_bit 28 3 OR push_bit 22 3 OR push_bit 20 1 OR push_bit 11 1"
definition SCTLR_EE_LITTLE_ENDIAN :: u64 where "SCTLR_EE_LITTLE_ENDIAN = push_bit 25 0"
definition SCTLR_I_CACHE_DISABLED :: u64 where "SCTLR_I_CACHE_DISABLED = push_bit 12 0"
definition SCTLR_D_CACHE_DISABLED :: u64 where "SCTLR_D_CACHE_DISABLED = push_bit 2 0"
definition SCTLR_MMU_DISABLED :: u64 where "SCTLR_MMU_DISABLED = push_bit 0 0"
definition SCTLR_MMU_ENABLED :: u64 where "SCTLR_MMU_ENABLED = push_bit 0 1"
definition SCTLR_VALUE_MMU_DISABLED :: u64 where
  "SCTLR_VALUE_MMU_DISABLED = SCTLR_RESERVED OR SCTLR_EE_LITTLE_ENDIAN OR
     SCTLR_I_CACHE_DISABLED OR SCTLR_D_CACHE_DISABLED OR SCTLR_MMU_DISABLED"

definition HCR_RW :: u64 where "HCR_RW = push_bit 31 1"
definition HCR_VALUE :: u64 where "HCR_VALUE = HCR_RW"

definition SCR_RESERVED :: u64 where "SCR_RESERVED = push_bit 4 3"
definition SCR_RW :: u64 where "SCR_RW = push_bit 10 1"
definition SCR_NS :: u64 where "SCR_NS = push_bit 0 1"
definition SCR_VALUE :: u64 where "SCR_VALUE = SCR_RESERVED OR SCR_RW OR SCR_NS"

definition SPSR_MASK_ALL :: u64 where "SPSR_MASK_ALL = push_bit 6 7"
definition SPSR_EL1h :: u64 where "SPSR_EL1h = push_bit 0 5"
definition SPSR_VALUE :: u64 where "SPSR_VALUE = SPSR_MASK_ALL OR SPSR_EL1h"

definition MT_DEVICE_nGnRnE_FLAGS :: u64 where "MT_DEVICE_nGnRnE_FLAGS = 0x00"
definition MT_NORMAL_NC_FLAGS :: u64 where "MT_NORMAL_NC_FLAGS = 0x44"
definition MAIR_VALUE :: u64 where
  "MAIR_VALUE = push_bit (unat (8 * MT_DEVICE_nGnRnE)) MT_DEVICE_nGnRnE_FLAGS OR
     push_bit (unat (8 * MT_NORMAL_NC)) MT_NORMAL_NC_FLAGS"

definition TCR_T0SZ :: u64 where "TCR_T0SZ = 64 - 48"
definition TCR_T1SZ :: u64 where "TCR_T1SZ = push_bit 16 (64 - 48)"
definition TCR_TG0_4K :: u64 where "TCR_TG0_4K = push_bit 14 0"
definition TCR_TG1_4K :: u64 where "TCR_TG1_4K = push_bit 30 2"
definition TCR_VALUE :: u64 where
  "TCR_VALUE = TCR_T0SZ OR TCR_T1SZ OR TCR_TG0_4K OR TCR_TG1_4K"

named_theorems sysreg_defs

lemmas sysreg_values [sysreg_defs] =
  SCTLR_RESERVED_def SCTLR_EE_LITTLE_ENDIAN_def SCTLR_I_CACHE_DISABLED_def
  SCTLR_D_CACHE_DISABLED_def SCTLR_MMU_DISABLED_def SCTLR_MMU_ENABLED_def
  SCTLR_VALUE_MMU_DISABLED_def HCR_RW_def HCR_VALUE_def SCR_RESERVED_def SCR_RW_def SCR_NS_def
  SCR_VALUE_def SPSR_MASK_ALL_def SPSR_EL1h_def SPSR_VALUE_def MT_DEVICE_nGnRnE_FLAGS_def
  MT_NORMAL_NC_FLAGS_def MAIR_VALUE_def MT_DEVICE_nGnRnE_def MT_NORMAL_NC_def TCR_T0SZ_def
  TCR_T1SZ_def TCR_TG0_4K_def TCR_TG1_4K_def TCR_VALUE_def

section \<open>The machine\<close>

text \<open>The registers \<open>boot.S\<close> writes, and physical memory.\<close>

record machine =
  mpidr_el1 :: u64
  sctlr_el1 :: u64
  hcr_el2 :: u64
  scr_el3 :: u64
  spsr_el3 :: u64
  elr_el3 :: addr
  pstate_now :: u64
  pc_now :: addr
  sp_now :: addr
  ttbr1_el1 :: addr
  tcr_el1 :: u64
  mair_el1 :: u64
  phys_mem :: memory

text \<open>
  The addresses the linker gives. The symbols read with \<open>adr\<close> and \<open>adrp\<close> are relative to
  the program counter, so they are physical while the MMU is off; \<open>=kernel_main\<close> is the
  address linked.
\<close>

record boot_image =
  bss_begin :: addr
  bss_end :: addr
  pg_dir :: addr
  el1_entry_at :: addr
  kernel_main_at :: addr

datatype boot_end = Proc_Hang machine | Kernel_Main_Entered machine

definition eret :: "machine \<Rightarrow> machine" where
  "eret c = c\<lparr>pstate_now := spsr_el3 c, pc_now := elr_el3 c\<rparr>"

text \<open>\<open>master\<close>: leave EL3 for EL1.\<close>

definition master :: "boot_image \<Rightarrow> machine \<Rightarrow> machine" where
  "master img c =
     (let c = c\<lparr>sctlr_el1 := SCTLR_VALUE_MMU_DISABLED\<rparr>;
          c = c\<lparr>hcr_el2 := HCR_VALUE\<rparr>;
          c = c\<lparr>scr_el3 := SCR_VALUE\<rparr>;
          c = c\<lparr>spsr_el3 := SPSR_VALUE\<rparr>;
          c = c\<lparr>elr_el3 := el1_entry_at img\<rparr>
      in eret c)"

definition clear_bss :: "boot_image \<Rightarrow> machine \<Rightarrow> machine" where
  "clear_bss img c =
     (let x0 = bss_begin img; x1 = bss_end img; x1 = x1 - x0
      in c\<lparr>phys_mem := memzero x0 x1 (phys_mem c)\<rparr>)"

text \<open>The first lessons run the kernel at physical addresses.\<close>

definition start_l1 :: "boot_image \<Rightarrow> machine \<Rightarrow> boot_end" where
  "start_l1 img c =
     (if mpidr_el1 c AND 0xFF = 0
      then let c = clear_bss img c;
               c = c\<lparr>sp_now := LOW_MEMORY\<rparr>
           in Kernel_Main_Entered (c\<lparr>pc_now := kernel_main_at img\<rparr>)
      else Proc_Hang c)"

definition el1_entry_l2 :: "boot_image \<Rightarrow> machine \<Rightarrow> machine" where
  "el1_entry_l2 img c =
     (let c = clear_bss img c;
          c = c\<lparr>sp_now := LOW_MEMORY\<rparr>
      in c\<lparr>pc_now := kernel_main_at img\<rparr>)"

definition start_l2 :: "boot_image \<Rightarrow> machine \<Rightarrow> boot_end" where
  "start_l2 img c =
     (if mpidr_el1 c AND 0xFF = 0
      then Kernel_Main_Entered (el1_entry_l2 img (master img c))
      else Proc_Hang c)"

definition start_l5 :: "boot_image \<Rightarrow> machine \<Rightarrow> boot_end" where
  "start_l5 img c =
     (if mpidr_el1 c AND 0xFF = 0
      then let c = master img c;
               c = clear_bss img c;
               c = c\<lparr>sp_now := LOW_MEMORY\<rparr>
           in Kernel_Main_Entered (c\<lparr>pc_now := kernel_main_at img\<rparr>)
      else Proc_Hang c)"

section \<open>The kernel's page tables\<close>

text \<open>\<open>create_table_entry tbl, virt, shift, tmp1, tmp2\<close>: gives the next level's table back in
  \<open>tbl\<close>.\<close>

definition create_table_entry :: "addr \<Rightarrow> addr \<Rightarrow> nat \<Rightarrow> memory \<Rightarrow> addr \<times> memory" where
  "create_table_entry tbl virt shift m =
     (let tmp1 = drop_bit shift virt;
          tmp1 = tmp1 AND (PTRS_PER_TABLE - 1);
          tmp2 = tbl + PAGE_SIZE;
          tmp2 = tmp2 OR MM_TYPE_PAGE_TABLE;
          m = m(tbl + push_bit 3 tmp1 := tmp2)
      in (tbl + PAGE_SIZE, m))"

definition create_pgd_entry :: "addr \<Rightarrow> addr \<Rightarrow> memory \<Rightarrow> addr \<times> memory" where
  "create_pgd_entry tbl virt m =
     (case create_table_entry tbl virt PGD_SHIFT m of (tbl, m) \<Rightarrow>
        create_table_entry tbl virt PUD_SHIFT m)"

text \<open>
  The loop at \<open>9999\<close> stores before it compares, and compares unsigned: it would not end for
  an \<open>end\<close> of all ones.
\<close>

partial_function (option) block_loop ::
    "addr \<Rightarrow> u64 \<Rightarrow> u64 \<Rightarrow> u64 \<Rightarrow> memory \<Rightarrow> memory option" where
  "block_loop tbl start fin phys m =
     (let m = m(tbl + push_bit 3 start := phys);
          start = start + 1;
          phys = phys + SECTION_SIZE
      in if start \<le> fin then block_loop tbl start fin phys m else Some m)"

definition create_block_map ::
    "addr \<Rightarrow> u64 \<Rightarrow> addr \<Rightarrow> addr \<Rightarrow> u64 \<Rightarrow> memory \<Rightarrow> memory option" where
  "create_block_map tbl phys start fin attrs m =
     (let start = drop_bit SECTION_SHIFT start;
          start = start AND (PTRS_PER_TABLE - 1);
          fin = drop_bit SECTION_SHIFT fin;
          fin = fin AND (PTRS_PER_TABLE - 1);
          phys = drop_bit SECTION_SHIFT phys;
          tmp1 = attrs;
          phys = tmp1 OR push_bit SECTION_SHIFT phys
      in block_loop tbl start fin phys m)"

definition create_page_tables :: "addr \<Rightarrow> memory \<Rightarrow> memory option" where
  "create_page_tables dir m =
     (let x0 = dir AND NOT (mask 12);
          m = memzero x0 PG_DIR_SIZE m
      in case create_pgd_entry x0 VA_START m of (x0, m) \<Rightarrow>
         (case create_block_map x0 0 VA_START (VA_START + DEVICE_BASE - SECTION_SIZE) MMU_FLAGS m of
            None \<Rightarrow> None
          | Some m \<Rightarrow>
              create_block_map x0 DEVICE_BASE (VA_START + DEVICE_BASE)
                (VA_START + PHYS_MEMORY_SIZE - SECTION_SIZE) MMU_DEVICE_FLAGS m))"

definition el1_entry :: "boot_image \<Rightarrow> machine \<Rightarrow> machine option" where
  "el1_entry img c =
     (let c = clear_bss img c
      in case create_page_tables (pg_dir img) (phys_mem c) of
           None \<Rightarrow> None
         | Some m \<Rightarrow>
             (let c = c\<lparr>phys_mem := m\<rparr>;
                  x0 = VA_START;
                  c = c\<lparr>sp_now := x0 + LOW_MEMORY\<rparr>;
                  x0 = pg_dir img AND NOT (mask 12);
                  c = c\<lparr>ttbr1_el1 := x0\<rparr>;
                  c = c\<lparr>tcr_el1 := TCR_VALUE\<rparr>;
                  c = c\<lparr>mair_el1 := MAIR_VALUE\<rparr>;
                  x2 = kernel_main_at img;
                  c = c\<lparr>sctlr_el1 := SCTLR_MMU_ENABLED\<rparr>
              in Some (c\<lparr>pc_now := x2\<rparr>)))"

definition start :: "boot_image \<Rightarrow> machine \<Rightarrow> boot_end option" where
  "start img c =
     (if mpidr_el1 c AND 0xFF = 0
      then map_option Kernel_Main_Entered (el1_entry img (master img c))
      else Some (Proc_Hang c))"

section \<open>The tables built\<close>

lemma push_bit_3: "push_bit 3 x = 8 * (x :: u64)"
  by (simp add: push_bit_eq_mult)

text \<open>The loop ends for every masked index, and leaves a run of consecutive blocks.\<close>

lemma block_loop_run:
  "i \<le> e \<Longrightarrow> e < 512 \<Longrightarrow>
   block_loop tbl (word_of_nat i) (word_of_nat e) p m =
     Some (store_words (tbl + 8 * word_of_nat i)
       (map (\<lambda>k. p + word_of_nat k * SECTION_SIZE) [0..<Suc e - i]) m)"
proof (induction "e - i" arbitrary: i p m)
  case 0
  then have [simp]: "e = i" by simp
  have "\<not> (word_of_nat i + 1 :: u64) \<le> word_of_nat i"
    using 0 by (simp add: word_le_nat_alt unat_word_ariths unat_of_nat)
  then show ?case by (subst block_loop.simps) (simp add: Let_def push_bit_3)
next
  case (Suc d)
  have le: "(word_of_nat i + 1 :: u64) \<le> word_of_nat e"
    using Suc by (simp add: word_le_nat_alt unat_word_ariths unat_of_nat)
  have i: "word_of_nat i + 1 = (word_of_nat (Suc i) :: u64)" by simp
  have run: "map (\<lambda>k. p + word_of_nat k * SECTION_SIZE) [0..<Suc e - i] =
      p # map (\<lambda>k. p + SECTION_SIZE + word_of_nat k * SECTION_SIZE) [0..<Suc e - Suc i]"
    using Suc by (intro nth_equalityI) (auto simp: nth_Cons algebra_simps split: nat.split)
  have "block_loop tbl (word_of_nat (Suc i)) (word_of_nat e) (p + SECTION_SIZE)
      (m(tbl + 8 * word_of_nat i := p)) =
    Some (store_words (tbl + 8 * word_of_nat (Suc i))
       (map (\<lambda>k. p + SECTION_SIZE + word_of_nat k * SECTION_SIZE) [0..<Suc e - Suc i])
       (m(tbl + 8 * word_of_nat i := p)))"
    using Suc by (intro Suc.hyps(1)) simp_all
  moreover have "block_loop tbl (word_of_nat i) (word_of_nat e) p m =
      block_loop tbl (word_of_nat (Suc i)) (word_of_nat e) (p + SECTION_SIZE)
        (m(tbl + 8 * word_of_nat i := p))"
    using le by (subst block_loop.simps) (simp add: Let_def push_bit_3 add.commute)
  moreover have "tbl + 8 * word_of_nat (Suc i) = tbl + 8 * word_of_nat i + 8"
    by (simp add: algebra_simps)
  ultimately show ?case by (simp only: run store_words.simps)
qed

text \<open>The entries of the last table: sections of normal memory, then of devices.\<close>

definition block_entry :: "nat \<Rightarrow> u64" where
  "block_entry i = word_of_nat i * SECTION_SIZE +
     (if i < 504 then MMU_FLAGS else MMU_DEVICE_FLAGS)"

lemma create_blocks:
  "create_block_map tbl 0 VA_START (VA_START + DEVICE_BASE - SECTION_SIZE) MMU_FLAGS m =
     Some (store_words tbl (map block_entry [0..<504]) m)"
  "create_block_map tbl DEVICE_BASE (VA_START + DEVICE_BASE)
      (VA_START + PHYS_MEMORY_SIZE - SECTION_SIZE) MMU_DEVICE_FLAGS m =
     Some (store_words (tbl + 8 * word_of_nat 504) (map block_entry [504..<512]) m)"
proof -
  have "map block_entry [0..<504] = map (\<lambda>k. MMU_FLAGS + word_of_nat k * SECTION_SIZE) [0..<Suc 503 - 0]"
    by (intro map_cong) (auto simp: block_entry_def)
  then have run: "map block_entry [0..<504] = map (\<lambda>k. MMU_FLAGS + word_of_nat k * SECTION_SIZE) [0..<504]"
    by simp
  show "create_block_map tbl 0 VA_START (VA_START + DEVICE_BASE - SECTION_SIZE) MMU_FLAGS m =
     Some (store_words tbl (map block_entry [0..<504]) m)"
    using block_loop_run [of 0 503 tbl MMU_FLAGS m] unfolding run
    by (simp add: create_block_map_def layout_defs descriptor_values Let_def del: upt_Suc)
  have "map block_entry [504..<512] = map (\<lambda>k. (MMU_DEVICE_FLAGS OR DEVICE_BASE) + word_of_nat k * SECTION_SIZE) [0..<Suc 511 - 504]"
    by (simp add: upt_rec block_entry_def layout_defs descriptor_values)
  then show "create_block_map tbl DEVICE_BASE (VA_START + DEVICE_BASE)
      (VA_START + PHYS_MEMORY_SIZE - SECTION_SIZE) MMU_DEVICE_FLAGS m =
     Some (store_words (tbl + 8 * word_of_nat 504) (map block_entry [504..<512]) m)"
    using block_loop_run [of 504 511 tbl "MMU_DEVICE_FLAGS OR DEVICE_BASE" m]
    by (simp add: create_block_map_def layout_defs descriptor_values Let_def del: upt_Suc)
qed

lemma VA_START_index:
  "drop_bit PGD_SHIFT VA_START AND (PTRS_PER_TABLE - 1) = 0"
  "drop_bit PUD_SHIFT VA_START AND (PTRS_PER_TABLE - 1) = 0"
  by (simp_all add: layout_defs drop_bit_eq_div)

lemma create_first_entry:
  "drop_bit shift virt AND (PTRS_PER_TABLE - 1) = 0 \<Longrightarrow>
   create_table_entry tbl virt shift m =
     (tbl + PAGE_SIZE, m(tbl := (tbl + PAGE_SIZE) OR MM_TYPE_PAGE_TABLE))"
  by (simp only: create_table_entry_def Let_def) simp

lemma create_page_tables_run:
  assumes "page_aligned dir"
  shows "create_page_tables dir m =
    Some (store_words (dir + 0x2000) (map block_entry [0..<512])
      ((store_words dir (replicate 1536 0) m)
        (dir := (dir + 0x1000) OR 3, dir + 0x1000 := (dir + 0x2000) OR 3)))"
proof -
  have al: "dir AND NOT (mask 12) = dir"
    using page_aligned_bits [OF assms] by (auto intro!: bit_word_eqI simp: bit_simps)
  have zero: "memzero dir PG_DIR_SIZE m = store_words dir (replicate 1536 0) m"
    by (simp add: memzero_store_words layout_defs rounds_def)
  have pgd: "create_pgd_entry dir VA_START m' =
      (dir + 0x2000, m'(dir := (dir + 0x1000) OR 3, dir + 0x1000 := (dir + 0x2000) OR 3))" for m'
    by (simp add: create_pgd_entry_def create_first_entry VA_START_index)
      (simp add: layout_defs MM_TYPE_PAGE_TABLE_def add.commute)
  have "map block_entry [0..<504] @ map block_entry [504..<512] = map block_entry [0..<512]"
    unfolding map_append [symmetric] using upt_add_eq_append [of 0 504 8] by simp
  then have blocks: "store_words (dir + 0x2000 + 8 * word_of_nat 504) (map block_entry [504..<512])
      (store_words (dir + 0x2000) (map block_entry [0..<504]) m') =
    store_words (dir + 0x2000) (map block_entry [0..<512]) m'" for m'
    using store_words_append [of "dir + 0x2000" "map block_entry [0..<504]" "map block_entry [504..<512]", symmetric]
    by (simp only: length_map length_upt) simp
  show ?thesis
    by (simp only: create_page_tables_def al Let_def zero pgd create_blocks blocks
        prod.case option.case)
qed

text \<open>What the three pages hold afterwards.\<close>

lemma create_page_tables_entries:
  assumes al: "page_aligned dir"
  obtains m' where "create_page_tables dir m = Some m'"
    and "m' dir = (dir + 0x1000) OR 3" and "m' (dir + 0x1000) = (dir + 0x2000) OR 3"
    and "\<And>i. i < 1024 \<Longrightarrow> i \<noteq> 0 \<Longrightarrow> i \<noteq> 512 \<Longrightarrow> m' (dir + 8 * word_of_nat i) = 0"
    and "\<And>i. i < 512 \<Longrightarrow> m' (dir + 0x2000 + 8 * word_of_nat i) = block_entry i"
    and "\<And>a. \<forall>i < 1536. a \<noteq> dir + 8 * word_of_nat i \<Longrightarrow> m' a = m a"
proof
  let ?z = "store_words dir (replicate 1536 0) m"
  let ?t = "?z(dir := (dir + 0x1000) OR 3, dir + 0x1000 := (dir + 0x2000) OR 3)"
  let ?m = "store_words (dir + 0x2000) (map block_entry [0..<512]) ?t"
  show "create_page_tables dir m = Some ?m" by (rule create_page_tables_run [OF al])
  have word: "dir + 0x1000 = dir + 8 * word_of_nat 512" "dir = dir + 8 * word_of_nat 0"
    "dir + 0x2000 + 8 * word_of_nat i = dir + 8 * word_of_nat (1024 + i)" for i
    by (simp_all add: algebra_simps)
  have inj: "dir + 8 * word_of_nat i = dir + 8 * word_of_nat j \<longleftrightarrow> i = j"
    if "i < 1536" "j < 1536" for i j
    using that by (simp add: word_mult8_inj)
  have below: "?m a = ?t a" if "\<forall>i < 512. a \<noteq> dir + 8 * word_of_nat (1024 + i)" for a
    using that by (intro store_words_outside) (simp only: word(3) length_map length_upt not_False_eq_True)
  have low: "?m (dir + 8 * word_of_nat i) = ?t (dir + 8 * word_of_nat i)" if "i < 1024" for i
    using that by (intro below allI impI) (subst inj, simp_all)
  have z: "?z (dir + 8 * word_of_nat i) = 0" if "i < 1024" for i
    using that by (subst store_words_inside) simp_all
  have upd: "?t (dir + 8 * word_of_nat i) =
      (if i = 512 then (dir + 0x2000) OR 3 else if i = 0 then (dir + 0x1000) OR 3 else 0)"
    if "i < 1024" for i
  proof -
    have "dir + 8 * word_of_nat i = dir + 0x1000 \<longleftrightarrow> i = 512"
      unfolding word(1) using that by (intro inj) simp_all
    moreover have "dir + 8 * word_of_nat i = dir \<longleftrightarrow> i = 0"
      using inj [of i 0] that by simp
    ultimately show ?thesis using z [OF that] by (simp only: fun_upd_apply if_True if_False split: if_split)
  qed
  show "?m dir = (dir + 0x1000) OR 3"
    using low [of 0] upd [of 0] by simp
  show "?m (dir + 0x1000) = (dir + 0x2000) OR 3"
    using low [of 512] upd [of 512] by simp
  show "?m (dir + 8 * word_of_nat i) = 0" if "i < 1024" "i \<noteq> 0" "i \<noteq> 512" for i
    using low [OF that(1)] upd [OF that(1)] that(2,3) by simp
  show "?m (dir + 0x2000 + 8 * word_of_nat i) = block_entry i" if "i < 512" for i
    using that by (subst store_words_inside) simp_all
  show "?m a = m a" if "\<forall>i < 1536. a \<noteq> dir + 8 * word_of_nat i" for a
  proof -
    have "a \<noteq> dir + 8 * word_of_nat (1024 + i)" if "i < 512" for i
      using \<open>\<forall>i < 1536. _ i\<close> [rule_format, of "1024 + i"] that by (simp only:) simp
    then have "?m a = ?t a" by (intro below) blast
    also have "\<dots> = ?z a"
      using that [rule_format, of 0] that [rule_format, of 512] by simp
    also have "\<dots> = m a" using that by (intro store_words_outside) simp
    finally show ?thesis .
  qed
qed

section \<open>What the hardware makes of them\<close>

lemma bit_3_iff: "bit (3 :: u64) n \<longleftrightarrow> n < 2"
proof -
  have "(3 :: u64) = mask 2" by (simp add: mask_eq_exp_minus_1)
  then show ?thesis by (simp only: bit_mask_iff) auto
qed

lemma next_table:
  assumes "page_aligned p" "p < 2 ^ 48"
  shows "output_address PAGE_SHIFT (p OR 3) = p" and "(p OR 3) AND 1 \<noteq> 0" and "(p OR 3) AND 2 \<noteq> 0"
proof -
  show "output_address PAGE_SHIFT (p OR 3) = p"
  proof (rule bit_word_eqI)
    fix n
    have "\<not> bit p n" if "n < 12 \<or> 48 \<le> n"
      using that page_aligned_bits [OF assms(1)] less_bits [OF assms(2)] by blast
    moreover have "\<not> bit (3 :: u64) n" if "\<not> n < 12" using that by (simp only: bit_3_iff)
    ultimately show "bit (output_address PAGE_SHIFT (p OR 3)) n = bit p n"
      unfolding output_address_def layout_defs bit_and_iff bit_or_iff bit_not_iff bit_mask_iff
      by (cases "n < 12 \<or> 48 \<le> n") (auto dest: bit_imp_le_length)
  qed
  have "bit ((p OR 3) AND 1) 0" "bit ((p OR 3) AND 2) 1" by (simp_all add: bit_simps)
  then show "(p OR 3) AND 1 \<noteq> 0" "(p OR 3) AND 2 \<noteq> 0" by auto
qed

lemma block_entry_bits:
  assumes "i < 512"
  shows "block_entry i = push_bit 21 (word_of_nat i) OR (if i < 504 then 0x405 else 0x401)"
proof -
  have "push_bit 21 (word_of_nat i) + c = push_bit 21 (word_of_nat i) OR c" if "c < 2 ^ 21" for c :: u64
  proof (intro disjunctive_add)
    fix n
    show "\<not> bit (push_bit 21 (word_of_nat i)) n \<or> \<not> bit c n"
      using less_bits [OF that, of n] by (cases "21 \<le> n") (simp_all add: bit_simps)
  qed
  then show ?thesis
    by (auto simp: block_entry_def layout_defs descriptor_values push_bit_eq_mult mult.commute)
qed

lemma block_descriptor:
  assumes i: "i < 512"
  shows "output_address SECTION_SHIFT (block_entry i) = push_bit 21 (word_of_nat i)"
    and "block_entry i AND 1 \<noteq> 0" and "block_entry i AND 2 = 0" and "block_entry i AND MM_ACCESS \<noteq> 0"
proof -
  define c :: u64 where "c = (if i < 504 then 0x405 else 0x401)"
  have e: "block_entry i = push_bit 21 (word_of_nat i) OR c"
    using block_entry_bits [OF i] by (simp add: c_def)
  have c21: "c < 2 ^ 21" by (simp add: c_def)
  have n9: "(word_of_nat i :: u64) < 2 ^ 9" using i by (simp add: word_less_nat_alt unat_of_nat)
  show "output_address SECTION_SHIFT (block_entry i) = push_bit 21 (word_of_nat i)"
  proof (rule bit_word_eqI)
    fix n
    have "\<not> bit c n" if "21 \<le> n" using less_bits [OF c21 that] .
    moreover have "\<not> bit (push_bit 21 (word_of_nat i) :: u64) n" if "n < 21 \<or> 30 \<le> n"
      using that less_bits [OF n9, of "n - 21"]
      by (cases "n < 21") (auto simp: bit_push_bit_iff le_diff_conv2)
    ultimately show "bit (output_address SECTION_SHIFT (block_entry i)) n =
        bit (push_bit 21 (word_of_nat i) :: u64) n"
      unfolding output_address_def layout_defs e bit_and_iff bit_or_iff bit_not_iff bit_mask_iff
      by (cases "n < 21 \<or> 30 \<le> n") (auto dest: bit_imp_le_length)
  qed
  have low: "push_bit 21 (word_of_nat i) AND d = (0 :: u64)" if "d < 2 ^ 21" for d
  proof (rule bit_word_eqI)
    fix n
    show "bit (push_bit 21 (word_of_nat i) AND d) n = bit (0 :: u64) n"
      using less_bits [OF that, of n] by (cases "21 \<le> n") (simp_all add: bit_simps)
  qed
  have flags: "block_entry i AND d = c AND d" if "d < 2 ^ 21" for d
    using low [OF that] by (simp add: e bit.conj_disj_distrib2)
  show "block_entry i AND 1 \<noteq> 0" "block_entry i AND 2 = 0" "block_entry i AND MM_ACCESS \<noteq> 0"
    by (simp_all add: flags MM_ACCESS_def) (simp_all add: c_def)
qed

lemma table_index_nat: "table_index k va = word_of_nat (unat va div 2 ^ k mod 512)"
proof -
  have "PTRS_PER_TABLE - 1 = (mask 9 :: u64)" by (simp add: layout_defs mask_eq_exp_minus_1)
  then have index: "table_index k va = take_bit 9 (drop_bit k va)"
    by (simp add: table_index_def take_bit_eq_mask)
  have "unat va < 2 ^ 64" using unsigned_less [of va] by simp
  then have "unat va mod 18446744073709551616 = unat va" by simp
  then have "unat (take_bit 9 (drop_bit k va)) = unat va div 2 ^ k mod 512"
    by (simp only: unsigned_take_bit_eq unsigned_drop_bit_eq)
      (simp add: take_bit_eq_mod drop_bit_eq_div)
  with index show ?thesis by (metis of_nat_unat ucast_id)
qed

lemma upper_half:
  assumes "VA_START \<le> va"
  shows "unat va = 65535 * 2 ^ 48 + unat (va - VA_START)" and "unat (va - VA_START) < 2 ^ 48"
proof -
  have "unat (va - VA_START) = unat va - unat VA_START"
    using assms by (simp add: unat_sub)
  moreover have "unat VA_START = 65535 * 2 ^ 48" by (simp add: layout_defs)
  moreover have "unat VA_START \<le> unat va" using assms by (simp add: word_le_nat_alt)
  moreover have "unat va < 2 ^ 64" using unsigned_less [of va] by simp
  ultimately show "unat va = 65535 * 2 ^ 48 + unat (va - VA_START)"
    "unat (va - VA_START) < 2 ^ 48" by simp_all
qed

lemma upper_index:
  assumes "VA_START \<le> va" "k \<le> 39"
  shows "table_index k va = word_of_nat (unat (va - VA_START) div 2 ^ k mod 512)"
proof -
  obtain j where j: "39 = k + j" using assms(2) le_Suc_ex by blast
  have "(65535 * 2 ^ 48 :: nat) = 512 * (65535 * 2 ^ 39)" by simp
  also have "\<dots> = 2 ^ k * (512 * (65535 * 2 ^ j))"
    by (simp only: j power_add mult_ac)
  finally have "unat va = 2 ^ k * (512 * (65535 * 2 ^ j)) + unat (va - VA_START)"
    using upper_half(1) [OF assms(1)] by (simp only:)
  moreover have "(2 ^ k * (512 * (65535 * 2 ^ j)) + unat (va - VA_START)) div 2 ^ k =
      512 * (65535 * 2 ^ j) + unat (va - VA_START) div 2 ^ k"
    by (rule div_mult_self4) simp
  moreover have "(512 * (65535 * 2 ^ j) + n) mod 512 = n mod 512" for n :: nat
    by (rule mod_mult_self4)
  ultimately have "unat va div 2 ^ k mod 512 = unat (va - VA_START) div 2 ^ k mod 512"
    by (simp only:)
  then show ?thesis by (simp only: table_index_nat)
qed

lemma walk_table:
  assumes "rd (tbl + 8 * table_index shift va) = p OR 3" "page_aligned p" "p < 2 ^ 48" "shifts \<noteq> []"
  shows "mmu_walk rd tbl (shift # shifts) va = mmu_walk rd p shifts va"
  using assms(1,4) next_table [OF assms(2,3)] by (simp add: Let_def)

lemma walk_block:
  assumes "rd (tbl + 8 * table_index SECTION_SHIFT va) = block_entry i" "i < 512"
  shows "mmu_walk rd tbl (SECTION_SHIFT # shifts) va =
    Some (push_bit 21 (word_of_nat i) OR (va AND mask 21))"
  using assms(1) block_descriptor [OF assms(2)] by (simp add: Let_def layout_defs)

lemma walk_invalid:
  "rd (tbl + 8 * table_index shift va) = 0 \<Longrightarrow> mmu_walk rd tbl (shift # shifts) va = None"
  by (simp add: Let_def)

text \<open>The section number and the offset in it make up the offset from \<open>VA_START\<close>.\<close>

lemma section_and_offset:
  assumes va: "VA_START \<le> va" and w: "va - VA_START < PHYS_MEMORY_SIZE"
  shows "push_bit 21 (word_of_nat (unat (va - VA_START) div 2 ^ 21 mod 512)) OR (va AND mask 21) =
    va - VA_START"
proof -
  define w where "w = va - VA_START"
  have less: "unat w < 2 ^ 30" using w by (simp add: w_def layout_defs word_less_nat_alt)
  have low: "unat (v AND mask 21) = unat v mod 2 ^ 21" for v :: u64
    by (simp only: unsigned_take_bit_eq flip: take_bit_eq_mask) (simp only: take_bit_eq_mod)
  have "unat (va AND mask 21) = unat va mod 2 ^ 21" by (rule low)
  also have "\<dots> = unat w mod 2 ^ 21"
    using upper_half(1) [OF va] by (simp add: w_def [symmetric] mod_add_eq [symmetric])
  also have "\<dots> = unat (w AND mask 21)" by (rule low [symmetric])
  finally have lo: "va AND mask 21 = w AND mask 21" by (rule unsigned_word_eqI)
  have "unat w mod 18446744073709551616 = unat w" using less by simp
  then have "unat (drop_bit 21 w) = unat w div 2 ^ 21"
    by (simp only: unsigned_drop_bit_eq) (simp add: take_bit_eq_mod drop_bit_eq_div)
  moreover have "unat w div 2 ^ 21 mod 512 = unat w div 2 ^ 21" using less by simp
  ultimately have "word_of_nat (unat w div 2 ^ 21 mod 512) = drop_bit 21 w"
    by (metis of_nat_unat ucast_id)
  then show ?thesis
    unfolding w_def [symmetric] lo
    by (auto intro!: bit_word_eqI simp: bit_simps)
qed

lemma kernel_walk:
  assumes al: "page_aligned dir" and dir: "unat dir + 0x3000 \<le> 2 ^ 48"
    and m: "m dir = (dir + 0x1000) OR 3" "m (dir + 0x1000) = (dir + 0x2000) OR 3"
    and zero: "\<And>i. i < 1024 \<Longrightarrow> i \<noteq> 0 \<Longrightarrow> i \<noteq> 512 \<Longrightarrow> m (dir + 8 * word_of_nat i) = 0"
    and blocks: "\<And>i. i < 512 \<Longrightarrow> m (dir + 0x2000 + 8 * word_of_nat i) = block_entry i"
    and va: "VA_START \<le> va"
  shows "mmu_walk m dir table_shifts va =
    (if va - VA_START < PHYS_MEMORY_SIZE then Some (va - VA_START) else None)"
proof -
  define w where "w = unat (va - VA_START)"
  have w: "w < 2 ^ 48" using upper_half(2) [OF va] by (simp add: w_def)
  have index: "table_index k va = word_of_nat (w div 2 ^ k mod 512)" if "k \<le> 39" for k
    unfolding w_def using va that by (rule upper_index)
  have next_page: "page_aligned (dir + c)" "dir + c < 2 ^ 48" if "c = 0x1000 \<or> c = 0x2000" for c
    using that al dir by (auto simp: page_aligned_def word_less_nat_alt unat_word_ariths)
  have top: "mmu_walk m dir table_shifts va =
      (if w < 2 ^ 39 then mmu_walk m (dir + 0x1000) [PUD_SHIFT, SECTION_SHIFT, PAGE_SHIFT] va else None)"
  proof (cases "w < 2 ^ 39")
    case True
    then have "table_index PGD_SHIFT va = 0" using index [of 39] by (simp add: layout_defs)
    then show ?thesis
      using True m(1) next_page [of "0x1000"] unfolding table_shifts_def
      by (subst walk_table) (simp_all add: layout_defs)
  next
    case False
    then have "w div 2 ^ 39 mod 512 \<noteq> 0" using w by simp
    then show ?thesis
      using False index [of 39] zero [of "w div 2 ^ 39 mod 512"] unfolding table_shifts_def
      by (subst walk_invalid) (simp_all add: layout_defs)
  qed
  show ?thesis
  proof (cases "w < 2 ^ 30")
    case True
    then have "table_index PUD_SHIFT va = 0" using index [of 30] by (simp add: layout_defs)
    then have "mmu_walk m (dir + 0x1000) [PUD_SHIFT, SECTION_SHIFT, PAGE_SHIFT] va =
        mmu_walk m (dir + 0x2000) [SECTION_SHIFT, PAGE_SHIFT] va"
      using m(2) next_page [of "0x2000"] by (intro walk_table) simp_all
    also have "\<dots> = Some (push_bit 21 (word_of_nat (w div 2 ^ 21 mod 512)) OR (va AND mask 21))"
      using index [of 21] blocks by (intro walk_block) (simp_all add: layout_defs)
    also have "\<dots> = Some (va - VA_START)"
      unfolding w_def using True va
      by (subst section_and_offset) (simp_all add: w_def layout_defs word_less_nat_alt)
    finally show ?thesis
      using True top by (simp add: w_def layout_defs word_less_nat_alt)
  next
    case False
    have "mmu_walk m (dir + 0x1000) [PUD_SHIFT, SECTION_SHIFT, PAGE_SHIFT] va = None" if "w < 2 ^ 39"
    proof (rule walk_invalid)
      have "w div 2 ^ 30 mod 512 \<noteq> 0" using False that by simp
      then have "m (dir + 8 * word_of_nat (512 + w div 2 ^ 30 mod 512)) = 0" by (intro zero) simp_all
      then show "m (dir + 0x1000 + 8 * table_index PUD_SHIFT va) = 0"
        using index [of 30] by (simp add: layout_defs algebra_simps)
    qed
    then show ?thesis using False top by (simp add: w_def layout_defs word_less_nat_alt)
  qed
qed

lemma block_attributes:
  "i < 512 \<Longrightarrow> block_entry i AND 0x1c = push_bit 2 (if i < 504 then MT_NORMAL_NC else MT_DEVICE_nGnRnE)"
proof -
  assume i: "i < 512"
  have "push_bit 21 (word_of_nat i) AND 0x1c = (0 :: u64)"
  proof (rule bit_word_eqI)
    fix n
    show "bit (push_bit 21 (word_of_nat i) AND 0x1c :: u64) n = bit (0 :: u64) n"
      using less_bits [of "0x1c" 21 n] unfolding bit_and_iff by (cases "21 \<le> n") (simp_all add: bit_simps)
  qed
  then show ?thesis
    using block_entry_bits [OF i]
    by (simp add: bit.conj_disj_distrib2 MT_NORMAL_NC_def MT_DEVICE_nGnRnE_def)
qed

lemma create_page_tables_map:
  assumes al: "page_aligned dir" and dir: "unat dir + 0x3000 \<le> 2 ^ 48"
  obtains m' where "create_page_tables dir m = Some m'"
    and "\<And>va. VA_START \<le> va \<Longrightarrow> mmu_walk m' dir table_shifts va =
      (if va - VA_START < PHYS_MEMORY_SIZE then Some (va - VA_START) else None)"
    and "\<And>va. VA_START \<le> va \<Longrightarrow> va - VA_START < PHYS_MEMORY_SIZE \<Longrightarrow>
      m' (dir + 0x2000 + 8 * table_index SECTION_SHIFT va) AND 0x1c =
        push_bit 2 (if va < PBASE then MT_NORMAL_NC else MT_DEVICE_nGnRnE)"
    and "\<And>a. PG_DIR_SIZE \<le> a - dir \<Longrightarrow> m' a = m a"
proof -
  obtain m' where m': "create_page_tables dir m = Some m'"
    and tables: "m' dir = (dir + 0x1000) OR 3" "m' (dir + 0x1000) = (dir + 0x2000) OR 3"
    "\<And>i. i < 1024 \<Longrightarrow> i \<noteq> 0 \<Longrightarrow> i \<noteq> 512 \<Longrightarrow> m' (dir + 8 * word_of_nat i) = 0"
    "\<And>i. i < 512 \<Longrightarrow> m' (dir + 0x2000 + 8 * word_of_nat i) = block_entry i"
    and rest: "\<And>a. \<forall>i < 1536. a \<noteq> dir + 8 * word_of_nat i \<Longrightarrow> m' a = m a"
    using create_page_tables_entries [OF al, of m] by blast
  show thesis
  proof (rule that [OF m'])
    show "mmu_walk m' dir table_shifts va =
      (if va - VA_START < PHYS_MEMORY_SIZE then Some (va - VA_START) else None)"
      if "VA_START \<le> va" for va
      by (rule kernel_walk [OF al dir tables that])
    show "m' (dir + 0x2000 + 8 * table_index SECTION_SHIFT va) AND 0x1c =
        push_bit 2 (if va < PBASE then MT_NORMAL_NC else MT_DEVICE_nGnRnE)"
      if va: "VA_START \<le> va" "va - VA_START < PHYS_MEMORY_SIZE" for va
    proof -
      have w: "unat (va - VA_START) < 2 ^ 30" using va(2) by (simp add: layout_defs word_less_nat_alt)
      have "va < PBASE \<longleftrightarrow> unat (va - VA_START) div 2 ^ 21 < 504"
        using upper_half(1) [OF va(1)]
        by (simp add: layout_defs word_less_nat_alt div_less_iff_less_mult)
      moreover have "table_index SECTION_SHIFT va = word_of_nat (unat (va - VA_START) div 2 ^ 21)"
        using upper_index [OF va(1), of 21] w by (simp add: layout_defs)
      ultimately show ?thesis
        using tables(4) [of "unat (va - VA_START) div 2 ^ 21"]
          block_attributes [of "unat (va - VA_START) div 2 ^ 21"] w by simp
    qed
    show "m' a = m a" if "PG_DIR_SIZE \<le> a - dir" for a
    proof (rule rest, intro allI impI notI)
      fix i :: nat
      assume i: "i < 1536" and "a = dir + 8 * word_of_nat i"
      then have "PG_DIR_SIZE \<le> 8 * word_of_nat i" using that by simp
      then show False using i by (simp add: layout_defs word_le_nat_alt unat_word_ariths unat_of_nat)
    qed
  qed
qed

text \<open>
  C12. The page tables of the kernel: with \<open>pg_dir\<close> in \<open>ttbr1_el1\<close> the hardware translates
  an address of the upper half to its offset from \<open>VA_START\<close> when that is below
  \<open>PHYS_MEMORY_SIZE\<close> and faults otherwise; memory is normal up to \<open>PBASE\<close> and device memory
  from there on; nothing is written outside the three pages. This is the translation
  \<open>mmu_translate\<close> gives the upper half.
\<close>

theorem kernel_linear_map:
  assumes "page_aligned dir" and "unat dir + 0x3000 \<le> 2 ^ 48" and "VA_START \<le> va"
  shows "\<exists>m'. create_page_tables dir m = Some m' \<and>
      mmu_walk m' dir table_shifts va =
        (if va - VA_START < PHYS_MEMORY_SIZE then Some (va - VA_START) else None) \<and>
      mmu_translate ttbr m0 va =
        (case mmu_walk m' dir table_shifts va of
           Some pa \<Rightarrow> Inr (pa + VA_START) | None \<Rightarrow> Inl (Translation_Fault va)) \<and>
      (va - VA_START < PHYS_MEMORY_SIZE \<longrightarrow>
        m' (dir + 0x2000 + 8 * table_index SECTION_SHIFT va) AND 0x1c =
          push_bit 2 (if va < PBASE then MT_NORMAL_NC else MT_DEVICE_nGnRnE)) \<and>
      (\<forall>a. PG_DIR_SIZE \<le> a - dir \<longrightarrow> m' a = m a)"
proof -
  obtain m' where m': "create_page_tables dir m = Some m'"
    "\<And>va. VA_START \<le> va \<Longrightarrow> mmu_walk m' dir table_shifts va =
      (if va - VA_START < PHYS_MEMORY_SIZE then Some (va - VA_START) else None)"
    "\<And>va. VA_START \<le> va \<Longrightarrow> va - VA_START < PHYS_MEMORY_SIZE \<Longrightarrow>
      m' (dir + 0x2000 + 8 * table_index SECTION_SHIFT va) AND 0x1c =
        push_bit 2 (if va < PBASE then MT_NORMAL_NC else MT_DEVICE_nGnRnE)"
    "\<And>a. PG_DIR_SIZE \<le> a - dir \<Longrightarrow> m' a = m a"
    using create_page_tables_map [OF assms(1,2), of m] by blast
  moreover have "mmu_translate ttbr m0 va =
      (case mmu_walk m' dir table_shifts va of
         Some pa \<Rightarrow> Inr (pa + VA_START) | None \<Rightarrow> Inl (Translation_Fault va))"
    using assms(3) m'(2) [OF assms(3)] by (simp add: mmu_translate_def)
  ultimately show ?thesis using assms(3) by blast
qed

theorem kernel_linear_map_witness:
  "\<exists>m'. create_page_tables 0x85000 (\<lambda>_. 7) = Some m' \<and>
     mmu_walk m' 0x85000 table_shifts 0xffff00003f201000 = Some 0x3f201000 \<and> m' 0x84ff8 = 7"
proof -
  have "page_aligned 0x85000" "unat (0x85000 :: addr) + 0x3000 \<le> 2 ^ 48"
    "VA_START \<le> 0xffff00003f201000"
    by (simp_all add: page_aligned_def layout_defs)
  from kernel_linear_map [OF this, of "\<lambda>_. 7" 0 "\<lambda>_. 0"] obtain m' where
    m': "create_page_tables 0x85000 (\<lambda>_. 7) = Some m'"
    "mmu_walk m' 0x85000 table_shifts 0xffff00003f201000 = Some 0x3f201000"
    and rest: "\<And>a. PG_DIR_SIZE \<le> a - 0x85000 \<Longrightarrow> m' a = 7"
    by (auto simp: layout_defs)
  have "m' 0x84ff8 = 7" by (rule rest) (simp add: layout_defs)
  with m' show ?thesis by blast
qed

section \<open>The whole start\<close>

lemma clear_bss_words:
  assumes "bss_end img = bss_begin img + 8 * word_of_nat n" "0 < n" "8 * n < 2 ^ 48" "i < n"
  shows "phys_mem (clear_bss img c) (bss_begin img + 8 * word_of_nat i) = 0"
proof -
  have "sint (8 * word_of_nat n :: u64) = 8 * int n"
    using assms(3) by (subst sint_eq_unat) (simp_all add: unat_word_ariths unat_of_nat)
  then have "rounds (8 * word_of_nat n) = n" using assms(2) by (simp add: rounds_def)
  then show ?thesis
    using assms by (simp add: clear_bss_def Let_def memzero_store_words store_words_inside)
qed

text \<open>
  C13. Core 0 reaches \<open>kernel_main\<close> in EL1 with its own stack pointer and every exception
  masked, the MMU on, the stack at the top of the low memory in the kernel's half, the bss
  clear and the linear map in \<open>ttbr1_el1\<close>. Only bit 0 of \<open>sctlr_el1\<close> is set then: the
  reserved bits set before are gone. The bss is a number of whole doublewords, as the clearing
  loop takes it to be.
\<close>

theorem boot_starts_kernel:
  assumes core: "mpidr_el1 c AND 0xFF = 0"
    and dir: "page_aligned (pg_dir img)" "unat (pg_dir img) + 0x3000 \<le> 2 ^ 48"
    and bss: "bss_end img = bss_begin img + 8 * word_of_nat n" "0 < n"
      "unat (bss_begin img) + 8 * n \<le> unat (pg_dir img)"
  shows "\<exists>c'. start img c = Some (Kernel_Main_Entered c') \<and>
      pc_now c' = kernel_main_at img \<and> sp_now c' = VA_START + LOW_MEMORY \<and>
      pstate_now c' AND 0xF = SPSR_EL1h \<and> pstate_now c' AND SPSR_MASK_ALL = SPSR_MASK_ALL \<and>
      sctlr_el1 c' = 1 \<and> tcr_el1 c' = 0x80100010 \<and> mair_el1 c' = 0x4400 \<and>
      ttbr1_el1 c' = pg_dir img \<and>
      (\<forall>va \<ge> VA_START. mmu_walk (phys_mem c') (ttbr1_el1 c') table_shifts va =
        (if va - VA_START < PHYS_MEMORY_SIZE then Some (va - VA_START) else None)) \<and>
      (\<forall>i < n. phys_mem c' (bss_begin img + 8 * word_of_nat i) = 0)"
proof (rule create_page_tables_map [OF dir, of "phys_mem (clear_bss img (master img c))"])
  let ?c = "clear_bss img (master img c)"
  fix m'
  assume m': "create_page_tables (pg_dir img) (phys_mem ?c) = Some m'"
    "\<And>va. VA_START \<le> va \<Longrightarrow> mmu_walk m' (pg_dir img) table_shifts va =
      (if va - VA_START < PHYS_MEMORY_SIZE then Some (va - VA_START) else None)"
    and "\<And>va. VA_START \<le> va \<Longrightarrow> va - VA_START < PHYS_MEMORY_SIZE \<Longrightarrow>
      m' (pg_dir img + 0x2000 + 8 * table_index SECTION_SHIFT va) AND 0x1c =
        push_bit 2 (if va < PBASE then MT_NORMAL_NC else MT_DEVICE_nGnRnE)"
    and rest: "\<And>a. PG_DIR_SIZE \<le> a - pg_dir img \<Longrightarrow> m' a = phys_mem ?c a"
  have al: "pg_dir img AND NOT (mask 12) = pg_dir img"
    using page_aligned_bits [OF dir(1)] by (auto intro!: bit_word_eqI simp: bit_simps)
  have "m' (bss_begin img + 8 * word_of_nat i) = 0" if i: "i < n" for i
  proof -
    let ?a = "bss_begin img + 8 * word_of_nat i"
    have a: "unat ?a = unat (bss_begin img) + 8 * i"
      using i bss(3) dir(2) by (simp add: unat_word_ariths unat_of_nat)
    have "PG_DIR_SIZE \<le> ?a - pg_dir img"
      using a i bss(3) dir(2) by (simp add: layout_defs word_le_nat_alt unat_sub_if')
    then have "m' ?a = phys_mem ?c ?a" by (rule rest)
    also have "\<dots> = 0"
      using bss dir(2) i by (intro clear_bss_words) simp_all
    finally show ?thesis .
  qed
  moreover have "start img c = Some (Kernel_Main_Entered (?c\<lparr>phys_mem := m',
      sp_now := VA_START + LOW_MEMORY, ttbr1_el1 := pg_dir img, tcr_el1 := TCR_VALUE,
      mair_el1 := MAIR_VALUE, sctlr_el1 := SCTLR_MMU_ENABLED, pc_now := kernel_main_at img\<rparr>))"
    using core m'(1) by (simp add: start_def el1_entry_def Let_def al)
  moreover have "pstate_now ?c AND 0xF = SPSR_EL1h" "pstate_now ?c AND SPSR_MASK_ALL = SPSR_MASK_ALL"
    by (simp_all add: clear_bss_def master_def eret_def Let_def sysreg_defs)
  moreover have "SCTLR_MMU_ENABLED = 1" "TCR_VALUE = 0x80100010" "MAIR_VALUE = 0x4400"
    by (simp_all add: sysreg_defs)
  ultimately show ?thesis using m'(2) by simp
qed

theorem boot_starts_kernel_witness:
  "\<exists>c'. start \<lparr>bss_begin = 0x84000, bss_end = 0x84020, pg_dir = 0x85000, el1_entry_at = 0x80050,
        kernel_main_at = 0xffff000000081000\<rparr>
      \<lparr>mpidr_el1 = 0x80000000, sctlr_el1 = 0, hcr_el2 = 0, scr_el3 = 0, spsr_el3 = 0, elr_el3 = 0,
        pstate_now = 0x3cd, pc_now = 0, sp_now = 0, ttbr1_el1 = 0, tcr_el1 = 0, mair_el1 = 0,
        phys_mem = (\<lambda>_. 7)\<rparr> = Some (Kernel_Main_Entered c') \<and>
     sp_now c' = 0xffff000000400000 \<and> phys_mem c' 0x84018 = 0 \<and>
     mmu_walk (phys_mem c') 0x85000 table_shifts 0xffff000000081000 = Some 0x81000"
    (is "\<exists>c'. start ?img ?c = _ \<and> _")
proof -
  have "mpidr_el1 ?c AND 0xFF = 0" "page_aligned (pg_dir ?img)"
    "unat (pg_dir ?img) + 0x3000 \<le> 2 ^ 48"
    "bss_end ?img = bss_begin ?img + 8 * word_of_nat 4" "0 < (4 :: nat)"
    "unat (bss_begin ?img) + 8 * 4 \<le> unat (pg_dir ?img)"
    by (simp_all add: page_aligned_def)
  from boot_starts_kernel [OF this] obtain c' where
    c': "start ?img ?c = Some (Kernel_Main_Entered c')" "sp_now c' = VA_START + LOW_MEMORY"
    and ttbr: "ttbr1_el1 c' = 0x85000"
    and map: "\<forall>va \<ge> VA_START. mmu_walk (phys_mem c') (ttbr1_el1 c') table_shifts va =
        (if va - VA_START < PHYS_MEMORY_SIZE then Some (va - VA_START) else None)"
    and bss: "\<forall>i < 4. phys_mem c' (0x84000 + 8 * word_of_nat i) = 0"
    by auto
  have "phys_mem c' 0x84018 = 0" using bss [rule_format, of 3] by simp
  moreover have "mmu_walk (phys_mem c') 0x85000 table_shifts 0xffff000000081000 = Some 0x81000"
    using map [rule_format, of "0xffff000000081000"] ttbr by (simp add: layout_defs)
  ultimately show ?thesis using c' by (simp add: layout_defs)
qed

lemma other_cores_hang: "mpidr_el1 c AND 0xFF \<noteq> 0 \<Longrightarrow> start img c = Some (Proc_Hang c)"
  by (simp add: start_def)

text \<open>The lessons before: the same way down, without the MMU.\<close>

lemma start_l5_runs:
  assumes "mpidr_el1 c AND 0xFF = 0"
  shows "\<exists>c'. start_l5 img c = Kernel_Main_Entered c' \<and> start_l2 img c = Kernel_Main_Entered c' \<and>
      pc_now c' = kernel_main_at img \<and> sp_now c' = 0x400000 \<and>
      pstate_now c' AND 0xF = SPSR_EL1h \<and> sctlr_el1 c' = SCTLR_RESERVED"
  using assms
  by (simp add: start_l5_def start_l2_def el1_entry_l2_def master_def clear_bss_def eret_def Let_def
      layout_defs) (simp add: sysreg_defs)

end
