(* ===== verification/Kernel_Main.thy ===== *)
theory Kernel_Main
  imports User_Programs
begin

text \<open>
  \<open>kernel_main\<close> of the six lessons and the functions of the first tasks (\<open>kernel.c\<close>). A loop
  that never ends is followed for a number of turns; \<open>irq_vector_init\<close> is the choice of the
  vectors in \<open>Entry\<close>. Up to lesson 3 the kernel is the devices and, in lesson 3, the timer.
\<close>

unbundle bit_operations_syntax

section \<open>The echo of lessons 1 to 3\<close>

definition greeting :: "char list" where "greeting = ''Hello, Paspberry 3B+'' @ crlf"

text \<open>\<open>while (1) uart_send(uart_recv());\<close>\<close>

fun echo :: "addr \<Rightarrow> nat \<Rightarrow> world \<Rightarrow> world option" where
  "echo pb 0 w = Some w"
| "echo pb (Suc n) w =
     Option.bind (uart_recv pb w) (\<lambda>(c, w). Option.bind (uart_send pb c w) (echo pb n))"

definition kernel_main_l1 :: "addr \<Rightarrow> nat \<Rightarrow> world \<Rightarrow> world option" where
  "kernel_main_l1 pb n w =
     Option.bind (uart_send_string pb (c_string greeting []) (uart_init pb w)) (echo pb n)"

text \<open>The exception level, from the register \<open>CurrentEL\<close>.\<close>

definition get_el :: "u64 \<Rightarrow> int" where "get_el CurrentEL = as_int (drop_bit 2 CurrentEL)"

definition kernel_main_l2 :: "addr \<Rightarrow> u64 \<Rightarrow> nat \<Rightarrow> world \<Rightarrow> world option" where
  "kernel_main_l2 pb CurrentEL n w =
     (let w = uart_init pb w
      in Option.bind (tfp_printf (console pb) (c_string greeting []) [] w) (\<lambda>w.
         let el = get_el CurrentEL
         in Option.bind (tfp_printf (console pb) (c_string (''Exception level: %d'' @ crlf) [])
              [Slot (word_of_int el)] w) (echo pb n)))"

text \<open>What every kernel from lesson 3 on starts with, after the console.\<close>

definition start_interrupts :: "addr \<Rightarrow> kernel \<Rightarrow> kernel" where
  "start_interrupts pb s = enable_irq (enable_interrupt_controller pb (timer_init pb s))"

text \<open>In lesson 3 interrupts come while the loop runs; they are taken between two turns.\<close>

datatype turn = Echo | Interrupt

fun turns :: "addr \<Rightarrow> turn list \<Rightarrow> kernel \<Rightarrow> kernel option" where
  "turns pb [] s = Some s"
| "turns pb (Echo # ts) s = Option.bind (echo pb 1 (dev s)) (\<lambda>w. turns pb ts (s\<lparr>dev := w\<rparr>))"
| "turns pb (Interrupt # ts) s =
     (case el1_irq_l3 pb s of Returns s \<Rightarrow> turns pb ts s | _ \<Rightarrow> None)"

definition kernel_main_l3 :: "addr \<Rightarrow> turn list \<Rightarrow> kernel \<Rightarrow> kernel option" where
  "kernel_main_l3 pb ts s =
     (let s = s\<lparr>dev := uart_init pb (dev s)\<rparr>
      in Option.bind (kernel_printf pb greeting [] s) (\<lambda>s. turns pb ts (start_interrupts pb s)))"

section \<open>The loop of the first task\<close>

text \<open>\<open>while (1) schedule();\<close> until a call of it goes over to another task.\<close>

partial_function (option) schedule_loop :: "(kernel \<Rightarrow> kernel option) \<Rightarrow> kernel \<Rightarrow> kernel option" where
  "schedule_loop sched s =
     (case sched s of
        None \<Rightarrow> None
      | Some t \<Rightarrow> if current t = current s then schedule_loop sched t else Some t)"

definition idle :: "(kernel \<Rightarrow> kernel option) \<Rightarrow> kernel \<Rightarrow> kernel outcome" where
  "idle sched s = (case schedule_loop sched s of None \<Rightarrow> No_Result | Some t \<Rightarrow> Switched t)"

text \<open>\<open>printf(...); return;\<close>\<close>

definition report :: "addr \<Rightarrow> char list \<Rightarrow> kernel \<Rightarrow> kernel outcome" where
  "report pb msg s = (case kernel_printf pb msg [] s of None \<Rightarrow> No_Result | Some s \<Rightarrow> Returns s)"

section \<open>Lesson 4\<close>

text \<open>\<open>process\<close>: \<open>n\<close> turns of its outer loop.\<close>

fun process_chars :: "addr \<Rightarrow> char list \<Rightarrow> nat list \<Rightarrow> world \<Rightarrow> world option" where
  "process_chars pb array [] w = Some w"
| "process_chars pb array (i # is) w =
     Option.bind (uart_send pb (array ! i) w) (\<lambda>w. process_chars pb array is (delay 100000 w))"

fun process :: "addr \<Rightarrow> char list \<Rightarrow> nat \<Rightarrow> world \<Rightarrow> world option" where
  "process pb array 0 w = Some w"
| "process pb array (Suc n) w = Option.bind (process_chars pb array [0..<5] w) (process pb array n)"

text \<open>The addresses of \<open>process\<close> and of its two arguments are the linker's.\<close>

definition kernel_main_l4 :: "addr \<Rightarrow> image \<Rightarrow> addr \<Rightarrow> addr \<Rightarrow> addr \<Rightarrow> kernel \<Rightarrow> kernel outcome" where
  "kernel_main_l4 pb im process_at arg1 arg2 s =
     (let s = start_interrupts pb (s\<lparr>dev := uart_init pb (dev s)\<rparr>)
      in case copy_process_l4 im process_at arg1 s of
           Inl f \<Rightarrow> Faults f
         | Inr (res, s) \<Rightarrow>
             if res \<noteq> 0 then report pb (''error while starting process 1'' @ crlf) s
             else case copy_process_l4 im process_at arg2 s of
                 Inl f \<Rightarrow> Faults f
               | Inr (res, s) \<Rightarrow>
                   if res \<noteq> 0 then report pb (''error while starting process 2'' @ crlf) s
                   else idle schedule_l4 s)"

section \<open>Lesson 5\<close>

definition kernel_process_l5 :: "addr \<Rightarrow> image \<Rightarrow> u64 \<Rightarrow> kernel \<Rightarrow> kernel outcome" where
  "kernel_process_l5 pb im CurrentEL s =
     (case kernel_printf pb (''Kernel process started. EL %d'' @ crlf) [Slot (word_of_int (get_el CurrentEL))] s of
        None \<Rightarrow> No_Result
      | Some s \<Rightarrow>
          (case move_to_user_mode_l5 (user_process_at im) s of (err, s) \<Rightarrow>
             if err < 0 then report pb (''Error while moving process to user mode'' @ crlf) s else Returns s))"

definition kernel_main_l5 :: "addr \<Rightarrow> image \<Rightarrow> kernel \<Rightarrow> kernel outcome" where
  "kernel_main_l5 pb im s =
     (let s = start_interrupts pb (s\<lparr>dev := uart_init pb (dev s)\<rparr>)
      in case copy_process_l5 im PF_KTHREAD (kernel_process_at im) 0 0 s of
           Inl f \<Rightarrow> Faults f
         | Inr (res, s) \<Rightarrow>
             if res < 0 then report pb (''Error while starting kernel process'' @ crlf) s
             else idle schedule_l5 s)"

section \<open>Lesson 6\<close>

definition kernel_process :: "addr \<Rightarrow> image \<Rightarrow> u64 \<Rightarrow> kernel \<Rightarrow> kernel outcome" where
  "kernel_process pb im CurrentEL s =
     (case kernel_printf pb (''Kernel process started. EL %d'' @ crlf) [Slot (word_of_int (get_el CurrentEL))] s of
        None \<Rightarrow> No_Result
      | Some s \<Rightarrow>
          (let begin_at = user_begin im; end_at = user_end im; process_at = user_process_at im
           in case move_to_user_mode begin_at (end_at - begin_at) (process_at - begin_at) s of
                Inl f \<Rightarrow> Faults f
              | Inr (err, s) \<Rightarrow>
                  if err < 0 then report pb (''Error while moving process to user mode'' @ crlf) s else Returns s))"

definition kernel_main :: "addr \<Rightarrow> image \<Rightarrow> kernel \<Rightarrow> kernel outcome" where
  "kernel_main pb im s =
     (let s = start_interrupts pb (s\<lparr>dev := uart_init pb (dev s)\<rparr>)
      in case copy_process im PF_KTHREAD (kernel_process_at im) 0 s of
           Inl f \<Rightarrow> Faults f
         | Inr (res, s) \<Rightarrow>
             if res < 0 then report pb (''Error while starting kernel process'' @ crlf) s
             else idle schedule s)"

end
