(* ===== verification/Main_Props.thy ===== *)
theory Main_Props
  imports Kernel_Main
begin

text \<open>
  The properties of the kernels as a whole: the echo of lessons 1 and 2, the start of the first
  task and its way to user mode.
\<close>

unbundle bit_operations_syntax

section \<open>The echo\<close>

text \<open>The characters read from the UART.\<close>

definition received :: "addr \<Rightarrow> world \<Rightarrow> char list" where
  "received pb w =
     concat (map (\<lambda>e. case e of Rd a v \<Rightarrow> if a = AUX_MU_IO_REG pb then [char_of (unat (v AND 0xFF))] else []
                               | _ \<Rightarrow> []) (w_log w))"

lemma io_not_lsr [simp]: "AUX_MU_IO_REG pb \<noteq> AUX_MU_LSR_REG pb" "AUX_MU_LSR_REG pb \<noteq> AUX_MU_IO_REG pb"
  by (simp_all add: layout_defs)

lemma received_polls: "received_of = (\<lambda>l. concat (map (\<lambda>e. case e of Rd a v \<Rightarrow>
    if a = AUX_MU_IO_REG pb then [char_of (unat (v AND 0xFF))] else [] | _ \<Rightarrow> []) l)) \<Longrightarrow>
    received_of (map (Rd (AUX_MU_LSR_REG pb)) vs) = []"
  by (induction vs) simp_all

lemma received_log:
  "w_log w' = w_log w @ map (Rd (AUX_MU_LSR_REG pb)) vs @ es \<Longrightarrow>
    received pb w' = received pb w @ concat (map (\<lambda>e. case e of Rd a v \<Rightarrow>
      if a = AUX_MU_IO_REG pb then [char_of (unat (v AND 0xFF))] else [] | _ \<Rightarrow> []) es)"
  using received_polls [OF refl, of pb vs] by (simp add: received_def)

lemma sent_log:
  "w_log w' = w_log w @ map (Rd a) vs @ es \<Longrightarrow> sent pb w' = sent pb w @ sent pb (w\<lparr>w_log := es\<rparr>)"
  using sent_polls [of "w\<lparr>w_log := map (Rd a) vs\<rparr>" "w\<lparr>w_log := []\<rparr>" a vs pb] by (simp add: sent_def)

lemma uart_send_received: "uart_send pb c w = Some w' \<Longrightarrow> received pb w' = received pb w"
proof -
  assume "uart_send pb c w = Some w'"
  from uart_send_Some [OF this] obtain vs v where
    "w_log w' = w_log w @ map (Rd (AUX_MU_LSR_REG pb)) (vs @ [v]) @ [Wr (AUX_MU_IO_REG pb) (of_char c)]" by blast
  from received_log [OF this] show ?thesis by simp
qed

lemma uart_recv_ready:
  assumes "line_ready pb 1 w"
  obtains c w' where "uart_recv pb w = Some (c, w')" "w_reply w' = w_reply w" "received pb w' = received pb w @ [c]"
    "sent pb w' = sent pb w"
proof -
  from assms obtain t where "w_time w \<le> t" "w_reply w t (AUX_MU_LSR_REG pb) AND 1 \<noteq> 0"
    by (auto simp: line_ready_def)
  then obtain w1 where w1: "lsr_wait pb 1 w = Some w1" using lsr_wait_returns by blast
  from lsr_wait_Some [OF w1] obtain vs where vs: "w_reply w1 = w_reply w"
    "w_log w1 = w_log w @ map (Rd (AUX_MU_LSR_REG pb)) vs" by blast
  let ?g = "get32 (AUX_MU_IO_REG pb) w1"
  have "w_log (snd ?g) = w_log w @ map (Rd (AUX_MU_LSR_REG pb)) vs @ [Rd (AUX_MU_IO_REG pb) (fst ?g)]"
    using vs(2) by simp
  from received_log [OF this] sent_log [OF this, of pb] show thesis
    using w1 vs(1) by (intro that [of "char_of (unat (fst ?g AND 0xFF))" "snd ?g"])
      (simp_all add: uart_recv_def split_beta, simp add: sent_def)
qed

lemma echo_run:
  assumes "line_ready pb 0x20 w" and "line_ready pb 1 w"
  shows "\<exists>w' rs. echo pb n w = Some w' \<and> length rs = n \<and> received pb w' = received pb w @ rs \<and>
    sent pb w' = sent pb w @ rs"
  using assms
proof (induction n arbitrary: w)
  case (Suc n)
  obtain c w1 where r: "uart_recv pb w = Some (c, w1)" "w_reply w1 = w_reply w"
      "received pb w1 = received pb w @ [c]" "sent pb w1 = sent pb w"
    by (rule uart_recv_ready [OF Suc.prems(2)])
  then have "line_ready pb 0x20 w1" using Suc.prems(1) by (simp add: line_ready_def)
  from uart_send_ready [OF this] obtain w2 where s: "uart_send pb c w1 = Some w2" "line_ready pb 0x20 w2" by blast
  note sent = uart_send_Some [OF s(1)] uart_send_received [OF s(1)]
  have "line_ready pb 1 w2" using Suc.prems(2) r(2) sent(1) by (simp add: line_ready_def)
  from Suc.IH [OF s(2) this] obtain w3 rs where "echo pb n w2 = Some w3" "length rs = n"
      "received pb w3 = received pb w2 @ rs" "sent pb w3 = sent pb w2 @ rs" by blast
  then show ?case
    using r s(1) sent by (intro exI [of _ w3] exI [of _ "c # rs"]) simp
qed simp

lemma send_string_run:
  assumes "line_ready pb 0x20 w" and "NUL \<notin> set str"
  shows "\<exists>w'. uart_send_string pb (str @ NUL # rest) w = Some w' \<and> w_reply w' = w_reply w \<and>
    sent pb w' = sent pb w @ str \<and> received pb w' = received pb w"
  using assms
proof (induction str arbitrary: w)
  case (Cons c str)
  from uart_send_ready [OF Cons.prems(1)] obtain w1 where s: "uart_send pb c w = Some w1" "line_ready pb 0x20 w1" by blast
  have "NUL \<notin> set str" using Cons.prems(2) by simp
  from Cons.IH [OF s(2) this] show ?case
    using Cons.prems(2) s(1) uart_send_Some [OF s(1)] uart_send_received [OF s(1)] by auto
qed simp

lemma uart_init_effect:
  "sent pb (uart_init pb w) = sent pb w" "received pb (uart_init pb w) = received pb w"
  "w_reply (uart_init pb w) = w_reply w"
  by (simp_all add: uart_init_def split_beta sent_def received_def layout_defs)

text \<open>Printing on a UART that goes on being ready in both directions.\<close>

interpretation echo_sink: live_sink "putc pb" "sent pb"
    "\<lambda>w. line_ready pb 0x20 w \<and> line_ready pb 1 w \<and> received pb w = r" for pb r
proof unfold_locales
  fix c :: char and w :: world
  assume w: "line_ready pb 0x20 w \<and> line_ready pb 1 w \<and> received pb w = r"
  then obtain w' where s: "uart_send pb c w = Some w'" "line_ready pb 0x20 w'" using uart_send_ready by blast
  with w show "\<exists>w'. putc pb c w = Some w' \<and> line_ready pb 0x20 w' \<and> line_ready pb 1 w' \<and> received pb w' = r"
    using uart_send_Some [OF s(1)] uart_send_received [OF s(1)] by (simp add: putc_def line_ready_def)
qed

lemma console_print:
  assumes "line_ready pb 0x20 w" "line_ready pb 1 w" and "list_all good_piece ps" "format_text ps va = Some t"
    and "fmt = concat (map spelling ps)"
  obtains w' where "tfp_printf (console pb) (c_string fmt []) va w = Some w'" "sent pb w' = sent pb w @ t"
    "line_ready pb 0x20 w'" "line_ready pb 1 w'" "received pb w' = received pb w"
proof -
  have "tfp_format collect (c_string fmt []) va (sent pb w) = Some (sent pb w @ t)"
    unfolding assms(5) by (rule collect_format_text [OF assms(3,4)])
  from echo_sink.format_live [OF conjI [OF assms(1) conjI [OF assms(2) refl]] this] show thesis
    by (auto intro: that simp: tfp_printf_def console_def init_printf_def)
qed

text \<open>
  The kernels of lessons 1 and 2, on a UART that becomes ready to send and to receive again
  and again: they print their messages and then send back every character they receive, in
  order and nothing else; lesson 2 reports exception level 1 when that is the level it runs at.
\<close>

theorem kernel_main_echo:
  assumes "line_ready pb 0x20 w" and "line_ready pb 1 w"
  shows "(\<exists>w' rs. kernel_main_l1 pb n w = Some w' \<and> length rs = n \<and> received pb w' = received pb w @ rs \<and>
      sent pb w' = sent pb w @ ''Hello, Paspberry 3B+'' @ crlf @ rs) \<and>
    (\<exists>w' rs. kernel_main_l2 pb 4 n w = Some w' \<and> length rs = n \<and> received pb w' = received pb w @ rs \<and>
      sent pb w' = sent pb w @ ''Hello, Paspberry 3B+'' @ crlf @ ''Exception level: 1'' @ crlf @ rs)"
proof (rule conjI)
  let ?w = "uart_init pb w"
  have ready: "line_ready pb 0x20 ?w" "line_ready pb 1 ?w" using assms by (simp_all add: line_ready_def uart_init_effect)
  have "NUL \<notin> set greeting" by (simp add: greeting_def crlf_def)
  from send_string_run [OF ready(1) this, of "[]"] obtain w1 where w1:
      "uart_send_string pb (c_string greeting []) ?w = Some w1" "w_reply w1 = w_reply ?w"
      "sent pb w1 = sent pb ?w @ greeting" "received pb w1 = received pb ?w"
    by (auto simp: c_string_def)
  then have "line_ready pb 0x20 w1" "line_ready pb 1 w1" using ready by (simp_all add: line_ready_def)
  from echo_run [OF this, of n] show "\<exists>w' rs. kernel_main_l1 pb n w = Some w' \<and> length rs = n \<and>
      received pb w' = received pb w @ rs \<and> sent pb w' = sent pb w @ ''Hello, Paspberry 3B+'' @ crlf @ rs"
    using w1 by (auto simp: kernel_main_l1_def uart_init_effect greeting_def)
  let ?ps = "map Literal greeting"
  have good: "list_all good_piece ?ps" "format_text ?ps [] = Some greeting" "greeting = concat (map spelling ?ps)"
    using format_literals [of greeting "[]"] by (simp_all add: good_literals spelling_literals) (simp_all add: greeting_def crlf_def)
  obtain w1 where w1: "tfp_printf (console pb) (c_string greeting []) [] ?w = Some w1" "sent pb w1 = sent pb ?w @ greeting"
      "line_ready pb 0x20 w1" "line_ready pb 1 w1" "received pb w1 = received pb ?w"
    by (rule console_print [OF ready good])
  let ?qs = "map Literal ''Exception level: '' @ [Conversion False 0 CHR ''d''] @ map Literal crlf"
  have el: "get_el 4 = 1" by (simp add: get_el_def as_int_def)
  have "list_all good_piece ?qs" by (simp add: crlf_def)
  moreover have "format_text ?qs [Slot (word_of_int (get_el 4))] = Some (''Exception level: 1'' @ crlf)"
    unfolding el by code_simp
  moreover have "''Exception level: %d'' @ crlf = concat (map spelling ?qs)" by (simp add: crlf_def)
  ultimately obtain w2 where w2: "tfp_printf (console pb) (c_string (''Exception level: %d'' @ crlf) [])
      [Slot (word_of_int (get_el 4))] w1 = Some w2" "sent pb w2 = sent pb w1 @ ''Exception level: 1'' @ crlf"
      "line_ready pb 0x20 w2" "line_ready pb 1 w2" "received pb w2 = received pb w1"
    by (rule console_print [OF w1(3,4)])
  from echo_run [OF w2(3,4), of n] show "\<exists>w' rs. kernel_main_l2 pb 4 n w = Some w' \<and> length rs = n \<and>
      received pb w' = received pb w @ rs \<and>
      sent pb w' = sent pb w @ ''Hello, Paspberry 3B+'' @ crlf @ ''Exception level: 1'' @ crlf @ rs"
    using w1 w2 by (auto simp: kernel_main_l2_def Let_def uart_init_effect greeting_def)
qed

theorem kernel_main_echo_witness:
  "\<exists>w' rs. kernel_main_l1 PBASE_phys 3 always_ready = Some w' \<and> length rs = 3 \<and>
    received PBASE_phys w' = rs \<and> sent PBASE_phys w' = ''Hello, Paspberry 3B+'' @ crlf @ rs"
proof -
  have "line_ready PBASE_phys 1 always_ready" by (auto simp: line_ready_def always_ready_def)
  from kernel_main_echo [OF line_ready_always this, of 3]
  show ?thesis by (simp add: sent_def received_def always_ready_def)
qed

section \<open>The first task\<close>

text \<open>The scheduler and the creation of tasks look at memory and the tables only.\<close>

lemma kernel_cong:
  assumes "mem t = mem s" "mem_map t = mem_map s" "current t = current s" "task t = task s" "nr_tasks t = nr_tasks s"
  shows "sched_inv t = sched_inv s" "can_create base t = can_create base s" "running t = running s"
    "used_pages_of t = used_pages_of s"
proof -
  show u: "used_pages_of t = used_pages_of s" by (rule used_pages_of_cong [OF assms(2)])
  show i: "sched_inv t = sched_inv s"
    by (simp add: sched_inv_def waiting_def sched_state_def preempt_def get_field_def assms)
  show "can_create base t = can_create base s"
    by (simp add: can_create_def task_table_def placed_def assms u i)
  show "running t = running s" by (simp add: running_def assms)
qed

lemma start_interrupts_rest [simp]:
  "mem (start_interrupts pb s) = mem s" "mem_map (start_interrupts pb s) = mem_map s"
  "current (start_interrupts pb s) = current s" "task (start_interrupts pb s) = task s"
  "nr_tasks (start_interrupts pb s) = nr_tasks s" "irq_masked (cpu (start_interrupts pb s)) = False"
  by (simp_all add: start_interrupts_def enable_irq_def enable_interrupt_controller_def timer_init_def Let_def split_beta)

context timer_driver
begin

text \<open>Of two running tasks, the one that gives up the processor hands it to the other.\<close>

lemma yield_to_other:
  assumes inv: "sched_inv s" and run: "running s = {current s, p}" and p: "p \<noteq> current s" "0 < cnt (mem s) p"
  obtains t where "yield_with sched s = Some t" "current t = p" "sched_inv t" "running t = running s"
    "saved_context (cpu t) = load_context (mem s) p" "irq_masked (cpu t) = irq_masked (cpu s)" "dev t = dev s"
    "task t = task s"
proof -
  let ?s = "set_field off_counter (current s) 0 s"
  have w: "waiting s" using inv by (simp add: sched_inv_def)
  obtain t where t: "sched ?s = Some t" "scheduled ?s t" "waiting ?s" "sched_inv t" "task t = task s" "running t = running s"
    by (rule give_up [OF inv disjI1 [OF refl]])
  have mem: "p \<in> set (task s)" "p \<noteq> 0" using run by (auto simp: running_def runs_def)
  note f = set_counter_fields [OF w]
  have c: "cnt (mem ?s) (current s) = 0" "cnt (mem ?s) p = cnt (mem s) p"
    using f(2) [OF waitingD(3,4) [OF w]] f(2) [OF mem] p by simp_all
  have run': "running ?s = {current s, p}"
    using run f(1) by (auto simp: running_def runs_def)
  have cur: "current t = p"
    using run' c p by (cases rule: scheduled_fields [OF t(3,2)]) auto
  have "saved_context (cpu t) = load_context (mem ?s) p"
    using t(2) cur p(1) unfolding scheduled_def by simp
  moreover have "load_context (mem ?s) p = load_context (mem s) p"
  proof (rule load_context_cong)
    fix x assume "x \<in> ctx p"
    then obtain i where i: "i < 13" "x = p + 8 * word_of_nat i" by (auto simp: ctx_def)
    have "unat (8 * word_of_nat i :: u64) < 104" using page_run_offset(2) [of i] i(1) by simp
    then have "x \<noteq> current s + off_counter"
      unfolding i(2) using apartD [OF waitingD(2) [OF w] mem(1) waitingD(3) [OF w] mem(2) waitingD(4) [OF w] p(1),
        of "8 * word_of_nat i" off_counter] by (simp add: layout_defs)
    then show "mem ?s x = mem s x" by (simp add: set_field_def)
  qed
  moreover have "irq_masked (cpu t) = irq_masked (cpu s)" using t(2) by (simp add: scheduled_def set_field_def)
  moreover have "dev t = dev s" using sched_devices [OF t(1)] by simp
  ultimately show thesis using t cur by (intro that [of t]) (simp_all add: yield_with_def)
qed

text \<open>The loop of the first task leaves it at the first call.\<close>

lemma idle_switches:
  assumes "sched_inv s" and "running s = {current s, p}" and "p \<noteq> current s" "0 < cnt (mem s) p"
    and "\<And>s. yield s = yield_with sched s"
  obtains t where "idle yield s = Switched t" "current t = p" "sched_inv t" "running t = running s"
    "saved_context (cpu t) = load_context (mem s) p" "irq_masked (cpu t) = irq_masked (cpu s)" "dev t = dev s"
    "task t = task s"
proof -
  obtain t where t: "yield_with sched s = Some t" "current t = p" "sched_inv t" "running t = running s"
    "saved_context (cpu t) = load_context (mem s) p" "irq_masked (cpu t) = irq_masked (cpu s)" "dev t = dev s"
    "task t = task s"
    by (rule yield_to_other [OF assms(1-4)])
  have "idle yield s = Switched t"
    using t(1,2) assms(3) by (simp add: idle_def schedule_loop.simps [of yield s] assms(5))
  then show thesis by (rule that) (rule t)+
qed

end

lemma schedule_yields: "schedule s = yield_with do_schedule s" "schedule_l5 s = yield_with do_schedule_l5 s"
  by (simp_all add: schedule_def schedule_l5_def yield_with_def)

lemma saved_context_regs:
  "saved_context c = k \<Longrightarrow> gpr c 19 = x19 k \<and> gpr c 20 = x20 k \<and> sp_el1 c = sp k \<and> gpr c 30 = pc k"
  by (auto simp: saved_context_def)

text \<open>What the first \<open>schedule\<close> does after the creation of the first thread.\<close>

lemma current_priority:
  assumes "sched_inv s"
  shows "0 < sint (mem s (current s + off_priority))"
proof -
  have "waiting s" "runs (mem s) (current s)" using assms by (simp_all add: sched_inv_def)
  from waitingD(9) [OF this(1) waitingD(3) [OF this(1)] this(2)] show ?thesis by (simp add: in_range_def pri_def)
qed

text \<open>
  C9. The start of the kernel in lesson 6. From a kernel whose only running task is the current
  one, \<open>kernel_main\<close> sets up the UART, the timer and the interrupt controller, in this order,
  creates a kernel thread and gives the processor to it at the first call of \<open>schedule\<close>, with
  interrupts enabled. The thread goes on in \<open>ret_from_fork\<close>, on its own stack, which calls
  \<open>kernel_process\<close> with argument 0; both tasks are running and the scheduler's invariant holds.
\<close>

theorem kernel_main_boots:
  assumes "can_create VA_START s" and "running s = {current s}" and "kernel_process_at im \<noteq> 0"
  shows "\<exists>p t v. kernel_main pb im s = Switched t \<and> p - VA_START \<in> all_pages - used_pages_of s \<and>
    current t = p \<and> task t ! nr_tasks s = p \<and> running t = {current s, p} \<and> sched_inv t \<and>
    gpr (cpu t) 30 = ret_from_fork im \<and> sp_el1 (cpu t) = task_pt_regs p \<and> \<not> irq_masked (cpu t) \<and>
    start_forked t = (Some (kernel_process_at im), set_x 0 0 t) \<and>
    w_log (dev t) = w_log (uart_init pb (dev s)) @ [Rd (TIMER_CLO pb) v, Wr (TIMER_C1 pb) (v + interval),
      Wr (ENABLE_IRQS_1 pb) SYSTEM_TIMER_IRQ_1]"
proof -
  let ?s = "start_interrupts pb (s\<lparr>dev := uart_init pb (dev s)\<rparr>)"
  have same: "can_create VA_START ?s" "running ?s = running s" "used_pages_of ?s = used_pages_of s" "sched_inv ?s"
    using kernel_cong [of ?s s] assms(1) by (simp_all add: can_create_def)
  have fl: "PF_KTHREAD AND PF_KTHREAD \<noteq> 0" by (simp add: PF_KTHREAD_def)
  from thread_run [OF same(1) fl, of im "kernel_process_at im" 0] obtain p u where
      create: "copy_process im PF_KTHREAD (kernel_process_at im) 0 ?s = Inr (int (nr_tasks s), u)"
    and u: "p - VA_START \<in> all_pages - used_pages_of s" "current u = current s" "task u ! nr_tasks s = p"
      "cpu u = cpu ?s" "dev u = dev ?s" "sched_inv u" "running u = insert p (running s)"
    and p: "load_task (mem u) p = thread_struct im p PF_KTHREAD (mem s (current s + off_priority)) (kernel_process_at im) 0"
    unfolding same(2,3) by auto
  have cnt: "0 < cnt (mem u) p"
    using arg_cong [OF p, of counter] current_priority [OF same(4)] by (simp add: load_task_def thread_struct_def cnt_def)
  have run: "running u = {current u, p}" using u(2,7) assms(2) by auto
  have "p \<noteq> current u"
  proof
    assume "p = current u"
    then have "placed VA_START ?s \<and> waiting ?s" using same(1,4) by (simp add: can_create_def sched_inv_def)
    then show False
      using placedD [of VA_START ?s "current ?s" "p - VA_START" 0 0] waitingD(3,4) [of ?s] u(1,2) \<open>p = current u\<close> same(3)
      by auto
  qed
  from timer_l6.idle_switches [OF u(6) run this cnt schedule_yields(1)] obtain t where
    t: "idle schedule u = Switched t" "current t = p" "sched_inv t" "running t = running u"
      "saved_context (cpu t) = load_context (mem u) p" "irq_masked (cpu t) = irq_masked (cpu u)" "dev t = dev u" "task t = task u"
    by blast
  have ctxt: "load_context (mem u) p = zero_context\<lparr>x19 := kernel_process_at im, x20 := 0, sp := task_pt_regs p, pc := ret_from_fork im\<rparr>"
    using arg_cong [OF p, of cpu_ctx] by (simp add: load_task_def thread_struct_def)
  note regs = saved_context_regs [OF t(5) [unfolded ctxt]]
  have "kernel_main pb im s = Switched t"
    using create t(1) by (simp add: kernel_main_def Let_def)
  moreover have "start_forked t = (Some (kernel_process_at im), set_x 0 0 t)"
    using regs assms(3) by (simp add: start_forked_def)
  moreover have "\<exists>v. w_log (dev t) = w_log (uart_init pb (dev s)) @ [Rd (TIMER_CLO pb) v, Wr (TIMER_C1 pb) (v + interval),
      Wr (ENABLE_IRQS_1 pb) SYSTEM_TIMER_IRQ_1]"
    by (simp add: t(7) u(5) start_interrupts_def enable_irq_def enable_interrupt_controller_def timer_init_def
        Let_def split_beta)
  ultimately show ?thesis
    using t u regs run by (intro exI [of _ p] exI [of _ t]) simp
qed

lemma boot_running: "running boot_kernel = {current boot_kernel}" "nr_tasks boot_kernel = 1"
proof -
  have "length (task_words INIT_TASK) = 69" by (rule length_task_words) (simp_all add: INIT_TASK_def MAX_PROCESS_PAGES_def)
  then have "mem boot_kernel (0xffff000000080000 + off_state) = 0"
    using init_task_fields [OF _ _ boot_kernel_def] by (simp add: task_words_def nth_append INIT_TASK_def)
  then show "running boot_kernel = {current boot_kernel}"
    by (auto simp: running_def runs_def boot_kernel_def initial_kernel_def TASK_RUNNING_def)
qed (simp add: boot_kernel_def initial_kernel_def)

theorem kernel_main_boots_witness:
  "\<exists>p t. kernel_main PBASE example_image boot_kernel = Switched t \<and> current t = p \<and> task t ! 1 = p \<and>
    start_forked t = (Some 0xffff000000082000, set_x 0 0 t)"
proof -
  have "kernel_process_at example_image \<noteq> 0" by (simp add: example_image_def)
  from kernel_main_boots [OF boot_create(3) boot_running(1) this, of PBASE] show ?thesis
    by (auto simp: example_image_def boot_running(2))
qed

section \<open>The first user process\<close>

text \<open>
  C10. The first user process of lesson 6. \<open>kernel_process\<close>, run by a kernel thread whose stack
  holds only the frame of \<open>ret_from_fork\<close>, prints its message and returns; \<open>ret_to_user\<close>
  then leaves the kernel for user mode with interrupts enabled, at the offset of
  \<open>user_process\<close> in the image, with the stack pointer at 0x2000 and an empty kernel stack. A
  page that was free is found by the MMU at address 0 and holds the image from \<open>user_begin\<close>
  to \<open>user_end\<close> (in whole doublewords), then zeros.
\<close>

theorem first_user_process:
  assumes "task_page s tab q t" and "addr_space s t tab A" and "t = current s"
    and "5 \<le> card (all_pages - used_pages_of s)"
    and "unat (kernel_pages_count (mm (load_task (mem s) t))) < 12"
    and "unat (user_pages_count (mm (load_task (mem s) t))) < 16"
    and "page_aligned b" and "b < LOW_MEMORY" and "user_begin im = b + VA_START"
    and "n = user_end im - user_begin im" and "rounds n \<le> 512"
    and "line_ready pb 0x20 (dev s)" and "sp_el1 (cpu s) = task_pt_regs t"
  shows "\<exists>s' p. kernel_process pb im 4 s = Returns s' \<and> p \<in> all_pages - used_pages_of s \<and>
    sent pb (dev s') = sent pb (dev s) @ ''Kernel process started. EL 1'' @ crlf \<and>
    elr_el1 (cpu (ret_to_user s')) = user_process_at im - user_begin im \<and>
    spsr_el1 (cpu (ret_to_user s')) = PSR_MODE_EL0t \<and> \<not> irq_masked (cpu (ret_to_user s')) \<and>
    sp_el0 (cpu (ret_to_user s')) = 0x2000 \<and> sp_el1 (cpu (ret_to_user s')) = t + THREAD_SIZE \<and>
    (\<forall>y < 4096. user_walk (mem (ret_to_user s')) (ttbr0_el1 (cpu (ret_to_user s'))) y = Some (p + y)) \<and>
    (\<forall>j < 512. mem (ret_to_user s') (p + VA_START + 8 * word_of_nat j) =
      (if j < rounds n then mem s (b + VA_START + 8 * word_of_nat j) else 0))"
proof -
  let ?fmt = "''Kernel process started. EL %d'' @ crlf" and ?va = "[Slot (word_of_int (get_el 4))]"
  let ?ps = "map Literal ''Kernel process started. EL '' @ [Conversion False 0 CHR ''d''] @ map Literal crlf"
  have el: "get_el 4 = 1" by (simp add: get_el_def as_int_def)
  have good: "list_all good_piece ?ps" by (simp add: crlf_def)
  have out: "format_text ?ps ?va = Some (''Kernel process started. EL 1'' @ crlf)" unfolding el by code_simp
  have spell: "?fmt = concat (map spelling ?ps)" by (simp add: crlf_def)
  obtain w where w: "kernel_printf pb ?fmt ?va s = Some (s\<lparr>dev := w\<rparr>)"
      "sent pb w = sent pb (dev s) @ ''Kernel process started. EL 1'' @ crlf"
    using kernel_printf_text [OF assms(12) good out spell] by blast
  let ?s = "s\<lparr>dev := w\<rparr>"
  have u: "used_pages_of ?s = used_pages_of s" by (rule used_pages_of_cong) simp
  have pre: "task_page ?s tab q t" "addr_space ?s t tab A" "t = current ?s"
      "5 \<le> card (all_pages - used_pages_of ?s)" "unat (kernel_pages_count (mm (load_task (mem ?s) t))) < 12"
      "unat (user_pages_count (mm (load_task (mem ?s) t))) < 16"
    using assms(1-6) by (simp_all add: task_page_def addr_space_def u)
  from user_mode_run [OF pre assms(7,8,11), of "user_process_at im - user_begin im"] obtain p s' where
      run: "move_to_user_mode (b + VA_START) n (user_process_at im - user_begin im) ?s = Inr (0, s')"
    and p: "p \<in> all_pages - used_pages_of s" and cpu: "cpu s' = (cpu s)\<lparr>ttbr0_el1 := mem s' (t + off_pgd)\<rparr>" "dev s' = w"
    and walk: "\<forall>y < 4096. user_walk (mem s') (ttbr0_el1 (cpu s')) y = Some (p + y)"
    and page: "\<forall>j < 512. mem s' (p + VA_START + 8 * word_of_nat j) =
      (if j < rounds n then mem s (b + VA_START + 8 * word_of_nat j) else 0)"
    and frame: "load_pt_regs (mem s') (task_pt_regs t) = (load_pt_regs (mem s) (task_pt_regs t))\<lparr>pt_sp := 2 * PAGE_SIZE,
      pt_pc := user_process_at im - user_begin im, pstate := PSR_MODE_EL0t\<rparr>"
    by (auto simp: u)
  have proc: "kernel_process pb im 4 s = Returns s'"
    using w(1) run by (simp add: kernel_process_def assms(9,10) Let_def)
  have F: "load_pt_regs (mem (disable_irq s')) (sp_el1 (cpu (disable_irq s'))) =
      (load_pt_regs (mem s) (task_pt_regs t))\<lparr>pt_sp := 2 * PAGE_SIZE,
      pt_pc := user_process_at im - user_begin im, pstate := PSR_MODE_EL0t\<rparr>"
    using frame by (simp add: disable_irq_def cpu assms(13))
  note exit = kernel_exit_frame(2-) [where el = 0 and s = "disable_irq s'", unfolded F, folded ret_to_user_def]
  have "mem (ret_to_user s') = mem s'" using arg_cong [OF exit(7), of mem] by (simp add: disable_irq_def)
  moreover have "ttbr0_el1 (cpu (ret_to_user s')) = ttbr0_el1 (cpu s')" using exit(6) by (simp add: disable_irq_def)
  moreover have "sp_el1 (cpu (ret_to_user s')) = t + THREAD_SIZE"
    using exit(1) by (simp add: disable_irq_def cpu assms(13) task_pt_regs_def layout_defs)
  ultimately show ?thesis
    using proc p w(2) cpu(2) walk page exit
    by (intro exI [of _ s'] exI [of _ p]) (simp add: PSR_MODE_EL0t_def map_values)
qed

text \<open>\<open>two_tasks\<close>, with the first task on its own stack.\<close>

definition first_thread :: kernel where
  "first_thread = two_tasks\<lparr>cpu := reset_cpu\<lparr>sp_el1 := task_pt_regs (page_at 0 + VA_START)\<rparr>\<rparr>"

lemma first_thread_same:
  "mem first_thread = mem two_tasks" "mem_map first_thread = mem_map two_tasks" "current first_thread = current two_tasks"
  "dev first_thread = always_ready" "sp_el1 (cpu first_thread) = task_pt_regs (page_at 0 + VA_START)"
  by (simp_all add: first_thread_def two_tasks_def boot_kernel_def initial_kernel_def)

theorem first_user_process_witness:
  "\<exists>s'. kernel_process PBASE example_image 4 first_thread = Returns s' \<and>
    sent PBASE (dev s') = ''Kernel process started. EL 1'' @ crlf \<and> elr_el1 (cpu (ret_to_user s')) = 0x40 \<and>
    sp_el1 (cpu (ret_to_user s')) = page_at 1 + VA_START"
proof -
  have u: "used_pages_of first_thread = used_pages_of two_tasks"
    by (rule used_pages_of_cong) (rule first_thread_same)
  have b: "page_aligned 0x1000" "0x1000 < LOW_MEMORY" "user_begin example_image = 0x1000 + VA_START"
      "0x400 = user_end example_image - user_begin example_image" "rounds 0x400 \<le> 512"
    by (simp_all add: page_aligned_def map_values rounds_def example_image_def)
  have pre: "task_page first_thread Map.empty (page_at 0) (page_at 0 + VA_START)"
      "addr_space first_thread (page_at 0 + VA_START) Map.empty Map.empty" "page_at 0 + VA_START = current first_thread"
      "5 \<le> card (all_pages - used_pages_of first_thread)"
      "unat (kernel_pages_count (mm (load_task (mem first_thread) (page_at 0 + VA_START)))) < 12"
      "unat (user_pages_count (mm (load_task (mem first_thread) (page_at 0 + VA_START)))) < 16"
      "line_ready PBASE 0x20 (dev first_thread)"
    using two_tasks_tasks(1) two_tasks_space two_tasks_current(1) two_tasks_free two_tasks_counts line_ready_always
    by (simp_all add: task_page_def addr_space_def u first_thread_same)
  from first_user_process [OF pre(1-6) b pre(7) first_thread_same(5)]
  obtain s' where s': "kernel_process PBASE example_image 4 first_thread = Returns s'"
    "sent PBASE (dev s') = sent PBASE (dev first_thread) @ ''Kernel process started. EL 1'' @ crlf"
    "elr_el1 (cpu (ret_to_user s')) = user_process_at example_image - user_begin example_image"
    "sp_el1 (cpu (ret_to_user s')) = page_at 0 + VA_START + THREAD_SIZE"
    by blast
  have "page_at 1 = page_at 0 + THREAD_SIZE" by (simp add: page_at_def map_values THREAD_SIZE_def)
  then show ?thesis
    using s' by (intro exI [of _ s']) (simp add: first_thread_same example_image_def sent_def always_ready_def)
qed

end
