(* ===== verification/Syscall_Props.thy ===== *)
theory Syscall_Props
  imports Main_Props
begin

text \<open>
  System calls from user mode and back (lesson 6): what a call through \<open>el0_sync\<close> gives back
  to the user, a write, a number that is no system call, and the two returns of a fork.
\<close>

unbundle bit_operations_syntax

section \<open>The way of a system call\<close>

lemma set_x_simps [simp]:
  "mem (set_x i v s) = mem s" "mem_map (set_x i v s) = mem_map s" "current (set_x i v s) = current s"
  "task (set_x i v s) = task s" "nr_tasks (set_x i v s) = nr_tasks s" "dev (set_x i v s) = dev s"
  "gpr (cpu (set_x i v s)) j = (if j = i then v else gpr (cpu s) j)"
  "sp_el1 (cpu (set_x i v s)) = sp_el1 (cpu s)" "sp_el0 (cpu (set_x i v s)) = sp_el0 (cpu s)"
  "ttbr0_el1 (cpu (set_x i v s)) = ttbr0_el1 (cpu s)" "esr_el1 (cpu (set_x i v s)) = esr_el1 (cpu s)"
  "elr_el1 (cpu (set_x i v s)) = elr_el1 (cpu s)"
  by (simp_all add: set_x_def)

lemma enable_irq_simps [simp]:
  "gpr (cpu (enable_irq s)) = gpr (cpu s)" "sp_el1 (cpu (enable_irq s)) = sp_el1 (cpu s)"
  "ttbr0_el1 (cpu (enable_irq s)) = ttbr0_el1 (cpu s)" "elr_el1 (cpu (enable_irq s)) = elr_el1 (cpu s)"
  "esr_el1 (cpu (enable_irq s)) = esr_el1 (cpu s)" "dev (enable_irq s) = dev s"
  "gpr (cpu (disable_irq s)) = gpr (cpu s)" "sp_el1 (cpu (disable_irq s)) = sp_el1 (cpu s)"
  "ttbr0_el1 (cpu (disable_irq s)) = ttbr0_el1 (cpu s)"
  by (simp_all add: enable_irq_def disable_irq_def)

lemma kernel_entry_simps [simp]:
  "mem_map (kernel_entry el s) = mem_map s" "current (kernel_entry el s) = current s"
  "task (kernel_entry el s) = task s" "nr_tasks (kernel_entry el s) = nr_tasks s" "dev (kernel_entry el s) = dev s"
  "ttbr0_el1 (cpu (kernel_entry el s)) = ttbr0_el1 (cpu s)" "esr_el1 (cpu (kernel_entry el s)) = esr_el1 (cpu s)"
  "gpr (cpu (kernel_entry el s)) 0 = gpr (cpu s) 0" "gpr (cpu (kernel_entry el s)) 8 = gpr (cpu s) 8"
  by (simp_all add: kernel_entry_eq)

text \<open>The state in which the function of a system call is called.\<close>

definition in_syscall :: "kernel \<Rightarrow> kernel" where
  "in_syscall s = (let s1 = kernel_entry 0 s; s1 = set_x 25 (esr_el1 (cpu s1)) s1;
       s1 = set_x 24 (drop_bit 26 (gpr (cpu s1) 25)) s1; s1 = set_x 26 (gpr (cpu s1) 8 AND mask 32) s1
     in enable_irq (set_x 25 NR_syscalls s1))"

lemma in_syscall_simps [simp]:
  "mem (in_syscall s) = mem (kernel_entry 0 s)" "mem_map (in_syscall s) = mem_map s"
  "current (in_syscall s) = current s" "task (in_syscall s) = task s" "nr_tasks (in_syscall s) = nr_tasks s"
  "dev (in_syscall s) = dev s" "ttbr0_el1 (cpu (in_syscall s)) = ttbr0_el1 (cpu s)"
  "sp_el1 (cpu (in_syscall s)) = sp_el1 (cpu s) - 272" "gpr (cpu (in_syscall s)) 0 = gpr (cpu s) 0"
  "gpr (cpu (in_syscall s)) 26 = gpr (cpu s) 8 AND mask 32" "gpr (cpu (in_syscall s)) 25 = 3"
  by (simp_all add: in_syscall_def Let_def kernel_entry_frame(2) NR_syscalls_def)

lemma el0_sync_svc:
  assumes "drop_bit 26 (esr_el1 (cpu s)) = 0x15"
  shows "el0_sync im pb s =
    (if 3 \<le> gpr (cpu s) 8 AND mask 32 then handle_invalid_entry pb 0 Syscall_Error (in_syscall s)
     else case call_syscall im pb (sys_call_table ! unat (gpr (cpu s) 8 AND mask 32)) (in_syscall s) of
       Returns t \<Rightarrow> Returns (ret_from_syscall t) | r \<Rightarrow> r)"
proof -
  have "el0_sync im pb s = el0_svc im pb (set_x 24 0x15 (set_x 25 (esr_el1 (cpu s)) (kernel_entry 0 s)))"
    using assms by (simp add: el0_sync_def Let_def ESR_ELx_EC_SHIFT_def ESR_ELx_EC_SVC64_def)
  moreover have "in_syscall s = enable_irq (set_x 25 NR_syscalls (set_x 26 (gpr (cpu s) 8 AND mask 32)
      (set_x 24 0x15 (set_x 25 (esr_el1 (cpu s)) (kernel_entry 0 s)))))"
    using assms by (simp add: in_syscall_def Let_def)
  ultimately show ?thesis
    by (simp add: el0_svc_def svc_with_def Let_def NR_syscalls_def split: outcome.splits)
qed

text \<open>What the user finds in the registers: \<open>v\<close> in \<open>x0\<close>, everything else as in \<open>c\<close>.\<close>

definition user_state_with :: "u64 \<Rightarrow> cpu \<Rightarrow> cpu \<Rightarrow> bool" where
  "user_state_with v c c' \<longleftrightarrow> gpr c' 0 = v \<and> (\<forall>i. 0 < i \<and> i < 31 \<longrightarrow> gpr c' i = gpr c i) \<and>
     sp_el0 c' = sp_el0 c \<and> elr_el1 c' = elr_el1 c \<and> spsr_el1 c' = spsr_el1 c \<and> irq_masked c' = bit (spsr_el1 c) 7"

lemma user_exit:
  assumes "load_pt_regs (mem s) (sp_el1 (cpu s)) = (trap_frame 0 c)\<lparr>regs := (regs (trap_frame 0 c))[0 := v]\<rparr>"
  shows "user_state_with v c (cpu (kernel_exit 0 s))" "sp_el1 (cpu (kernel_exit 0 s)) = sp_el1 (cpu s) + 272"
    "ttbr0_el1 (cpu (kernel_exit 0 s)) = ttbr0_el1 (cpu s)" "kernel_exit 0 s = s\<lparr>cpu := cpu (kernel_exit 0 s)\<rparr>"
proof -
  note e = kernel_exit_frame [where el = 0 and s = s, unfolded assms]
  have "gpr (cpu (kernel_exit 0 s)) i = (if i = 0 then v else gpr c i)" if "i < 31" for i
    using e(1) [OF that] that by (simp add: trap_frame_def nth_list_update del: upt_Suc)
  from this [of 0] this show "user_state_with v c (cpu (kernel_exit 0 s))"
    using e(3-6) by (auto simp: user_state_with_def trap_frame_def simp del: upt_Suc)
  show "sp_el1 (cpu (kernel_exit 0 s)) = sp_el1 (cpu s) + 272"
    "ttbr0_el1 (cpu (kernel_exit 0 s)) = ttbr0_el1 (cpu s)" "kernel_exit 0 s = s\<lparr>cpu := cpu (kernel_exit 0 s)\<rparr>"
    by (rule e)+
qed

text \<open>The return: the frame of the call is intact and the stack pointer back at it.\<close>

lemma syscall_return:
  assumes "sp_el1 (cpu t) = sp_el1 (cpu s) - 272"
    and "load_pt_regs (mem t) (sp_el1 (cpu s) - 272) = trap_frame 0 (cpu s)"
  shows "user_state_with (gpr (cpu t) 0) (cpu s) (cpu (ret_from_syscall t))"
    "sp_el1 (cpu (ret_from_syscall t)) = sp_el1 (cpu s)" "ttbr0_el1 (cpu (ret_from_syscall t)) = ttbr0_el1 (cpu t)"
    "ret_from_syscall t = t\<lparr>mem := (mem t)(sp_el1 (cpu s) - 272 := gpr (cpu t) 0), cpu := cpu (ret_from_syscall t)\<rparr>"
proof -
  define u where "u = (let s = disable_irq t in s\<lparr>mem := (mem s)(sp_el1 (cpu s) + S_X0 := gpr (cpu s) 0)\<rparr>)"
  have r: "ret_from_syscall t = kernel_exit 0 u" by (simp add: ret_from_syscall_def u_def Let_def)
  have u: "mem u = (mem t)(sp_el1 (cpu s) - 272 := gpr (cpu t) 0)" "sp_el1 (cpu u) = sp_el1 (cpu s) - 272"
      "ttbr0_el1 (cpu u) = ttbr0_el1 (cpu t)" "u\<lparr>cpu := c\<rparr> = t\<lparr>mem := mem u, cpu := c\<rparr>" for c
    by (simp_all add: u_def Let_def assms(1) S_X0_def) (simp add: disable_irq_def)
  have "load_pt_regs (mem u) (sp_el1 (cpu u)) = (trap_frame 0 (cpu s))\<lparr>regs := (regs (trap_frame 0 (cpu s)))[0 := gpr (cpu t) 0]\<rparr>"
    by (simp only: u(1,2) load_pt_regs_x0 assms(2))
  from user_exit [OF this, folded r] show "user_state_with (gpr (cpu t) 0) (cpu s) (cpu (ret_from_syscall t))"
    "sp_el1 (cpu (ret_from_syscall t)) = sp_el1 (cpu s)" "ttbr0_el1 (cpu (ret_from_syscall t)) = ttbr0_el1 (cpu t)"
    "ret_from_syscall t = t\<lparr>mem := (mem t)(sp_el1 (cpu s) - 272 := gpr (cpu t) 0), cpu := cpu (ret_from_syscall t)\<rparr>"
    by (simp_all only: u(1-3)) (simp_all add: u(4) u(1) [symmetric])
qed

section \<open>A write\<close>

text \<open>Text that takes no arguments, and text without conversions.\<close>

lemma buffer_print:
  assumes "line_ready pb 0x20 w" "list_all good_piece ps" "format_text ps [] = Some txt"
  shows "\<exists>w'. tfp_printf (console pb) (c_string (concat (map spelling ps)) []) [] w = Some w' \<and> sent pb w' = sent pb w @ txt"
proof -
  have "stdout_putf (console pb) = putc pb" by (simp add: console_def init_printf_def)
  then show ?thesis using printf_uart_run [OF assms] by blast
qed

lemma plain_text:
  "CHR ''%'' \<notin> set (concat (map spelling ps)) \<Longrightarrow> format_text ps va = Some text_out \<Longrightarrow> text_out = concat (map spelling ps)"
proof (induction ps arbitrary: text_out)
  case (Cons p ps)
  then show ?case by (cases p) (auto simp: bind_eq_Some_conv)
qed simp

text \<open>
  C38. The system call \<open>write\<close> from user mode, as \<open>sys_write\<close> hands the buffer to \<open>printf\<close> as its
  format without arguments. For a buffer that the kernel can read through the process's page tables,
  and that holds characters and conversions that take no argument: what \<open>printf\<close> makes of it, which is the string
  itself if there is no \<open>%\<close> in it, is sent to the UART,
  and the process goes on where it was, with all its registers and its stack as they were;
  the only memory that has changed is the frame on the kernel stack. A buffer that cannot be
  read faults in the kernel. What a conversion that takes an argument prints is not defined.
\<close>

theorem svc_write:
  assumes "drop_bit 26 (esr_el1 (cpu s)) = 0x15" and "gpr (cpu s) 8 AND mask 32 = SYS_WRITE_NUMBER"
  shows "(\<forall>f. read_string (read_byte (kernel_entry 0 s)) (gpr (cpu s) 0) = Some (Inl f) \<longrightarrow> el0_sync im pb s = Faults f) \<and>
    (\<forall>ps text_out. read_string (read_byte (kernel_entry 0 s)) (gpr (cpu s) 0) = Some (Inr (c_string (concat (map spelling ps)) [])) \<and>
        list_all good_piece ps \<and> format_text ps [] = Some text_out \<and> line_ready pb 0x20 (dev s) \<longrightarrow>
      (CHR ''%'' \<notin> set (concat (map spelling ps)) \<longrightarrow> text_out = concat (map spelling ps)) \<and>
      (\<exists>t. el0_sync im pb s = Returns t \<and> sent pb (dev t) = sent pb (dev s) @ text_out \<and>
        user_state_with (gpr (cpu s) 0) (cpu s) (cpu t) \<and> sp_el1 (cpu t) = sp_el1 (cpu s) \<and>
        current t = current s \<and> ttbr0_el1 (cpu t) = ttbr0_el1 (cpu s) \<and>
        (\<forall>a. (\<forall>i < 34. a \<noteq> sp_el1 (cpu s) - 272 + 8 * word_of_nat i) \<longrightarrow> mem t a = mem s a)))"
proof (intro conjI allI impI; (elim conjE)?)
  let ?s = "in_syscall s"
  have rd: "read_byte ?s = read_byte (kernel_entry 0 s)" by (rule ext) (simp add: read_byte_def)
  have "\<not> (3 :: u64) \<le> gpr (cpu s) 8 AND mask 32" by (simp add: assms(2) SYS_WRITE_NUMBER_def)
  note sync = el0_sync_svc [OF assms(1), of im pb, unfolded if_not_P [OF this]]
  have call: "call_syscall im pb (sys_call_table ! unat (gpr (cpu s) 8 AND mask 32)) ?s =
      write_with (\<lambda>_. read_byte (kernel_entry 0 s)) pb (gpr (cpu s) 0) ?s"
    by (simp add: assms(2) SYS_WRITE_NUMBER_def sys_call_table_def sys_write_def write_with_def rd)
  show "el0_sync im pb s = Faults f" if "read_string (read_byte (kernel_entry 0 s)) (gpr (cpu s) 0) = Some (Inl f)" for f
    unfolding sync call by (simp add: write_with_def that)
  fix ps text_out
  assume buf: "read_string (read_byte (kernel_entry 0 s)) (gpr (cpu s) 0) = Some (Inr (c_string (concat (map spelling ps)) []))"
    and ps: "list_all good_piece ps" "format_text ps [] = Some text_out" and ready: "line_ready pb 0x20 (dev s)"
  show "text_out = concat (map spelling ps)" if "CHR ''%'' \<notin> set (concat (map spelling ps))" by (rule plain_text [OF that ps(2)])
  obtain w where w: "tfp_printf (console pb) (c_string (concat (map spelling ps)) []) [] (dev s) = Some w"
      "sent pb w = sent pb (dev s) @ text_out"
    using buffer_print [OF ready ps] by blast
  let ?t = "?s\<lparr>dev := w\<rparr>"
  define t where "t = ret_from_syscall ?t"
  have "load_pt_regs (mem ?t) (sp_el1 (cpu s) - 272) = trap_frame 0 (cpu s)"
    using kernel_entry_frame(1) [of 0 s] by simp
  then have exit: "user_state_with (gpr (cpu s) 0) (cpu s) (cpu t)" "sp_el1 (cpu t) = sp_el1 (cpu s)"
      "ttbr0_el1 (cpu t) = ttbr0_el1 (cpu s)"
      "t = ?t\<lparr>mem := (mem ?t)(sp_el1 (cpu s) - 272 := gpr (cpu ?t) 0), cpu := cpu t\<rparr>"
    using syscall_return [of ?t s] unfolding t_def by simp_all
  have ret: "el0_sync im pb s = Returns t"
    unfolding sync call using w(1) by (simp add: write_with_def buf t_def)
  have "mem t a = mem s a" if a: "\<forall>i < 34. a \<noteq> sp_el1 (cpu s) - 272 + 8 * word_of_nat i" for a
  proof -
    have "a \<noteq> sp_el1 (cpu s) - 272" using a [rule_format, of 0] by simp
    then show ?thesis
      using arg_cong [OF exit(4), of mem] kernel_entry_outside [of a s 0] a by simp
  qed
  moreover have "dev t = w" "current t = current s"
    using arg_cong [OF exit(4), of dev] arg_cong [OF exit(4), of current] by simp_all
  ultimately show "\<exists>t. el0_sync im pb s = Returns t \<and> sent pb (dev t) = sent pb (dev s) @ text_out \<and>
        user_state_with (gpr (cpu s) 0) (cpu s) (cpu t) \<and> sp_el1 (cpu t) = sp_el1 (cpu s) \<and>
        current t = current s \<and> ttbr0_el1 (cpu t) = ttbr0_el1 (cpu s) \<and>
        (\<forall>a. (\<forall>i < 34. a \<noteq> sp_el1 (cpu s) - 272 + 8 * word_of_nat i) \<longrightarrow> mem t a = mem s a)"
    using ret w(2) exit(1-3) by (intro exI [of _ t]) simp
qed

text \<open>A process that writes from an address of the kernel, which the kernel does not refuse.\<close>

definition writing :: kernel where
  "writing = boot_kernel\<lparr>mem := (\<lambda>_. 0)(0xffff000000300000 := 0x6948),
     cpu := reset_cpu\<lparr>esr_el1 := 0x56000000, sp_el1 := 0xffff000000400000,
       gpr := (\<lambda>_. 9)(0 := 0xffff000000300000, 8 := SYS_WRITE_NUMBER)\<rparr>\<rparr>"

lemma writing_simps:
  "esr_el1 (cpu writing) = 0x56000000" "gpr (cpu writing) 0 = 0xffff000000300000" "gpr (cpu writing) 8 = SYS_WRITE_NUMBER"
  "gpr (cpu writing) 5 = 9" "dev writing = always_ready" "mem writing 0xffff000000300000 = 0x6948"
  "sp_el1 (cpu writing) = 0xffff000000400000"
  by (simp_all add: writing_def boot_kernel_def initial_kernel_def)

lemma writing_string: "read_string (read_byte (kernel_entry 0 writing)) 0xffff000000300000 = Some (Inr (c_string ''Hi'' []))"
proof -
  have "mem (kernel_entry 0 writing) 0xffff000000300000 = mem writing 0xffff000000300000"
  proof (rule kernel_entry_outside)
    fix i :: nat assume i: "i < 34"
    have at: "sp_el1 (cpu writing) - 272 + 8 * word_of_nat i = 0xffff0000003ff000 + (3824 + 8 * word_of_nat i)"
      by (simp add: writing_simps)
    have "(0xffff000000300000 :: addr) + 0 \<noteq> 0xffff0000003ff000 + (3824 + 8 * word_of_nat i)"
      by (rule page_offset_neq [OF _ _ _ _ frame_offset(3) [OF i]]) (simp_all add: page_aligned_def)
    then show "0xffff000000300000 \<noteq> sp_el1 (cpu writing) - 272 + 8 * word_of_nat i" unfolding at by simp
  qed
  then have m: "mem (kernel_entry 0 writing) 0xffff000000300000 = 0x6948" by (simp add: writing_simps)
  have "read_byte (kernel_entry 0 writing) 0xffff000000300000 = Inr CHR ''H''"
    "read_byte (kernel_entry 0 writing) 0xffff000000300001 = Inr CHR ''i''"
    "read_byte (kernel_entry 0 writing) 0xffff000000300002 = Inr NUL"
    by (simp_all add: read_byte_def mmu_translate_def map_values byte_at_def m char_of_def bit_0)
  then show ?thesis by (simp add: read_string.simps c_string_def)
qed

theorem svc_write_witness:
  "\<exists>t. el0_sync example_image PBASE writing = Returns t \<and> sent PBASE (dev t) = ''Hi'' \<and> gpr (cpu t) 5 = 9"
proof -
  have "drop_bit 26 (esr_el1 (cpu writing)) = 0x15" "gpr (cpu writing) 8 AND mask 32 = SYS_WRITE_NUMBER"
      "line_ready PBASE 0x20 (dev writing)"
      "read_string (read_byte (kernel_entry 0 writing)) (gpr (cpu writing) 0) = Some (Inr (c_string ''Hi'' []))"
    by (simp_all add: writing_simps SYS_WRITE_NUMBER_def line_ready_always writing_string)
  moreover have "concat (map spelling (map Literal ''Hi'')) = ''Hi''" "list_all good_piece (map Literal ''Hi'')"
      "format_text (map Literal ''Hi'') [] = Some ''Hi''"
    by (simp_all add: spelling_literals good_literals format_literals)
  ultimately obtain t where "el0_sync example_image PBASE writing = Returns t" "sent PBASE (dev t) = sent PBASE (dev writing) @ ''Hi''"
      "user_state_with (gpr (cpu writing) 0) (cpu writing) (cpu t)"
    using svc_write [of writing example_image PBASE] by metis
  then show ?thesis
    by (intro exI [of _ t]) (auto simp: writing_simps user_state_with_def sent_def always_ready_def)
qed

section \<open>A number that is no system call\<close>

text \<open>
  C39. A user process can stop the kernel of lesson 6: a system call with a number of 3 or more (its
  low 32 bits) prints a message that names another error, a fast interrupt from 32-bit code, with
  the syndrome and the address of the call, and the processor stays in \<open>err_hang\<close>.
\<close>

theorem svc_unknown:
  assumes "drop_bit 26 (esr_el1 (cpu s)) = 0x15" and "3 \<le> gpr (cpu s) 8 AND mask 32" and "line_ready pb 0x20 (dev s)"
  shows "\<exists>t. el0_sync im pb s = Hangs t \<and> sent pb (dev t) = sent pb (dev s) @ ''FIQ_INVALID_EL0_32, ESR: '' @
    unsigned_text 16 False (ucast (esr_el1 (cpu s))) @ '', address: '' @
    unsigned_text 16 False (ucast (elr_el1 (cpu s))) @ crlf"
proof -
  let ?s = "kernel_entry 0 (in_syscall s)"
  define u where "u = set_x 2 (elr_el1 (cpu s)) (set_x 1 (esr_el1 (cpu s)) (set_x 0 14 ?s))"
  have regs: "esr_el1 (cpu (in_syscall s)) = esr_el1 (cpu s)" "elr_el1 (cpu (in_syscall s)) = elr_el1 (cpu s)"
    by (simp_all add: in_syscall_def Let_def) (simp add: kernel_entry_eq)
  then have regs': "esr_el1 (cpu ?s) = esr_el1 (cpu s)" "elr_el1 (cpu ?s) = elr_el1 (cpu s)"
    by (simp_all add: kernel_entry_eq)
  have "dev u = dev s" by (simp add: u_def)
  with assms(3) have "line_ready pb 0x20 (dev u)" by simp
  moreover have "entry_error_messages ! nat 14 = ''FIQ_INVALID_EL0_32''" by (simp add: entry_error_messages_def)
  ultimately obtain w where w: "show_invalid_entry_message pb 14 (esr_el1 (cpu s)) (elr_el1 (cpu s)) u = Inr (Some (u\<lparr>dev := w\<rparr>))"
    "sent pb w = sent pb (dev s) @ ''FIQ_INVALID_EL0_32, ESR: '' @ unsigned_text 16 False (ucast (esr_el1 (cpu s))) @
      '', address: '' @ unsigned_text 16 False (ucast (elr_el1 (cpu s))) @ crlf"
    using invalid_entry_message_run [of pb u 14 "esr_el1 (cpu s)" "elr_el1 (cpu s)"] by (auto simp: \<open>dev u = dev s\<close>)
  have "handle_invalid_entry pb 0 Syscall_Error (in_syscall s) = Hangs (u\<lparr>dev := w\<rparr>)"
    using w(1) by (simp add: handle_invalid_entry_def invalid_entry_with_def Let_def regs regs' u_def)
  then show ?thesis using assms(2) w(2) by (simp add: el0_sync_svc [OF assms(1)])
qed

theorem svc_unknown_witness:
  "\<exists>t. el0_sync example_image PBASE (set_x 8 7 writing) = Hangs t \<and>
    sent PBASE (dev t) = ''FIQ_INVALID_EL0_32, ESR: 56000000, address: 0'' @ crlf"
proof -
  let ?s = "set_x 8 7 writing"
  have regs: "esr_el1 (cpu ?s) = 0x56000000" "elr_el1 (cpu ?s) = 0" "gpr (cpu ?s) 8 AND mask 32 = 7"
    by (simp_all add: writing_simps mask_eq_exp_minus_1) (simp add: writing_def reset_cpu_def)
  have d: "dev ?s = always_ready" by (simp add: writing_simps)
  have "unsigned_text 16 False 0x56000000 = ''56000000''"
    by (simp add: unsigned_text_def nat_digits.simps) code_simp
  moreover have "unsigned_text 16 False 0 = ''0''" by code_simp
  moreover have "sent PBASE (dev ?s) = []" unfolding d by (simp add: sent_def always_ready_def)
  moreover have "line_ready PBASE 0x20 (dev ?s)" unfolding d by (rule line_ready_always)
  moreover have "drop_bit 26 (esr_el1 (cpu ?s)) = 0x15" "3 \<le> gpr (cpu ?s) 8 AND mask 32"
    unfolding regs by simp_all
  ultimately show ?thesis
    using svc_unknown [of ?s PBASE example_image] unfolding regs by simp
qed

section \<open>fork returns twice\<close>

lemma in_page_ctx: "x \<in> ctx p \<Longrightarrow> in_page p x"
proof -
  assume "x \<in> ctx p"
  then obtain i where i: "i < 13" "x = p + 8 * word_of_nat i" by (auto simp: ctx_def)
  then have "8 * word_of_nat i < (4096 :: u64)" by (simp add: word_less_nat_alt unat_word_ariths unat_of_nat)
  then show "in_page p x" using i(2) by (auto simp: in_page_def)
qed

text \<open>The first run of a forked task: \<open>switch_to\<close>, \<open>schedule_tail\<close> and the rest of \<open>ret_from_fork\<close>.\<close>

lemma forked_child_runs:
  assumes "load_context (mem u) p = zero_context\<lparr>sp := task_pt_regs p, pc := r\<rparr>"
    and "load_pt_regs (mem u) (task_pt_regs p) = (trap_frame 0 c)\<lparr>regs := (regs (trap_frame 0 c))[0 := 0]\<rparr>"
    and "current u \<noteq> p" and "\<forall>x \<in> ctx (current u). \<not> in_page p x"
  shows "\<exists>w. start_forked (schedule_tail (switch_to p u)) = (None, w) \<and> user_state_with 0 c (cpu w) \<and>
    ttbr0_el1 (cpu w) = mem u (p + off_pgd) \<and> sp_el1 (cpu w) = p + THREAD_SIZE \<and> current w = p"
proof -
  let ?v = "switch_to p u"
  have apart: "ctx (current u) \<inter> ctx p = {}" using assms(4) in_page_ctx by blast
  have ctxt: "saved_context (cpu ?v) = zero_context\<lparr>sp := task_pt_regs p, pc := r\<rparr>"
    using switch_l6.sw_loads [OF assms(3) apart] assms(1) by simp
  have same: "mem ?v (p + y) = mem u (p + y)" if "y < 4096" for y
    using that assms(4) by (intro switch_l6.sw_mem) (auto simp: in_page_def)
  have cur: "current ?v = p" by (rule switch_l6.sw_current)
  let ?t = "schedule_tail ?v"
  have t: "cpu ?t = cpu ?v" "current ?t = p" "mem ?t = (mem ?v)(p + off_preempt_count := mem ?v (p + off_preempt_count) - 1)"
    by (simp_all add: schedule_tail_def preempt_enable_def cur field_defs)
  have sp: "sp_el1 (cpu ?t) = task_pt_regs p" "gpr (cpu ?t) 19 = 0"
    using saved_context_regs [OF ctxt] by (simp_all add: t zero_context_def)
  have "load_pt_regs (mem ?t) (task_pt_regs p) = load_pt_regs (mem u) (task_pt_regs p)"
  proof (rule load_frame_cong)
    fix y :: u64 assume y: "3824 \<le> y" "y < 4096"
    then have "y \<noteq> off_preempt_count" by (auto simp: layout_defs)
    then show "mem ?t (p + y) = mem u (p + y)" using same [OF y(2)] by (simp add: t(3))
  qed
  then have F: "load_pt_regs (mem (disable_irq ?t)) (sp_el1 (cpu (disable_irq ?t))) =
      (trap_frame 0 c)\<lparr>regs := (regs (trap_frame 0 c))[0 := 0]\<rparr>"
    using assms(2) by (simp add: sp)
  have "ttbr0_el1 (cpu ?v) = mem u (p + off_pgd)"
    using assms(3) by (simp add: switch_to_def Let_def cpu_switch_to_def restored_regs_def set_pgd_def)
  then have pgd: "ttbr0_el1 (cpu ?t) = mem u (p + off_pgd)" by (simp only: t(1))
  have "current (kernel_exit 0 (disable_irq ?t)) = p"
    using arg_cong [OF user_exit(4) [OF F], of current] t(2) by simp
  then show ?thesis
    using user_exit(1-3) [OF F] sp pgd
    by (intro exI [of _ "kernel_exit 0 (disable_irq ?t)"])
      (simp add: start_forked_def ret_to_user_def task_pt_regs_def layout_defs)
qed

lemma forkable_cong:
  assumes "mem t = mem s" "mem_map t = mem_map s" "current t = current s" "ttbr0_el1 (cpu t) = ttbr0_el1 (cpu s)"
  shows "forkable t tabP AP qp = forkable s tabP AP qp"
proof -
  have "used_pages_of t = used_pages_of s" by (rule used_pages_of_cong [OF assms(2)])
  then show ?thesis
    by (simp only: forkable_def task_page_def addr_space_def parent_pages_def assms)
qed

text \<open>
  Entering the kernel writes the frame at the end of the current task's page. The other tasks'
  structs are not in that page, so that the conditions of a fork stay.
\<close>

definition own_page :: "kernel \<Rightarrow> bool" where
  "own_page s \<longleftrightarrow> (\<forall>q \<in> set (task s). q \<noteq> 0 \<and> q \<noteq> current s \<longrightarrow> (\<forall>x. unat x < 552 \<longrightarrow> \<not> in_page (current s) (q + x)))"

lemma entry_struct:
  assumes "own_page s" "sp_el1 (cpu s) = current s + THREAD_SIZE" "q \<in> set (task s)" "q \<noteq> 0" "unat x < 552"
  shows "mem (kernel_entry 0 s) (q + x) = mem s (q + x)"
proof (rule kernel_entry_outside)
  fix i :: nat assume i: "i < 34"
  have at: "sp_el1 (cpu s) - 272 + 8 * word_of_nat i = current s + (3824 + 8 * word_of_nat i)"
    by (simp add: assms(2) layout_defs)
  have "unat (3824 + 8 * word_of_nat i :: u64) \<noteq> unat x" unfolding frame_offset(2) [OF i] using assms(5) by linarith
  then have "x \<noteq> 3824 + 8 * word_of_nat i" by blast
  moreover have "q + x \<noteq> current s + (3824 + 8 * word_of_nat i)" if "q \<noteq> current s"
    using assms(1,3-5) that frame_offset(3) [OF i] unfolding own_page_def in_page_def by blast
  ultimately show "q + x \<noteq> sp_el1 (cpu s) - 272 + 8 * word_of_nat i"
    unfolding at by (cases "q = current s") (simp_all only: add_left_cancel not_False_eq_True)
qed

lemma entry_keeps_inv:
  assumes inv: "sched_inv s" and own: "own_page s" "sp_el1 (cpu s) = current s + THREAD_SIZE"
  shows "sched_inv (kernel_entry 0 s)" "running (kernel_entry 0 s) = running s"
proof -
  let ?t = "kernel_entry 0 s"
  have w: "waiting s" using inv by (simp add: sched_inv_def)
  have f: "runs (mem ?t) q = runs (mem s) q" "cnt (mem ?t) q = cnt (mem s) q" "pri (mem ?t) q = pri (mem s) q"
      "preempt ?t q = preempt s q" if "q \<in> set (task s)" "q \<noteq> 0" for q
    using entry_struct [OF own that, of off_state] entry_struct [OF own that, of off_counter]
      entry_struct [OF own that, of off_priority] entry_struct [OF own that, of off_preempt_count]
    by (simp_all add: runs_def cnt_def pri_def preempt_def get_field_def layout_defs)
  have nz: "q \<noteq> 0" if "runs m q" for m q using that by (simp add: runs_def)
  show run: "running ?t = running s" using f(1) nz by (auto simp: running_def)
  have "waiting ?t"
  proof (rule waitingI)
    show "\<exists>p \<in> set (task ?t). runs (mem ?t) p" using waitingD(7) [OF w] f(1) nz by auto
    show "preempt ?t p = (if p = current ?t then 0 else 1)" if "p \<in> set (task ?t)" "p \<noteq> 0" for p
      using that waitingD(8) [OF w] f(4) by simp
    show "in_range (mem ?t) p" if "p \<in> set (task ?t)" "runs (mem ?t) p" for p
    proof -
      have p: "p \<in> set (task s)" "p \<noteq> 0" using that nz by simp_all
      then show ?thesis using that(2) waitingD(9) [OF w p(1)] f [OF p] by (simp add: in_range_def)
    qed
  qed (use waitingD [OF w] in simp_all)
  then show "sched_inv ?t" using inv f(1) [OF waitingD(3,4) [OF w]] by (simp add: sched_inv_def)
qed

lemma entry_keeps:
  assumes "can_create VA_START s" and "forkable s tabP AP qp" and own: "own_page s" "sp_el1 (cpu s) = current s + THREAD_SIZE"
  shows "can_create VA_START (kernel_entry 0 s)" "forkable (kernel_entry 0 s) tabP AP qp"
    "running (kernel_entry 0 s) = running s" "load_task (mem (kernel_entry 0 s)) (current s) = load_task (mem s) (current s)"
    "x \<in> all_pages \<Longrightarrow> x \<noteq> qp \<Longrightarrow> y < 4096 \<Longrightarrow> mem (kernel_entry 0 s) (x + VA_START + y) = mem s (x + VA_START + y)"
proof -
  let ?t = "kernel_entry 0 s" and ?c = "current s"
  have inv: "sched_inv s" using assms(1) by (simp add: can_create_def)
  note keeps = entry_keeps_inv [OF inv own]
  have w: "waiting s" using inv by (simp add: sched_inv_def)
  have used: "used_pages_of ?t = used_pages_of s" by (rule used_pages_of_cong) simp
  show "running ?t = running s" by (rule keeps)
  show "can_create VA_START ?t"
    using assms(1) keeps(1) by (simp add: can_create_def task_table_def placed_def used)
  have small: "mem ?t (?c + y) = mem s (?c + y)" if "unat y < 552" for y
    by (rule entry_struct [OF own waitingD(3,4) [OF w] that])
  show T: "load_task (mem ?t) ?c = load_task (mem s) ?c" by (rule load_task_small_cong) (rule small)
  have tp: "task_page s tabP qp ?c" using assms(2) by (simp add: forkable_def)
  note c = task_pageD [OF tp]
  have "mem ?t (b + y) = mem s (b + y)" if "page_aligned b" "b \<noteq> ?c" "y < 4096" for b y
  proof (rule kernel_entry_outside)
    fix i :: nat assume i: "i < 34"
    have at: "sp_el1 (cpu s) - 272 + 8 * word_of_nat i = ?c + (3824 + 8 * word_of_nat i)"
      by (simp add: own(2) layout_defs)
    show "b + y \<noteq> sp_el1 (cpu s) - 272 + 8 * word_of_nat i"
      unfolding at by (rule page_offset_neq [OF that(1) c(6) that(2,3) frame_offset(3) [OF i]])
  qed
  then show pages: "mem ?t (x + VA_START + y) = mem s (x + VA_START + y)" if "x \<in> all_pages" "x \<noteq> qp" "y < 4096" for x y
    using that c(1) by (simp add: page_aligned_add all_pages_aligned VA_START_aligned)
  have pgd: "mem ?t (?c + off_pgd) = mem s (?c + off_pgd)" by (rule small) (simp add: layout_defs)
  have "addr_space s ?c tabP AP" using assms(2) by (simp add: forkable_def)
  then have "addr_space ?t ?c tabP AP"
  proof (rule addr_space_cong [OF _ pgd])
    fix x y assume "x \<in> ran tabP" "y < (4096 :: u64)"
    then show "mem ?t (x + VA_START + y) = mem s (x + VA_START + y)"
      using c(3,4) used_pages_subset [of s] by (intro pages) auto
  qed
  then show "forkable ?t tabP AP qp"
    using assms(2) unfolding forkable_def task_page_def parent_pages_def kernel_entry_simps used T pgd by blast
qed

text \<open>A change of memory that spares a task's page and its page tables keeps its address space.\<close>

lemma addr_space_other:
  assumes sp: "addr_space s p tab A" and mem: "\<And>b y. page_aligned b \<Longrightarrow> b \<noteq> c \<Longrightarrow> y < 4096 \<Longrightarrow> mem t (b + y) = mem s (b + y)"
    and p: "page_aligned p" "p \<noteq> c" and ran: "\<And>x. x \<in> ran tab \<Longrightarrow> x + VA_START \<noteq> c"
  shows "addr_space t p tab A" "mem t (p + off_pgd) = mem s (p + off_pgd)"
    and "A (vpn va) = Some p' \<Longrightarrow> user_walk (mem t) (mem t (p + off_pgd)) va = user_walk (mem s) (mem s (p + off_pgd)) va"
proof -
  show pgd: "mem t (p + off_pgd) = mem s (p + off_pgd)" using mem [OF p, of off_pgd] by (simp add: layout_defs)
  show t: "addr_space t p tab A"
  proof (rule addr_space_cong [OF sp pgd])
    fix x y assume x: "x \<in> ran tab" and y: "y < (4096 :: u64)"
    have "x \<in> all_pages" using x sp page_tablesD(2) by (auto simp: addr_space_def ran_def split: if_splits)
    then show "mem t (x + VA_START + y) = mem s (x + VA_START + y)"
      using y ran [OF x] by (intro mem) (simp_all add: page_aligned_add all_pages_aligned VA_START_aligned)
  qed
  show "user_walk (mem t) (mem t (p + off_pgd)) va = user_walk (mem s) (mem s (p + off_pgd)) va" if "A (vpn va) = Some p'"
  proof -
    have "mem s (p + off_pgd) \<noteq> 0" using sp that by (auto simp: addr_space_def)
    then show ?thesis using addr_space_walk [OF t, of va] addr_space_walk [OF sp, of va] pgd by simp
  qed
qed

text \<open>The pages a fork copies are not the parent's own, so the entry left them alone.\<close>

lemma parent_page_entered:
  assumes f: "forkable s tabP AP qp" and own: "can_create VA_START s" "own_page s" "sp_el1 (cpu s) = current s + THREAD_SIZE"
    and va: "vpn va = vpn (nth_va (load_task (mem s) (current s)) j)" "j < page_count (load_task (mem s) (current s))"
    and same: "same_page m p' (mem (kernel_entry 0 s)) (the (AP (vpn va)))"
  shows "same_page m p' (mem s) (the (AP (vpn va)))"
proof -
  have "parent_pages s (load_task (mem s) (current s)) AP (insert qp (ran tabP))" using f by (simp add: forkable_def)
  then obtain pp where pp: "AP (vpn va) = Some pp" "pp \<in> used_pages_of s - insert qp (ran tabP)"
    using va unfolding parent_pages_def by metis
  have "pp \<in> all_pages" "pp \<noteq> qp" using pp(2) used_pages_subset [of s] by auto
  then have "mem (kernel_entry 0 s) (pp + VA_START + y) = mem s (pp + VA_START + y)" if "y < 4096" for y
    using that by (intro entry_keeps(5) [OF own(1) f own(2,3)])
  then show ?thesis using same page_run_offset(1) by (simp add: same_page_def pp(1))
qed

text \<open>The first run of a child whose page is as the call that made it left it.\<close>

lemma child_first_run:
  assumes ctxt: "load_context (mem s) p = zero_context\<lparr>sp := task_pt_regs p, pc := ret_from_fork im\<rparr>"
    and frame: "load_pt_regs (mem s) (task_pt_regs p) = (trap_frame 0 c)\<lparr>regs := (regs (trap_frame 0 c))[0 := 0]\<rparr>"
    and same: "\<forall>y < 4096. mem u (p + y) = mem s (p + y)" and u: "current u \<noteq> p" "\<forall>x \<in> ctx (current u). \<not> in_page p x"
  shows "\<exists>w. start_forked (schedule_tail (switch_to p u)) = (None, w) \<and> user_state_with 0 c (cpu w) \<and>
    ttbr0_el1 (cpu w) = mem s (p + off_pgd) \<and> sp_el1 (cpu w) = p + THREAD_SIZE \<and> current w = p"
proof -
  have "load_context (mem u) p = load_context (mem s) p"
    by (rule load_context_cong) (use same in_page_ctx in \<open>auto simp: in_page_def\<close>)
  moreover have "load_pt_regs (mem u) (task_pt_regs p) = load_pt_regs (mem s) (task_pt_regs p)"
    using same by (intro load_frame_cong) simp
  moreover have "mem u (p + off_pgd) = mem s (p + off_pgd)" using same by (simp add: layout_defs)
  ultimately show ?thesis
    using forked_child_runs [OF _ _ u, of "ret_from_fork im" c] ctxt frame by simp
qed

text \<open>
  C8. A fork returns twice (lesson 6). A user process makes the system call \<open>fork\<close>, with its
  kernel stack empty, and a fork is possible (the conditions of \<open>fork_user_process\<close>). The parent
  comes back from the exception with the number of the child in \<open>x0\<close> and all its other
  registers, its stack pointers, its program counter, its state and its page tables as they
  were. The child, whenever it is first switched to (its page as the parent's call left it),
  goes to user mode at the same place with the same registers, except 0 in \<open>x0\<close>, on its own
  kernel stack and with its own page tables; these map exactly the parent's pages, to pages that
  were free, with the same contents.
\<close>

theorem fork_returns_twice:
  assumes "can_create VA_START s" and "forkable s tabP AP qp" and "own_page s"
    and "sp_el1 (cpu s) = current s + THREAD_SIZE" and "drop_bit 26 (esr_el1 (cpu s)) = 0x15"
    and "gpr (cpu s) 8 AND mask 32 = SYS_FORK_NUMBER_l6" and "T = load_task (mem s) (current s)"
  shows "\<exists>t p AC. el0_sync im pb s = Returns t \<and> current t = current s \<and> p \<in> running t - running s \<and>
    p - VA_START \<in> all_pages - used_pages_of s \<and> user_state_with (word_of_nat (nr_tasks s)) (cpu s) (cpu t) \<and> sp_el1 (cpu t) = sp_el1 (cpu s) \<and>
    ttbr0_el1 (cpu t) = ttbr0_el1 (cpu s) \<and>
    dom AC = {vpn (nth_va T j) | j. j < page_count T} \<and>
    (\<forall>va p'. AC (vpn va) = Some p' \<longrightarrow> p' \<in> used_pages_of t - used_pages_of s \<and>
       user_walk (mem t) (mem t (p + off_pgd)) va = Some (p' + (va AND mask PAGE_SHIFT)) \<and>
       same_page (mem t) p' (mem s) (the (AP (vpn va)))) \<and>
    (\<forall>u. (\<forall>y < 4096. mem u (p + y) = mem t (p + y)) \<and> current u \<noteq> p \<and> (\<forall>x \<in> ctx (current u). \<not> in_page p x) \<longrightarrow>
       (\<exists>w. start_forked (schedule_tail (switch_to p u)) = (None, w) \<and> user_state_with 0 (cpu s) (cpu w) \<and>
          ttbr0_el1 (cpu w) = mem t (p + off_pgd) \<and> sp_el1 (cpu w) = p + THREAD_SIZE \<and> current w = p))"
proof -
  let ?s = "in_syscall s" and ?c = "current s"
  note keeps = entry_keeps [OF assms(1-4)]
  have cong: "can_create VA_START ?s" "running ?s = running (kernel_entry 0 s)" "used_pages_of ?s = used_pages_of s"
      "used_pages_of (kernel_entry 0 s) = used_pages_of s"
    using kernel_cong [of ?s "kernel_entry 0 s"] keeps(1) used_pages_of_cong [of "kernel_entry 0 s" s] by simp_all
  have forkable: "forkable ?s tabP AP qp"
    using keeps(2) forkable_cong [of ?s "kernel_entry 0 s"] by simp
  note c = task_pageD [of ?s tabP qp "current ?s"]
  have c: "?c = qp + VA_START" "qp \<in> used_pages_of s" "qp \<in> all_pages" "page_aligned ?c"
    using c forkable by (simp_all add: forkable_def cong(3))
  have frame_at: "sp_el1 (cpu s) - 272 = task_pt_regs ?c" by (simp add: assms(4) task_pt_regs_def layout_defs)
  have frame: "load_pt_regs (mem (kernel_entry 0 s)) (task_pt_regs ?c) = trap_frame 0 (cpu s)"
    using kernel_entry_frame(1) [of 0 s] by (simp add: frame_at)
  have T: "T = load_task (mem ?s) (current ?s)" by (simp only: assms(7) in_syscall_simps keeps(4))
  have "(0 :: u64) AND PF_KTHREAD = 0" by simp
  from fork_run [OF cong(1) forkable this T, of im 0 0] obtain p s' tabC AC where
      run: "copy_process im 0 0 0 ?s = Inr (int (nr_tasks s), s')"
    and p: "p - VA_START \<in> all_pages - used_pages_of s" "current s' = ?c"
    and childF: "load_pt_regs (mem s') (task_pt_regs p) =
        (trap_frame 0 (cpu s))\<lparr>regs := (regs (trap_frame 0 (cpu s)))[0 := 0]\<rparr>"
    and childC: "load_context (mem s') p = zero_context\<lparr>sp := task_pt_regs p, pc := ret_from_fork im\<rparr>"
    and space: "addr_space s' p tabC AC" "dom AC = {vpn (nth_va T j) | j. j < page_count T}"
      "ran tabC \<inter> used_pages_of s = {}"
    and pages: "\<forall>va p'. AC (vpn va) = Some p' \<longrightarrow> p' \<in> used_pages_of s' - used_pages_of s \<and>
       user_walk (mem s') (mem s' (p + off_pgd)) va = Some (p' + (va AND mask PAGE_SHIFT)) \<and>
       same_page (mem s') p' (mem (kernel_entry 0 s)) (the (AP (vpn va)))"
    and keep: "\<forall>b. page_aligned b \<and> b - VA_START \<notin> all_pages - used_pages_of s \<longrightarrow>
        (\<forall>y < 4096. mem s' (b + y) = mem (kernel_entry 0 s) (b + y))"
    and rest: "cpu s' = cpu ?s" "running s' = insert p (running s)"
    unfolding cong(2,3) in_syscall_simps frame keeps(3) by blast
  \<comment> \<open>the parent\<close>
  define t0 where "t0 = set_x 0 (word_of_nat (nr_tasks s)) s'"
  have call: "call_syscall im pb (sys_call_table ! unat (gpr (cpu s) 8 AND mask 32)) ?s = Returns t0"
    using run by (simp add: assms(6) SYS_FORK_NUMBER_l6_def sys_call_table_def sys_fork_def created_def int_result_def t0_def)
  have sp0: "sp_el1 (cpu t0) = sp_el1 (cpu s) - 272" by (simp add: t0_def rest)
  have "load_pt_regs (mem t0) (task_pt_regs ?c) = load_pt_regs (mem (kernel_entry 0 s)) (task_pt_regs ?c)"
    using keep c by (intro load_frame_cong) (simp add: t0_def)
  then have F: "load_pt_regs (mem t0) (sp_el1 (cpu s) - 272) = trap_frame 0 (cpu s)" using frame by (simp add: frame_at)
  define t where "t = ret_from_syscall t0"
  note exit = syscall_return [OF sp0 F, folded t_def]
  have ret: "el0_sync im pb s = Returns t"
  proof -
    have "\<not> (3 :: u64) \<le> gpr (cpu s) 8 AND mask 32" by (simp add: assms(6) SYS_FORK_NUMBER_l6_def word_le_nat_alt)
    then show ?thesis by (simp only: el0_sync_svc [OF assms(5)] if_False call outcome.case t_def)
  qed
  have t: "mem t = (mem s')(task_pt_regs ?c := word_of_nat (nr_tasks s))" "current t = ?c" "task t = task s'"
      "mem_map t = mem_map s'" "nr_tasks t = nr_tasks s'"
    using arg_cong [OF exit(4), of mem] arg_cong [OF exit(4), of current] arg_cong [OF exit(4), of task]
      arg_cong [OF exit(4), of mem_map] arg_cong [OF exit(4), of nr_tasks] p(2)
    by (simp_all add: t0_def frame_at)
  have used_t: "used_pages_of t = used_pages_of s'" by (rule used_pages_of_cong) (rule t(4))
  \<comment> \<open>other pages do not see the result in the frame\<close>
  have other: "mem t (b + y) = mem s' (b + y)" if "page_aligned b" "b \<noteq> ?c" "y < 4096" for b y
  proof -
    have "task_pt_regs ?c = ?c + 3824" by (simp add: task_pt_regs_def layout_defs)
    then have "b + y \<noteq> task_pt_regs ?c" using page_offset_neq [OF that(1) c(4) that(2,3), of 3824] by simp
    then show ?thesis by (simp add: t(1))
  qed
  have al: "page_aligned p" "p \<noteq> ?c"
    using p(1) c all_pages_aligned page_aligned_add [OF _ VA_START_aligned, of "p - VA_START"] by auto
  have inside: "mem t (p + y) = mem s' (p + y)" if "y < 4096" for y by (rule other [OF al that])
  \<comment> \<open>the child's address space\<close>
  have new: "x + VA_START \<noteq> ?c" "page_aligned (x + VA_START)" if "x \<in> all_pages" "x \<notin> used_pages_of s" for x
    using that c(1,2) by (auto simp: page_aligned_add all_pages_aligned VA_START_aligned)
  have new': "x + VA_START \<noteq> ?c" if "x \<in> ran tabC" for x
  proof -
    have "x \<in> all_pages" using that space(1) page_tablesD(2) by (auto simp: addr_space_def ran_def split: if_splits)
    then show ?thesis using that space(3) new [of x] by auto
  qed
  have child_space: "mem t (p + off_pgd) = mem s' (p + off_pgd)" "AC (vpn va) = Some p' \<Longrightarrow>
      user_walk (mem t) (mem t (p + off_pgd)) va = user_walk (mem s') (mem s' (p + off_pgd)) va" for va p'
    by (rule addr_space_other [OF space(1) other al new']; assumption)+
  have walk: "p' \<in> used_pages_of t - used_pages_of s \<and>
      user_walk (mem t) (mem t (p + off_pgd)) va = Some (p' + (va AND mask PAGE_SHIFT)) \<and>
      same_page (mem t) p' (mem s) (the (AP (vpn va)))" if va: "AC (vpn va) = Some p'" for va p'
  proof -
    have facts: "p' \<in> used_pages_of s' - used_pages_of s"
        "user_walk (mem s') (mem s' (p + off_pgd)) va = Some (p' + (va AND mask PAGE_SHIFT))"
        "same_page (mem s') p' (mem (kernel_entry 0 s)) (the (AP (vpn va)))"
      using pages va by blast+
    have "same_page (mem t) p' (mem (kernel_entry 0 s)) (the (AP (vpn va)))"
      using facts(1) used_pages_subset [of s'] new [of p'] by (intro same_page_memory [OF facts(3)] other) auto
    moreover obtain j where "vpn va = vpn (nth_va T j)" "j < page_count T"
      using va space(2) by blast
    ultimately have "same_page (mem t) p' (mem s) (the (AP (vpn va)))"
      using parent_page_entered [OF assms(2,1,3,4)] unfolding assms(7) by blast
    then show ?thesis using facts used_t child_space(2) [OF va] by simp
  qed
  \<comment> \<open>the child's first run\<close>
  have child: "\<exists>w. start_forked (schedule_tail (switch_to p u)) = (None, w) \<and> user_state_with 0 (cpu s) (cpu w) \<and>
          ttbr0_el1 (cpu w) = mem t (p + off_pgd) \<and> sp_el1 (cpu w) = p + THREAD_SIZE \<and> current w = p"
    if u: "\<forall>y < 4096. mem u (p + y) = mem t (p + y)" "current u \<noteq> p" "\<forall>x \<in> ctx (current u). \<not> in_page p x" for u
    using child_first_run [OF childC childF _ u(2,3)] u(1) inside child_space(1) by simp
  have x0: "gpr (cpu t0) 0 = word_of_nat (nr_tasks s)" by (simp add: t0_def)
  have "p \<in> running s'" using rest(2) by simp
  then have "p \<in> running t" using inside [of off_state] t(3) by (simp add: running_def runs_def layout_defs)
  moreover have "p \<notin> running s"
  proof
    assume "p \<in> running s"
    then have "p \<in> set (task ?s)" "p \<noteq> 0" by (auto simp: running_def runs_def)
    then show False
      using placedD [of VA_START ?s p "p - VA_START" 0 0] cong(1,3) p(1) by (simp add: can_create_def)
  qed
  ultimately have "p \<in> running t - running s" by simp
  then show ?thesis
    using ret t(2) p(1) exit(1-3) x0 space(2) walk child
    by (intro exI [of _ t] exI [of _ p] exI [of _ AC]) (simp add: t0_def rest(1))
qed

text \<open>\<open>fork_parent\<close> in user mode, about to make the call, with 7 in most registers.\<close>

definition forking :: kernel where
  "forking = fork_parent\<lparr>cpu := (cpu fork_parent)\<lparr>sp_el1 := task_B + THREAD_SIZE, esr_el1 := 0x56000000,
     gpr := \<lambda>i. if i = 8 then SYS_FORK_NUMBER_l6 else 7\<rparr>\<rparr>"

lemma forking_same:
  "mem forking = mem fork_parent" "mem_map forking = mem_map fork_parent" "current forking = current fork_parent"
  "task forking = task fork_parent" "nr_tasks forking = nr_tasks fork_parent"
  "ttbr0_el1 (cpu forking) = ttbr0_el1 (cpu fork_parent)" "sp_el1 (cpu forking) = task_B + THREAD_SIZE"
  "esr_el1 (cpu forking) = 0x56000000" "gpr (cpu forking) 8 = SYS_FORK_NUMBER_l6" "gpr (cpu forking) 5 = 7"
  by (simp_all add: forking_def)

theorem fork_returns_twice_witness:
  "\<exists>t p w. el0_sync example_image PBASE forking = Returns t \<and> gpr (cpu t) 0 = 2 \<and> gpr (cpu t) 5 = 7 \<and>
    start_forked (schedule_tail (switch_to p (t\<lparr>current := task_A\<rparr>))) = (None, w) \<and>
    gpr (cpu w) 0 = 0 \<and> gpr (cpu w) 5 = 7"
proof -
  obtain tab where f: "can_create VA_START fork_parent"
    "forkable fork_parent tab (Map.empty(vpn 0x1000 \<mapsto> page_at 2)) (page_at 0)"
    "nr_tasks fork_parent = 2" "current fork_parent = task_B" "task fork_parent = [task_A, task_B] @ replicate 62 0"
    by (rule fork_parent_facts)
  have ok: "can_create VA_START forking" "forkable forking tab (Map.empty(vpn 0x1000 \<mapsto> page_at 2)) (page_at 0)"
    using f(1,2) kernel_cong(2) [OF forking_same(1-5)] forkable_cong [OF forking_same(1-3,6)] by simp_all
  have "\<not> in_page task_B (task_A + x)" if "unat x < 552" for x
    using pair_offsets [of x] that by (auto simp: in_page_def word_less_nat_alt)
  then have "own_page forking"
    by (auto simp: own_page_def forking_same f(4,5))
  moreover have "sp_el1 (cpu forking) = current forking + THREAD_SIZE" "drop_bit 26 (esr_el1 (cpu forking)) = 0x15"
      "gpr (cpu forking) 8 AND mask 32 = SYS_FORK_NUMBER_l6"
    by (simp_all add: forking_same f(4) SYS_FORK_NUMBER_l6_def mask_eq_exp_minus_1)
  moreover have nr: "word_of_nat (nr_tasks forking) = (2 :: u64)" by (simp add: forking_same f(3))
  moreover note fork_returns_twice [OF ok _ _ _ _ refl, of example_image PBASE]
  ultimately obtain t p where t: "el0_sync example_image PBASE forking = Returns t" "user_state_with 2 (cpu forking) (cpu t)"
    and p: "p - VA_START \<in> all_pages - used_pages_of forking"
    and child: "\<forall>u. (\<forall>y < 4096. mem u (p + y) = mem t (p + y)) \<and> current u \<noteq> p \<and> (\<forall>x \<in> ctx (current u). \<not> in_page p x) \<longrightarrow>
       (\<exists>w. start_forked (schedule_tail (switch_to p u)) = (None, w) \<and> user_state_with 0 (cpu forking) (cpu w) \<and>
          ttbr0_el1 (cpu w) = mem t (p + off_pgd) \<and> sp_el1 (cpu w) = p + THREAD_SIZE \<and> current w = p)"
    unfolding nr by blast
  have A: "task_A + x \<noteq> p + y" if "unat x < 552" "y < 4096" for x y
    using task_A_placed [OF _ that, of "p - VA_START"] p by simp
  then have "\<not> in_page p x" if "x \<in> ctx task_A" for x
    using that page_run_offset(2) by (auto simp: ctx_def in_page_def)
  moreover have "task_A \<noteq> p" using A [of 0 0] by simp
  ultimately obtain w where "start_forked (schedule_tail (switch_to p (t\<lparr>current := task_A\<rparr>))) = (None, w)"
      "user_state_with 0 (cpu forking) (cpu w)"
    using child [rule_format, of "t\<lparr>current := task_A\<rparr>"] by auto
  then show ?thesis
    using t by (intro exI [of _ t] exI [of _ p] exI [of _ w]) (simp add: user_state_with_def forking_same)
qed

end
