(* ===== verification/Page_Map.thy ===== *)
theory Page_Map
  imports Syscalls
begin

text \<open>
  The type of the page map: whatever the kernels of lessons 4 to 6 do, the entries of
  \<open>mem_map\<close> are 0 or 1. Every function but \<open>free_page\<close> only turns entries for existing pages
  from 0 to 1.
\<close>

unbundle bit_operations_syntax

section \<open>Taking pages\<close>

definition pages_taken :: "kernel \<Rightarrow> kernel \<Rightarrow> bool" where
  "pages_taken s t \<longleftrightarrow> (\<forall>i. mem_map t i = mem_map s i \<or> i < PAGING_PAGES \<and> mem_map s i = 0 \<and> mem_map t i = 1)"

lemma pages_taken_same [simp]: "mem_map t = mem_map s \<Longrightarrow> pages_taken s t"
  by (simp add: pages_taken_def)

lemma pages_taken_trans [trans]: "pages_taken s t \<Longrightarrow> pages_taken t u \<Longrightarrow> pages_taken s u"
  unfolding pages_taken_def by metis

lemma pages_taken_cong: "mem_map s' = mem_map s \<Longrightarrow> mem_map t' = mem_map t \<Longrightarrow> pages_taken s' t' \<longleftrightarrow> pages_taken s t"
  by (simp add: pages_taken_def)

lemma get_free_page_taken:
  "get_free_page_l5 s = (p, t) \<Longrightarrow> pages_taken s t" "get_free_page s = (p, t) \<Longrightarrow> pages_taken s t"
proof -
  show "get_free_page_l5 s = (p, t) \<Longrightarrow> pages_taken s t"
    by (cases rule: get_free_page_l5_cases [of s]) (auto simp: pages_taken_def split: if_splits)
  show "get_free_page s = (p, t) \<Longrightarrow> pages_taken s t"
    by (cases rule: get_free_page_l5_cases [of s]) (auto simp: pages_taken_def split: if_splits)
qed

lemma mem_map_simps [simp]:
  "mem_map (set_field off p v s) = mem_map s" "mem_map (set_mem f s) = mem_map s"
  "mem_map (preempt_disable s) = mem_map s" "mem_map (preempt_enable s) = mem_map s"
  "mem_map (set_pgd v s) = mem_map s" "mem_map (copy_regs p s) = mem_map s"
  by (simp_all add: set_field_def set_mem_def preempt_disable_def preempt_enable_def set_pgd_def copy_regs_def Let_def)

lemma allocate_kernel_page_taken: "allocate_kernel_page s = (p, t) \<Longrightarrow> pages_taken s t"
  using get_free_page_taken(2) by (auto simp: allocate_kernel_page_def split: prod.splits if_splits)

lemma map_table_taken: "map_table table shift va s = (p, b, t) \<Longrightarrow> pages_taken s t"
  using get_free_page_taken(2) [of s]
  by (auto simp: map_table_def Let_def pages_taken_def split: prod.splits if_splits)

lemma map_page_taken: "pages_taken s (map_page t va page s)"
proof -
  define s1 where "s1 = (if mem s (t + off_pgd) = 0
               then (case get_free_page s of (p, s) \<Rightarrow>
                   set_mem (\<lambda>m. push_kernel_page t (m (t + off_pgd)) m)
                     (set_mem (\<lambda>m. m(t + off_pgd := p)) s))
               else s)"
  have s1: "pages_taken s s1"
    using get_free_page_taken(2) [of s] by (auto simp: s1_def pages_taken_def split: prod.splits)
  obtain pud b1 s2 where 2: "map_table (mem s1 (t + off_pgd) + VA_START) PGD_SHIFT va s1 = (pud, b1, s2)"
    by (metis prod_cases3)
  define s3 where "s3 = (if b1 then set_mem (push_kernel_page t pud) s2 else s2)"
  obtain pmd b2 s4 where 4: "map_table (pud + VA_START) PUD_SHIFT va s3 = (pmd, b2, s4)" by (metis prod_cases3)
  define s5 where "s5 = (if b2 then set_mem (push_kernel_page t pmd) s4 else s4)"
  obtain pte b3 s6 where 6: "map_table (pmd + VA_START) PMD_SHIFT va s5 = (pte, b3, s6)" by (metis prod_cases3)
  have "mem_map (map_page t va page s) = mem_map s6"
    using 2 4 6 by (simp add: map_page_def Let_def s1_def [symmetric] s3_def [symmetric] s5_def [symmetric])
  moreover have "pages_taken s s2" by (rule pages_taken_trans [OF s1 map_table_taken [OF 2]])
  then have "pages_taken s s3" by (simp add: s3_def pages_taken_def)
  then have "pages_taken s s4" by (rule pages_taken_trans [OF _ map_table_taken [OF 4]])
  then have "pages_taken s s5" by (simp add: s5_def pages_taken_def)
  then have "pages_taken s s6" by (rule pages_taken_trans [OF _ map_table_taken [OF 6]])
  ultimately show ?thesis by (simp add: pages_taken_def)
qed

lemma allocate_user_page_taken: "allocate_user_page t va s = (p, u) \<Longrightarrow> pages_taken s u"
  using get_free_page_taken(2) [of s] pages_taken_trans [OF _ map_page_taken]
  by (auto simp: allocate_user_page_def split: prod.splits if_splits)

lemma copy_virt_taken: "copy_virt_loop dst src i s = Inr (r, t) \<Longrightarrow> pages_taken s t"
proof (induction dst src i s arbitrary: t rule: copy_virt_loop.induct)
  case (1 dst src i s)
  obtain k u where alloc: "allocate_user_page dst (virt_addr (load_user_page (mem s) src i)) s = (k, u)"
    by (cases "allocate_user_page dst (virt_addr (load_user_page (mem s) src i)) s")
  note taken = allocate_user_page_taken [OF alloc]
  show ?case
  proof (cases "int i < sint (ld32 (mem s) (src + off_user_pages_count)) \<and> k \<noteq> 0")
    case False
    then show ?thesis using "1.prems" taken alloc by (subst (asm) copy_virt_loop.simps) (auto split: if_splits)
  next
    case True
    then obtain m where m: "copy_virt_loop dst src (Suc i) (u\<lparr>mem := m\<rparr>) = Inr (r, t)"
      using "1.prems" alloc by (subst (asm) copy_virt_loop.simps) (auto split: if_splits)
    have "pages_taken (u\<lparr>mem := m\<rparr>) t"
      by (rule "1.IH" [OF _ refl alloc [symmetric] _ m]) (use True in simp_all)
    then have "pages_taken u t" by (simp add: pages_taken_def)
    then show ?thesis using taken pages_taken_trans by blast
  qed
qed

section \<open>The functions that call them\<close>

lemma add_task_map: "add_task p s = Inr (pid, t) \<Longrightarrow> mem_map t = mem_map s"
  by (auto simp: add_task_def Let_def split: if_splits)

lemma start_task_map: "start_task im off p fl s = Inr (r, t) \<Longrightarrow> mem_map t = mem_map s"
  using add_task_map by (fastforce simp: start_task_def Let_def)

lemma copy_process_taken:
  "copy_process_l4 im fn arg s = Inr (r, t) \<Longrightarrow> pages_taken s t"
  "copy_process_l5 im fl fn arg stack s = Inr (r, t) \<Longrightarrow> pages_taken s t"
  "copy_process im fl fn arg s = Inr (r, t) \<Longrightarrow> pages_taken s t"
proof -
  obtain p u where get: "get_free_page_l5 (preempt_disable s) = (p, u)" by (cases "get_free_page_l5 (preempt_disable s)")
  have l5: "pages_taken s u" using get_free_page_taken(1) [OF get] by (simp add: pages_taken_def)
  show "copy_process_l4 im fn arg s = Inr (r, t) \<Longrightarrow> pages_taken s t"
    using l5 add_task_map by (fastforce simp: copy_process_l4_def Let_def get pages_taken_def split: if_splits)
  show "copy_process_l5 im fl fn arg stack s = Inr (r, t) \<Longrightarrow> pages_taken s t"
    using l5 start_task_map by (auto simp: copy_process_l5_def Let_def get pages_taken_def split: if_splits dest!: start_task_map)
  obtain q v where kp: "allocate_kernel_page (preempt_disable s) = (q, v)" by (cases "allocate_kernel_page (preempt_disable s)")
  have l6: "pages_taken s v" using allocate_kernel_page_taken [OF kp] by (simp add: pages_taken_def)
  show "pages_taken s t" if run: "copy_process im fl fn arg s = Inr (r, t)"
  proof (cases "q = 0 \<or> fl AND PF_KTHREAD \<noteq> 0")
    case True
    then show ?thesis
      using run l6 by (auto simp: copy_process_def Let_def kp pages_taken_def split: if_splits dest!: start_task_map)
  next
    case False
    then obtain i w where c: "copy_virt_memory q (copy_regs q v) = Inr (i, w)" and st: "start_task im off_flags q fl w = Inr (r, t)"
      using run by (auto simp: copy_process_def Let_def kp split: if_splits)
    have "pages_taken (copy_regs q v) w" using copy_virt_taken c by (simp add: copy_virt_memory_def)
    then have "pages_taken v w" by (simp add: pages_taken_def)
    then have "pages_taken s w" by (rule pages_taken_trans [OF l6])
    then show ?thesis using start_task_map [OF st] by (simp add: pages_taken_def)
  qed
qed

lemma move_to_user_mode_taken:
  "move_to_user_mode_l5 user_pc s = (r, t) \<Longrightarrow> pages_taken s t"
  "move_to_user_mode start n user_pc s = Inr (r, t) \<Longrightarrow> pages_taken s t"
proof -
  let ?rs = "task_pt_regs (current s)"
  let ?s5 = "set_field off_pstate ?rs PSR_MODE_EL0t (set_field off_pt_pc ?rs user_pc (set_mem (memzero ?rs sizeof_pt_regs) s))"
  obtain p u where get: "get_free_page_l5 ?s5 = (p, u)" by (cases "get_free_page_l5 ?s5")
  have "pages_taken s u" using get_free_page_taken(1) [OF get] by (simp add: pages_taken_def)
  then show "move_to_user_mode_l5 user_pc s = (r, t) \<Longrightarrow> pages_taken s t"
    by (auto simp: move_to_user_mode_l5_def Let_def get pages_taken_def split: if_splits)
  let ?s6 = "set_field off_pt_sp ?rs (2 * PAGE_SIZE) (set_field off_pstate ?rs PSR_MODE_EL0t (set_field off_pt_pc ?rs user_pc s))"
  obtain q v where alloc: "allocate_user_page (current ?s6) 0 ?s6 = (q, v)" by (cases "allocate_user_page (current ?s6) 0 ?s6")
  have "pages_taken s v" using allocate_user_page_taken [OF alloc] by (simp add: pages_taken_def)
  then show "move_to_user_mode start n user_pc s = Inr (r, t) \<Longrightarrow> pages_taken s t"
    using alloc by (auto simp: move_to_user_mode_def Let_def pages_taken_def split: if_splits)
qed

lemma do_mem_abort_taken: "do_mem_abort a esr s = (r, t) \<Longrightarrow> pages_taken s t"
proof -
  obtain p u where get: "get_free_page s = (p, u)" by (cases "get_free_page s")
  have "pages_taken s (map_page (current u) (a AND PAGE_MASK) p u)"
    by (rule pages_taken_trans [OF get_free_page_taken(2) [OF get] map_page_taken])
  then show "do_mem_abort a esr s = (r, t) \<Longrightarrow> pages_taken s t"
    using get_free_page_taken(2) [OF get]
    by (auto simp: do_mem_abort_def Let_def get pages_taken_def split: if_splits)
qed

lemma sys_malloc_taken: "sys_malloc s = (v, t) \<Longrightarrow> pages_taken s t"
  using get_free_page_taken(1) by (auto simp: sys_malloc_def split: prod.splits if_splits)

text \<open>The scheduler leaves the page map alone.\<close>

lemma schedule_map:
  "do_schedule s = Some t \<Longrightarrow> mem_map t = mem_map s" "do_schedule_l5 s = Some t \<Longrightarrow> mem_map t = mem_map s"
  "do_schedule_l4 s = Some t \<Longrightarrow> mem_map t = mem_map s"
  by (auto simp: do_schedule_def do_schedule_l5_def do_schedule_l4_def schedule_with_def Let_def
      switch_l6.sw_rest switch_l5.sw_rest switch_l4.sw_rest)

text \<open>The end of a task; in lesson 5 with the stack given back.\<close>

lemma schedule_calls_map:
  "schedule s = Some t \<Longrightarrow> mem_map t = mem_map s" "schedule_l5 s = Some t \<Longrightarrow> mem_map t = mem_map s"
  "schedule_l4 s = Some t \<Longrightarrow> mem_map t = mem_map s" "exit_process s = Some t \<Longrightarrow> mem_map t = mem_map s"
proof -
  show yield: "schedule s = Some t \<Longrightarrow> mem_map t = mem_map s" "schedule_l5 s = Some t \<Longrightarrow> mem_map t = mem_map s"
    "schedule_l4 s = Some t \<Longrightarrow> mem_map t = mem_map s" for s
    unfolding schedule_def schedule_l5_def schedule_l4_def by (drule schedule_map, simp)+
  show "exit_process s = Some t \<Longrightarrow> mem_map t = mem_map s"
    unfolding exit_process_def Let_def by (drule yield(1)) simp
qed

lemma free_page_map: "free_page p s = Inr t \<Longrightarrow> \<exists>i < PAGING_PAGES. mem_map t = (mem_map s)(i := 0)"
  by (auto simp: free_page_def Let_def split: if_splits)

lemma exit_process_l5_map:
  assumes "exit_process_l5 s = Inr (Some t)"
  shows "mem_map t = mem_map s \<or> (\<exists>i < PAGING_PAGES. mem_map t = (mem_map s)(i := 0))"
proof -
  define m where "m = (preempt_disable s)\<lparr>mem := mark_zombie (current (preempt_disable s)) (task (preempt_disable s)) (mem (preempt_disable s))\<rparr>"
  have m: "mem_map m = mem_map s" by (simp add: m_def)
  have "res_bind (if get_field off_stack_l5 (current m) m \<noteq> 0 then free_page (get_field off_stack_l5 (current m) m) m else Inr m)
      (\<lambda>s. Inr (schedule_l5 (preempt_enable s))) = Inr (Some t)"
    using assms by (simp only: exit_process_l5_def Let_def m_def)
  then obtain u where u: "u = m \<or> (\<exists>p. free_page p m = Inr u)" "schedule_l5 (preempt_enable u) = Some t"
    by (cases "free_page (get_field off_stack_l5 (current m) m) m") (auto split: if_splits)
  then show ?thesis using schedule_calls_map(2) [OF u(2)] free_page_map [of _ m u] m by auto
qed

lemma tick_map:
  assumes "\<And>s t. sched s = Some t \<Longrightarrow> mem_map t = mem_map s" "tick_with sched s = Some t"
  shows "mem_map t = mem_map s"
  using assms(2) by (auto simp: tick_with_def Let_def enable_irq_def dest!: assms(1) split: if_splits)

lemma irq_map:
  assumes "\<And>s t. timer pb s = Some t \<Longrightarrow> mem_map t = mem_map s" "irq_with timer pb s = Some t"
  shows "mem_map t = mem_map s"
  using assms(2)
  by (auto simp: irq_with_def Let_def kernel_printf_def split: prod.splits if_splits dest!: assms(1))

lemma handle_irq_map:
  "handle_irq pb s = Some t \<Longrightarrow> mem_map t = mem_map s" "handle_irq_l5 pb s = Some t \<Longrightarrow> mem_map t = mem_map s"
  "handle_irq_l4 pb s = Some t \<Longrightarrow> mem_map t = mem_map s"
proof -
  have rearm: "mem_map (timer_rearm pb s) = mem_map s" for s by (simp add: timer_rearm_def Let_def)
  have "handle_timer_irq pb s = Some t \<Longrightarrow> mem_map t = mem_map s" "handle_timer_irq_l5 pb s = Some t \<Longrightarrow> mem_map t = mem_map s"
    "handle_timer_irq_l4 pb s = Some t \<Longrightarrow> mem_map t = mem_map s" for s t
    using tick_map [of do_schedule "timer_rearm pb s" t] tick_map [of do_schedule_l5 "timer_rearm pb s" t]
      tick_map [of do_schedule_l4 "timer_rearm pb s" t] schedule_map rearm
    by (simp_all add: handle_timer_irq_def handle_timer_irq_l5_def handle_timer_irq_l4_def
        timer_tick_def timer_tick_l5_def timer_tick_l4_def)
  then show "handle_irq pb s = Some t \<Longrightarrow> mem_map t = mem_map s" "handle_irq_l5 pb s = Some t \<Longrightarrow> mem_map t = mem_map s"
    "handle_irq_l4 pb s = Some t \<Longrightarrow> mem_map t = mem_map s"
    using irq_map [of handle_timer_irq pb s t] irq_map [of handle_timer_irq_l5 pb s t] irq_map [of handle_timer_irq_l4 pb s t]
    by (simp_all add: handle_irq_def handle_irq_l5_def handle_irq_l4_def)
qed

section \<open>The type of the page map\<close>

text \<open>Any function of the kernels that could change the page map.\<close>

inductive page_op :: "kernel \<Rightarrow> kernel \<Rightarrow> bool" where
  "page_op s (snd (get_free_page s))"
| "page_op s (snd (get_free_page_l5 s))"
| "page_op s (snd (allocate_kernel_page s))"
| "page_op s (snd (allocate_user_page t va s))"
| "page_op s (map_page t va page s)"
| "copy_virt_memory dst s = Inr (r, t) \<Longrightarrow> page_op s t"
| "copy_process_l4 im fn arg s = Inr (r, t) \<Longrightarrow> page_op s t"
| "copy_process_l5 im fl fn arg stack s = Inr (r, t) \<Longrightarrow> page_op s t"
| "copy_process im fl fn arg s = Inr (r, t) \<Longrightarrow> page_op s t"
| "page_op s (snd (move_to_user_mode_l5 user_pc s))"
| "move_to_user_mode start n user_pc s = Inr (r, t) \<Longrightarrow> page_op s t"
| "page_op s (snd (do_mem_abort a esr s))"
| "page_op s (snd (sys_malloc s))"
| "free_page p s = Inr t \<Longrightarrow> page_op s t"
| "sched \<in> {schedule, schedule_l5, schedule_l4} \<Longrightarrow> sched s = Some t \<Longrightarrow> page_op s t"
| "irq \<in> {handle_irq, handle_irq_l5, handle_irq_l4} \<Longrightarrow> irq pb s = Some t \<Longrightarrow> page_op s t"
| "exit_process s = Some t \<Longrightarrow> page_op s t"
| "exit_process_l5 s = Inr (Some t) \<Longrightarrow> page_op s t"

text \<open>A page that a caller gets.\<close>

inductive handed_out :: "kernel \<Rightarrow> addr \<Rightarrow> kernel \<Rightarrow> bool" where
  "get_free_page s = (p, t) \<Longrightarrow> p \<noteq> 0 \<Longrightarrow> handed_out s p t"
| "get_free_page_l5 s = (p, t) \<Longrightarrow> p \<noteq> 0 \<Longrightarrow> handed_out s p t"
| "allocate_kernel_page s = (a, t) \<Longrightarrow> a \<noteq> 0 \<Longrightarrow> handed_out s (a - VA_START) t"
| "allocate_user_page tsk va s = (a, t) \<Longrightarrow> a \<noteq> 0 \<Longrightarrow> handed_out s (a - VA_START) t"
| "sys_malloc s = (a, t) \<Longrightarrow> a \<noteq> -1 \<Longrightarrow> handed_out s a t"

lemma get_free_page_hands_out:
  "get_free_page_l5 s = (p, t) \<Longrightarrow> p \<noteq> 0 \<Longrightarrow> p \<in> used_pages_of t - used_pages_of s"
  "get_free_page s = (p, t) \<Longrightarrow> p \<noteq> 0 \<Longrightarrow> p \<in> used_pages_of t - used_pages_of s"
  by (cases rule: get_free_page_l5_cases [of s]; auto simp: used_pages_of_def page_at_inj)+

lemma pages_taken_used: "pages_taken s t \<Longrightarrow> used_pages_of s \<subseteq> used_pages_of t"
  unfolding pages_taken_def used_pages_of_def by (auto intro!: image_eqI) (metis zero_neq_one)

lemma handed_out_fresh:
  assumes "handed_out s p t"
  shows "p \<in> used_pages_of t - used_pages_of s"
  using assms
proof cases
  case (4 tsk va a)
  obtain q u where q: "get_free_page s = (q, u)" by (cases "get_free_page s")
  then have "q \<noteq> 0" "p = q" "t = map_page tsk va q u"
    using 4 by (auto simp: allocate_user_page_def split: if_splits)
  then show ?thesis
    using get_free_page_hands_out(2) [OF q] pages_taken_used [OF map_page_taken [of u tsk va q]] by blast
qed (use get_free_page_hands_out [of s] in \<open>auto simp: allocate_kernel_page_def sys_malloc_def split: prod.splits if_splits\<close>)

definition map_typed :: "kernel \<Rightarrow> bool" where
  "map_typed s \<longleftrightarrow> (\<forall>i. mem_map s i \<in> {0, 1} \<and> (PAGING_PAGES \<le> i \<longrightarrow> mem_map s i = 0))"

lemma taken_typed: "pages_taken s t \<Longrightarrow> map_typed s \<Longrightarrow> map_typed t"
  unfolding pages_taken_def map_typed_def by (metis insert_iff not_le)

lemma freed_typed: "map_typed s \<Longrightarrow> mem_map t = (mem_map s)(i := 0) \<Longrightarrow> map_typed t"
  by (simp add: map_typed_def)

lemma page_op_taken:
  assumes "page_op s t"
  shows "pages_taken s t \<or> (\<exists>i < PAGING_PAGES. mem_map t = (mem_map s)(i := 0))"
  using assms
proof cases
  case 14
  then show ?thesis using free_page_map by blast
next
  case (15 sched)
  then have "mem_map t = mem_map s" using schedule_calls_map by blast
  then show ?thesis by simp
next
  case (16 irq pb)
  then have "mem_map t = mem_map s" using handle_irq_map by blast
  then show ?thesis by simp
next
  case 17
  then show ?thesis using schedule_calls_map(4) by simp
next
  case 18
  then show ?thesis using exit_process_l5_map [of s t] pages_taken_same by blast
qed (use get_free_page_taken allocate_kernel_page_taken allocate_user_page_taken map_page_taken copy_virt_taken
      copy_process_taken move_to_user_mode_taken do_mem_abort_taken sys_malloc_taken in
      \<open>(metis prod.collapse copy_virt_memory_def)+\<close>)

text \<open>
  C31. The page map over any sequence of calls of the allocators of lessons 4 to 6, of
  \<open>free_page\<close>, of the functions that allocate (page tables, copies of processes, user mode,
  page faults, \<open>malloc\<close>), of \<open>schedule\<close>, of the interrupt handler and of \<open>exit_process\<close>, which
  in lesson 5 gives the stack back. From a state in which each of the 257024 entries of \<open>mem_map\<close>
  is 0 or 1 and nothing lies beyond them it leads to such a state, with a used page for each entry
  that is 1; and a page that an allocator hands out there was not in use, and is from then on.
\<close>

theorem page_map_typed:
  assumes "page_op\<^sup>*\<^sup>* s t" and "map_typed s"
  shows "map_typed t \<and> used_pages_of t = page_at ` {i. mem_map t i = 1} \<and>
    (\<forall>p u. handed_out t p u \<longrightarrow> map_typed u \<and> p \<in> used_pages_of u - used_pages_of t)"
proof -
  have step: "map_typed u" if "page_op t u" "map_typed t" for t u
    using page_op_taken [OF that(1)] taken_typed freed_typed that(2) by blast
  have typed: "map_typed t"
    using assms by (induction rule: rtranclp_induct) (use step in blast)+
  moreover have "used_pages_of t = page_at ` {i. mem_map t i = 1}"
  proof -
    have "i < PAGING_PAGES \<and> mem_map t i \<noteq> 0 \<longleftrightarrow> mem_map t i = 1" for i
      using typed unfolding map_typed_def by (metis insertE not_le singletonD zero_neq_one)
    then show ?thesis by (auto simp: used_pages_of_def)
  qed
  moreover have "map_typed u" if "handed_out t p u" for p u
  proof -
    have "page_op t u"
      using that by cases (metis page_op.intros(1-4,13) snd_conv)+
    then show ?thesis using step typed by blast
  qed
  ultimately show ?thesis using handed_out_fresh by blast
qed

theorem page_map_typed_witness:
  "map_typed (snd (get_free_page boot_kernel)) \<and>
    fst (get_free_page boot_kernel) \<notin> used_pages_of boot_kernel \<and>
    fst (get_free_page boot_kernel) \<in> used_pages_of (snd (get_free_page boot_kernel))"
proof -
  have "map_typed boot_kernel" by (simp add: map_typed_def boot_kernel_def initial_kernel_def)
  moreover have "fst (get_free_page boot_kernel) \<noteq> 0"
  proof (cases rule: get_free_page_l5_cases [of boot_kernel])
    case 2
    then have "card all_pages = 0" using boot_kernel_unused by (metis card.empty)
    then show ?thesis by (simp add: card_all_pages map_values)
  qed (simp add: page_at_nonzero)
  then have "handed_out boot_kernel (fst (get_free_page boot_kernel)) (snd (get_free_page boot_kernel))"
    by (intro handed_out.intros(1)) simp_all
  ultimately show ?thesis using page_map_typed [OF rtranclp.rtrancl_refl, of boot_kernel] by blast
qed

end
