(* ===== verification/Kernel_Steps.thy ===== *)
theory Kernel_Steps
  imports Main_Props
begin

text \<open>
  The kernel of lesson 6 over time, as a step relation: timer interrupts, calls of \<open>schedule\<close>,
  the creation of kernel threads, the end of a task, and what the tasks do in between. An
  invariant of the task table and the page map holds in every state reached without a refused
  creation, and the steps refine those of an abstract machine whose state is the set of running tasks and the task
  that has the processor.
\<close>

section \<open>The steps\<close>

datatype kernel_event = Interrupted | Yielded | Created | Refused | Ended | Computed

text \<open>What a task may change between two calls of the scheduler: anything but the task table
  and the scheduler's fields of a struct; pages may be taken, none are given back.\<close>

definition tasks_kept :: "kernel \<Rightarrow> kernel \<Rightarrow> bool" where
  "tasks_kept s t \<longleftrightarrow> current t = current s \<and> task t = task s \<and> nr_tasks t = nr_tasks s \<and>
     used_pages_of s \<subseteq> used_pages_of t \<and>
     (\<forall>p \<in> set (task s). p \<noteq> 0 \<longrightarrow> (\<forall>off \<in> {off_state, off_counter, off_priority, off_preempt_count}.
       mem t (p + off) = mem s (p + off)))"

text \<open>
  The code of each step, for kernel threads (\<open>Process_Steps\<close> has the user processes). The creation of a thread
  is \<open>Created\<close> if there is a free page and \<open>Refused\<close> if there is none; with a full table it
  faults, and there is no step (\<open>task_table_overflow\<close>). \<open>init\<close> is the address of \<open>init_task\<close>, whose code,
  \<open>kernel_main\<close>, never calls \<open>exit_process\<close>.
\<close>

inductive kernel_step :: "image \<Rightarrow> addr \<Rightarrow> addr \<Rightarrow> kernel \<Rightarrow> kernel_event \<Rightarrow> kernel \<Rightarrow> bool"
  for im pb init where
  interrupted: "handle_irq pb s = Some t \<Longrightarrow> kernel_step im pb init s Interrupted t"
| yielded: "schedule s = Some t \<Longrightarrow> kernel_step im pb init s Yielded t"
| created: "copy_process im fl fn arg s = Inr (r, t) \<Longrightarrow> fl AND PF_KTHREAD \<noteq> 0 \<Longrightarrow>
    used_pages_of s \<noteq> all_pages \<Longrightarrow> kernel_step im pb init s Created t"
| refused: "copy_process im fl fn arg s = Inr (r, t) \<Longrightarrow> fl AND PF_KTHREAD \<noteq> 0 \<Longrightarrow>
    used_pages_of s = all_pages \<Longrightarrow> kernel_step im pb init s Refused t"
| ended: "exit_process s = Some t \<Longrightarrow> current s \<noteq> init \<Longrightarrow> kernel_step im pb init s Ended t"
| computed: "tasks_kept s t \<Longrightarrow> kernel_step im pb init s Computed t"

inductive_cases interruptedE: "kernel_step im pb init s Interrupted t"
inductive_cases yieldedE: "kernel_step im pb init s Yielded t"
inductive_cases createdE: "kernel_step im pb init s Created t"
inductive_cases refusedE: "kernel_step im pb init s Refused t"
inductive_cases endedE: "kernel_step im pb init s Ended t"
inductive_cases computedE: "kernel_step im pb init s Computed t"

inductive kernel_reach :: "image \<Rightarrow> addr \<Rightarrow> addr \<Rightarrow> kernel \<Rightarrow> kernel_event list \<Rightarrow> kernel \<Rightarrow> bool"
  for im pb init where
  reach_refl: "kernel_reach im pb init s [] s"
| reach_step: "kernel_reach im pb init s es t \<Longrightarrow> kernel_step im pb init t e u \<Longrightarrow>
    kernel_reach im pb init s (es @ [e]) u"

section \<open>The abstract machine\<close>

text \<open>The running tasks and the one that has the processor.\<close>

type_synonym tasks_view = "addr set \<times> addr"

definition view :: "kernel \<Rightarrow> tasks_view" where
  "view s = (running s, current s)"

inductive view_step :: "addr \<Rightarrow> tasks_view \<Rightarrow> kernel_event \<Rightarrow> tasks_view \<Rightarrow> bool" for init where
  "c' \<in> R \<Longrightarrow> view_step init (R, c) Interrupted (R, c')"
| "c' \<in> R \<Longrightarrow> view_step init (R, c) Yielded (R, c')"
| "p \<notin> R \<Longrightarrow> p \<noteq> 0 \<Longrightarrow> view_step init (R, c) Created (insert p R, c)"
| "view_step init (R, c) Refused (R, c)"
| "c' \<in> R - {c} \<Longrightarrow> c \<noteq> init \<Longrightarrow> view_step init (R, c) Ended (R - {c}, c')"
| "view_step init (R, c) Computed (R, c)"

inductive_simps view_step_simps [simp]:
  "view_step init (R, c) Interrupted v" "view_step init (R, c) Yielded v"
  "view_step init (R, c) Created v" "view_step init (R, c) Refused v" "view_step init (R, c) Ended v" "view_step init (R, c) Computed v"

inductive view_reach :: "addr \<Rightarrow> tasks_view \<Rightarrow> kernel_event list \<Rightarrow> tasks_view \<Rightarrow> bool" for init where
  view_refl: "view_reach init v [] v"
| view_more: "view_reach init v es w \<Longrightarrow> view_step init w e x \<Longrightarrow> view_reach init v (es @ [e]) x"

section \<open>The invariant\<close>

definition kernel_inv :: "addr \<Rightarrow> kernel \<Rightarrow> bool" where
  "kernel_inv init s \<longleftrightarrow> sched_inv s \<and> task_table s \<and> placed VA_START s \<and> init \<in> running s"

lemma kernel_invD:
  assumes "kernel_inv init s"
  shows "sched_inv s" "task_table s" "placed VA_START s" "init \<in> running s" "waiting s" "current s \<in> running s"
  using assms current_running by (simp_all add: kernel_inv_def sched_inv_def)

text \<open>A step that keeps the table and takes pages at most keeps the invariant.\<close>

lemma kernel_inv_keep:
  assumes "kernel_inv init s" and "sched_inv t" "task t = task s" "nr_tasks t = nr_tasks s"
    and "used_pages_of s \<subseteq> used_pages_of t" "init \<in> running t"
  shows "kernel_inv init t"
proof -
  have "placed VA_START t"
    using kernel_invD(3) [OF assms(1)] Diff_mono [OF subset_refl assms(5)]
    unfolding placed_def assms(3) by blast
  then show ?thesis using assms by (simp add: kernel_inv_def task_table_def)
qed

lemma tasks_kept_fields:
  assumes "tasks_kept s t" "p \<in> set (task s)"
  shows "runs (mem t) p \<longleftrightarrow> runs (mem s) p"
    and "p \<noteq> 0 \<Longrightarrow> cnt (mem t) p = cnt (mem s) p" "p \<noteq> 0 \<Longrightarrow> pri (mem t) p = pri (mem s) p"
    and "p \<noteq> 0 \<Longrightarrow> preempt t p = preempt s p"
  using assms by (auto simp: tasks_kept_def runs_def cnt_def pri_def preempt_def get_field_def)

lemma tasks_kept_inv:
  assumes keep: "tasks_kept s t" and inv: "sched_inv s"
  shows "sched_inv t" "running t = running s"
proof -
  have w: "waiting s" and cur: "runs (mem s) (current s)" using inv by (simp_all add: sched_inv_def)
  have same: "current t = current s" "task t = task s" using keep by (simp_all add: tasks_kept_def)
  note f = tasks_kept_fields [OF keep]
  have "waiting t"
  proof (rule waitingI; unfold same)
    show "\<exists>p \<in> set (task s). runs (mem t) p" using waitingD(7) [OF w] f(1) by blast
    show "in_range (mem t) p" if p: "p \<in> set (task s)" "runs (mem t) p" for p
      using waitingD(9) [OF w p(1)] f [OF p(1)] p(2) by (simp add: in_range_def runs_def)
    show "preempt t p = (if p = current s then 0 else 1)" if "p \<in> set (task s)" "p \<noteq> 0" for p
      using f(4) [OF that] waitingD(8) [OF w that] by simp
  qed (use waitingD [OF w] in simp_all)
  then show "sched_inv t" using f(1) [OF waitingD(3) [OF w]] cur by (simp add: sched_inv_def same)
  show "running t = running s" using f(1) by (auto simp: running_def same)
qed

section \<open>Each step\<close>

text \<open>What \<open>_schedule\<close> leaves alone besides.\<close>

lemma do_schedule_keeps:
  assumes "sched_state s" "do_schedule s = Some t"
  shows "nr_tasks t = nr_tasks s" "mem_map t = mem_map s"
proof -
  obtain u where "do_schedule s = Some u" "scheduled s u" using sched_l6.sched_meets [OF assms(1)] by blast
  then have "scheduled s t" using assms(2) by simp
  then show "nr_tasks t = nr_tasks s" "mem_map t = mem_map s" by (simp_all add: scheduled_def)
qed

lemma events_keep:
  assumes inv: "sched_inv s" and step: "sched_step do_schedule e s = Some t"
  shows "nr_tasks t = nr_tasks s" "mem_map t = mem_map s"
proof -
  let ?s = "set_field off_counter (current s) 0 s"
  have state: "sched_state ?s" "sched_state (enable_irq ?s)"
    using sched_l6.give_up [OF inv disjI1 [OF refl]] sched_l6.give_up [OF inv disjI2 [OF refl]] waitingD(1) by metis+
  have "nr_tasks t = nr_tasks s \<and> mem_map t = mem_map s"
  proof (cases e)
    case Yield
    then show ?thesis using step do_schedule_keeps [OF state(1)] by (simp add: yield_with_def)
  next
    case Tick
    show ?thesis
    proof (cases "1 < cnt (mem s) (current s)")
      case True
      then show ?thesis using Tick step tick_cases(1) [OF inv True] by auto
    next
      case False
      then show ?thesis
        using Tick step tick_cases(2) [OF inv] do_schedule_keeps [OF state(2)] by auto
    qed
  qed
  then show "nr_tasks t = nr_tasks s" "mem_map t = mem_map s" by simp_all
qed

lemma handle_irq_cases:
  assumes "handle_irq pb s = Some t"
  obtains w where "t = s\<lparr>dev := w\<rparr>"
  | u where "t = u" "tick_with do_schedule (timer_rearm pb (s\<lparr>dev := snd (get32 (IRQ_PENDING_1 pb) (dev s))\<rparr>)) = Some u"
  using assms
  by (auto simp: handle_irq_def irq_with_def split_beta handle_timer_irq_def timer_tick_def kernel_printf_def
      Let_def split: if_splits)

lemma interrupted_inv:
  assumes inv: "kernel_inv init s" and irq: "handle_irq pb s = Some t"
  shows "kernel_inv init t" "running t = running s"
proof -
  note i = kernel_invD [OF inv]
  have "sched_inv t \<and> task t = task s \<and> nr_tasks t = nr_tasks s \<and> mem_map t = mem_map s \<and> running t = running s"
    using irq
  proof (cases rule: handle_irq_cases)
    case (1 w)
    then show ?thesis using i(1) by (simp add: running_def)
  next
    case (2 u)
    let ?r = "timer_rearm pb (s\<lparr>dev := snd (get32 (IRQ_PENDING_1 pb) (dev s))\<rparr>)"
    have r: "sched_inv ?r" "task ?r = task s" "nr_tasks ?r = nr_tasks s" "mem_map ?r = mem_map s"
      "running ?r = running s"
      using i(1) by (simp_all add: timer_rearm_def Let_def running_def)
    have step: "sched_step do_schedule Tick ?r = Some t" using 2 by simp
    show ?thesis using sched_l6.step_inv [OF r(1), of Tick] events_keep [OF r(1) step] step r by auto
  qed
  then show "kernel_inv init t" "running t = running s"
    using kernel_inv_keep [OF inv, of t] i(4) used_pages_of_cong [of s t] by auto
qed

lemma yielded_inv:
  assumes inv: "kernel_inv init s"
  obtains t where "schedule s = Some t" "kernel_inv init t" "running t = running s"
proof -
  note i = kernel_invD [OF inv]
  obtain t where t: "sched_step do_schedule Yield s = Some t" "sched_inv t" "task t = task s" "running t = running s"
    using sched_l6.step_inv [OF i(1), of Yield] by blast
  show thesis
    using t kernel_inv_keep [OF inv t(2,3)] events_keep [OF i(1) t(1)] i(4) used_pages_of_cong [of s t]
    by (intro that [of t]) (simp_all add: schedule_yields)
qed

lemma created_inv:
  assumes inv: "kernel_inv init s" and free: "used_pages_of s \<noteq> all_pages" "nr_tasks s < NR_TASKS"
    and fl: "fl AND PF_KTHREAD \<noteq> 0"
  obtains p t where "copy_process im fl fn arg s = Inr (int (nr_tasks s), t)" "kernel_inv init t"
    "current t = current s" "running t = insert p (running s)" "p \<notin> running s" "p \<noteq> 0"
proof -
  note i = kernel_invD [OF inv]
  have can: "can_create VA_START s" using i free by (simp add: can_create_def)
  obtain p t where t: "copy_process im fl fn arg s = Inr (int (nr_tasks s), t)" "p - VA_START \<in> all_pages - used_pages_of s"
      "current t = current s" "sched_inv t" "task_table t" "placed VA_START t" "running t = insert p (running s)"
    using thread_run [OF can fl, of im fn arg] by blast
  have "p \<notin> running s"
  proof
    assume "p \<in> running s"
    then have "p \<in> set (task s)" "p \<noteq> 0" by (auto simp: running_def runs_def)
    then show False using placedD [OF i(3), of p "p - VA_START" 0 0] t(2) by simp
  qed
  moreover have "p \<in> running t" using t(7) by simp
  then have "p \<noteq> 0" by (auto simp: running_def runs_def)
  ultimately show thesis using t i(4) by (intro that [of t p]) (simp_all add: kernel_inv_def)
qed

lemma ended_inv:
  assumes inv: "kernel_inv init s" and "current s \<noteq> init"
  obtains t where "exit_process s = Some t" "kernel_inv init t" "running t = running s - {current s}"
proof -
  note i = kernel_invD [OF inv]
  have cur: "current s \<in> set (task s)" by (rule waitingD(3) [OF i(5)])
  obtain t where t: "yield_with do_schedule (set_field off_state (current s) TASK_ZOMBIE s) = Some t"
      "sched_inv t" "task t = task s" "running t = running s - {current s}" "mem_map t = mem_map s"
      "nr_tasks t = nr_tasks s"
    by (rule exit_scheduled [OF i(1,4) assms(2) [symmetric] sched_l6.scheduler_axioms])
  have "exit_process s = Some t"
    using t(1) by (simp only: exit_process_def Let_def exit_marks [OF cur] schedule_def yield_with_def)
  then show thesis
    using t kernel_inv_keep [OF inv t(2,3)] i(4) assms(2) used_pages_of_cong [of s t]
    by (intro that [of t]) simp_all
qed

text \<open>A thread is only created with a free entry of \<open>task\<close>; a refused creation is seen in the preemption count only.\<close>

lemma start_task_room: "start_task im off p fl s = Inr (r, t) \<Longrightarrow> nr_tasks s < NR_TASKS"
  by (rule ccontr) (simp add: start_task_def add_task_def Let_def)

lemma thread_entry:
  assumes run: "copy_process im fl fn arg s = Inr (r, t)" and fl: "fl AND PF_KTHREAD \<noteq> 0" and free: "used_pages_of s \<noteq> all_pages"
  shows "nr_tasks s < NR_TASKS"
proof -
  obtain p mp where kp: "p + VA_START \<noteq> 0" "allocate_kernel_page (preempt_disable s) = (p + VA_START, s\<lparr>mem_map := mp,
      mem := memzero (p + VA_START) PAGE_SIZE (mem (preempt_disable s))\<rparr>)"
    by (rule kernel_page_run [OF free])
  show ?thesis
    using run fl kp(1) by (auto simp: copy_process_def Let_def kp(2) dest!: start_task_room)
qed

lemma refused_run:
  assumes "used_pages_of s = all_pages"
  shows "copy_process im fl fn arg s = Inr (1, preempt_disable s)"
  using no_page_alloc [OF assms] by (simp add: copy_process_def Let_def)

lemma view_same:
  assumes "task t = task s" "current t = current s"
    "\<And>p. p \<in> set (task s) \<Longrightarrow> p \<noteq> 0 \<Longrightarrow> mem t (p + off_state) = mem s (p + off_state)"
  shows "view t = view s"
  using assms by (auto simp: view_def running_def runs_def)

lemma refused_view:
  assumes "waiting s"
  shows "view (preempt_disable s) = view s"
proof (rule view_same)
  note w = waitingD [OF assms]
  show "mem (preempt_disable s) (p + off_state) = mem s (p + off_state)" if "p \<in> set (task s)" "p \<noteq> 0" for p
    by (rule preempt_disable_same(2) [OF w(2-4) that]) (simp_all add: layout_defs)
qed (simp_all add: preempt_disable_mem)

section \<open>Every run\<close>

lemma kernel_step_refines:
  assumes "kernel_step im pb init s e t" and inv: "kernel_inv init s"
  shows "(e \<noteq> Refused \<longrightarrow> kernel_inv init t) \<and> view_step init (view s) e (view t)"
  using assms(1)
proof cases
  case interrupted
  then show ?thesis
    using interrupted_inv [OF inv] kernel_invD(6) [of init t] by (simp add: view_def)
next
  case yielded
  then show ?thesis
    using yielded_inv [OF inv] kernel_invD(6) [of init t] by (simp add: view_def) (metis option.inject)
next
  case (created fl fn arg r)
  then show ?thesis
    using created_inv [OF inv created(4) thread_entry [OF created(2-4)] created(3), of im fn arg] by (auto simp: view_def)
next
  case (refused fl fn arg r)
  then have "t = preempt_disable s" using refused_run by simp
  then show ?thesis using refused(1) refused_view [OF kernel_invD(5) [OF inv]] by (simp add: view_def)
next
  case ended
  obtain u where u: "exit_process s = Some u" "kernel_inv init u" "running u = running s - {current s}"
    by (rule ended_inv [OF inv ended(3)])
  then show ?thesis
    using ended kernel_invD(6) [OF u(2)] by (simp add: view_def)
next
  case computed
  then show ?thesis
    using tasks_kept_inv [OF computed(2) kernel_invD(1) [OF inv]] kernel_inv_keep [OF inv, of t] kernel_invD(4) [OF inv]
    by (simp add: view_def) (simp add: tasks_kept_def)
qed

lemma kernel_reach_inv:
  "kernel_reach im pb init s es t \<Longrightarrow> kernel_inv init s \<Longrightarrow> Refused \<notin> set es \<Longrightarrow>
    kernel_inv init t \<and> view_reach init (view s) es (view t)"
proof (induction rule: kernel_reach.induct)
  case (reach_step s es t e u)
  then have "kernel_inv init t \<and> view_reach init (view s) es (view t)" "e \<noteq> Refused" by auto
  then show ?case using kernel_step_refines [OF reach_step(2)] view_more by blast
qed (simp add: view_refl)

text \<open>What holds of the abstract machine holds of the kernel.\<close>

lemma view_reach_running:
  "view_reach init v es w \<Longrightarrow> snd v \<in> fst v \<Longrightarrow> init \<in> fst v \<Longrightarrow> snd w \<in> fst w \<and> init \<in> fst w"
proof (induction rule: view_reach.induct)
  case (view_more v es w e x)
  then show ?case by (cases w; cases e) auto
qed simp

lemma boot_kernel_inv: "kernel_inv (current boot_kernel) boot_kernel"
  using boot_create(3) boot_running(1) by (simp add: kernel_inv_def can_create_def)

text \<open>
  C14. The kernel of lesson 6 with kernel threads, as long as no creation is refused for lack of a
  page (after that the caller is never preempted again: \<open>creation_failure_stops_preemption\<close>): from a state that satisfies
  the invariant, through any such sequence of timer interrupts, calls of \<open>schedule\<close>, creations of
  kernel threads, ends of tasks and computation of the tasks, in any order, the invariant holds, a running task
  has the processor, \<open>schedule\<close> returns again, a task other than the first can end, and a thread can be created
  if there are a page and an entry of \<open>task\<close>; with no page left a creation is refused.
\<close>

theorem kernel_runs_safely:
  assumes "kernel_inv init s" and "kernel_reach im pb init s es t" and "Refused \<notin> set es"
  shows "kernel_inv init t \<and> current t \<in> running t \<and> init \<in> running t \<and>
    (\<exists>u. kernel_step im pb init t Yielded u) \<and>
    (current t \<noteq> init \<longrightarrow> (\<exists>u. kernel_step im pb init t Ended u)) \<and>
    (if used_pages_of t = all_pages then \<exists>u. kernel_step im pb init t Refused u
     else nr_tasks t < NR_TASKS \<longrightarrow> (\<exists>u. kernel_step im pb init t Created u))"
proof -
  have inv: "kernel_inv init t" using kernel_reach_inv assms by blast
  have fl: "PF_KTHREAD AND PF_KTHREAD \<noteq> 0" by (simp add: PF_KTHREAD_def)
  have "\<exists>u. kernel_step im pb init t Yielded u"
    using yielded_inv [OF inv] kernel_step.yielded by metis
  moreover have "\<exists>u. kernel_step im pb init t Ended u" if "current t \<noteq> init"
    using ended_inv [OF inv that] kernel_step.ended that by metis
  moreover have "\<exists>u. kernel_step im pb init t Created u" if free: "used_pages_of t \<noteq> all_pages" "nr_tasks t < NR_TASKS"
  proof -
    obtain p u where "copy_process im PF_KTHREAD 0 0 t = Inr (int (nr_tasks t), u)"
      by (rule created_inv [OF inv free fl, of im 0 0])
    then show ?thesis using kernel_step.created fl free by metis
  qed
  moreover have "\<exists>u. kernel_step im pb init t Refused u" if "used_pages_of t = all_pages"
    using kernel_step.refused [OF refused_run [OF that] fl that] by blast
  ultimately show ?thesis using inv kernel_invD(4,6) [OF inv] by simp
qed

text \<open>A run from the start: a thread is created, the first task yields, a task computes.\<close>

theorem kernel_runs_safely_witness:
  "\<exists>t. kernel_reach example_image PBASE (current boot_kernel) boot_kernel [Created, Yielded, Computed] t \<and>
     current t \<in> running t \<and> (\<exists>u. kernel_step example_image PBASE (current boot_kernel) t Yielded u)"
proof -
  let ?init = "current boot_kernel"
  let ?reach = "kernel_reach example_image PBASE ?init boot_kernel"
  have free: "used_pages_of boot_kernel \<noteq> all_pages" "nr_tasks boot_kernel < NR_TASKS"
    using boot_create(3) by (simp_all add: can_create_def)
  have fl: "PF_KTHREAD AND PF_KTHREAD \<noteq> 0" by (simp add: PF_KTHREAD_def)
  obtain p s where s: "copy_process example_image PF_KTHREAD 0x82000 7 boot_kernel = Inr (int (nr_tasks boot_kernel), s)"
      "kernel_inv ?init s"
    by (rule created_inv [OF boot_kernel_inv free fl, of example_image "0x82000" 7])
  obtain t where t: "schedule s = Some t" by (rule yielded_inv [OF s(2)])
  have "?reach ([] @ [Created]) s"
    by (rule kernel_reach.reach_step [OF kernel_reach.reach_refl kernel_step.created [OF s(1) fl free(1)]])
  then have "?reach (([] @ [Created]) @ [Yielded]) t"
    by (rule kernel_reach.reach_step) (rule kernel_step.yielded [OF t])
  then have "?reach ((([] @ [Created]) @ [Yielded]) @ [Computed]) t"
    by (rule kernel_reach.reach_step) (rule kernel_step.computed, simp add: tasks_kept_def)
  then have run: "?reach [Created, Yielded, Computed] t" by simp
  have "Refused \<notin> set [Created, Yielded, Computed]" by simp
  from kernel_runs_safely [OF boot_kernel_inv run this] run show ?thesis by blast
qed

end
