(* ===== verification/Isolation.thy ===== *)
theory Isolation
  imports Kernel_Steps
begin

text \<open>
  The user processes of lesson 6 together: whatever they and the kernel do, in whatever order,
  as long as there is room for it, no page is mapped by two of them, and what one of them or the kernel does for it leaves the
  address spaces and the memory of the others alone. This theory has the invariant and shows
  that each function of the code keeps it; \<open>Process_Steps\<close> has the runs.
\<close>

unbundle bit_operations_syntax

section \<open>What the scheduler writes\<close>

text \<open>The registers, the state, the counters and the flags of a task: the first 144 bytes.\<close>

definition sched_words :: "addr list \<Rightarrow> addr set" where
  "sched_words ts = {p + off | p off. p \<in> set ts \<and> p \<noteq> 0 \<and> unat off < 144}"

lemma in_sched_words: "p \<in> set ts \<Longrightarrow> p \<noteq> 0 \<Longrightarrow> unat off < 144 \<Longrightarrow> p + off \<in> sched_words ts"
  by (auto simp: sched_words_def)

lemma not_in_sched_words:
  assumes "structs_apart ts" "p \<in> set ts" "p \<noteq> 0" "144 \<le> unat off" "unat off < 552"
  shows "p + off \<notin> sched_words ts"
proof
  assume "p + off \<in> sched_words ts"
  then obtain q off' where q: "p + off = q + off'" "q \<in> set ts" "q \<noteq> 0" "unat off' < 144"
    by (auto simp: sched_words_def)
  then have "p \<noteq> q" using assms(4) by auto
  then show False using apartD [OF assms(1,2) q(2) assms(3) q(3) _ assms(5), of off'] q(1,4) by simp
qed

text \<open>The tables of the current task, if it has some, are those the processor uses.\<close>

definition tracks_pgd :: "kernel \<Rightarrow> bool" where
  "tracks_pgd s \<longleftrightarrow> (mem s (current s + off_pgd) \<noteq> 0 \<longrightarrow> ttbr0_el1 (cpu s) = mem s (current s + off_pgd))"

definition tables_kept :: "kernel \<Rightarrow> kernel \<Rightarrow> bool" where
  "tables_kept s t \<longleftrightarrow> task t = task s \<and> mem_map t = mem_map s \<and>
     (\<forall>a. a \<notin> sched_words (task s) \<longrightarrow> mem t a = mem s a) \<and> (tracks_pgd s \<longrightarrow> tracks_pgd t)"

lemma tables_kept_trans: "tables_kept s t \<Longrightarrow> tables_kept t u \<Longrightarrow> tables_kept s u"
  by (simp add: tables_kept_def)

text \<open>The current task is one of the table's, whose structs are apart.\<close>

definition current_listed :: "kernel \<Rightarrow> bool" where
  "current_listed s \<longleftrightarrow> structs_apart (task s) \<and> current s \<in> set (task s) \<and> current s \<noteq> 0"

lemma waiting_listed: "waiting s \<Longrightarrow> current_listed s"
  using waitingD by (simp add: current_listed_def)

lemma current_pgd: "current_listed s \<Longrightarrow> current s + off_pgd \<notin> sched_words (task s)"
  unfolding current_listed_def by (rule not_in_sched_words) (simp_all add: layout_defs)

lemma tables_keptI:
  assumes "current_listed s" "task t = task s" "mem_map t = mem_map s" "current t = current s"
    "ttbr0_el1 (cpu t) = ttbr0_el1 (cpu s)" "\<And>a. a \<notin> sched_words (task s) \<Longrightarrow> mem t a = mem s a"
  shows "tables_kept s t"
  using assms current_pgd [OF assms(1)] by (simp add: tables_kept_def tracks_pgd_def)

lemma set_field_kept:
  assumes "current_listed s" "unat off < 144"
  shows "tables_kept s (set_field off (current s) v s)" "current_listed (set_field off (current s) v s)"
proof -
  have "current s + off \<in> sched_words (task s)"
    using assms in_sched_words unfolding current_listed_def by blast
  then show "tables_kept s (set_field off (current s) v s)"
    by (intro tables_keptI [OF assms(1)]) (auto simp: set_field_def)
  show "current_listed (set_field off (current s) v s)"
    using assms(1) by (simp add: current_listed_def set_field_def)
qed

lemma sched_loop_words:
  assumes "sched_loop ts m = Some (k, m')" "a \<notin> sched_words ts"
  shows "m' a = m a"
proof -
  have recharge: "sched_recharge ts m a = m a" if "a \<notin> sched_words ts" for ts m
    using that in_sched_words [of _ ts off_counter]
    by (intro sched_recharge_other) (auto simp: layout_defs)
  have "a \<notin> sched_words ts \<longrightarrow> snd y a = m a" if "sched_loop ts m = Some y" for y
  proof (rule sched_loop.raw_induct [where P = "\<lambda>ts m y. a \<notin> sched_words ts \<longrightarrow> snd y a = m a", OF _ that])
    fix f :: "addr list \<Rightarrow> memory \<Rightarrow> (nat \<times> memory) option" and ts m y
    assume IH: "\<And>ts m y. f ts m = Some y \<Longrightarrow> a \<notin> sched_words ts \<longrightarrow> snd y a = m a"
      and step: "(case sched_scan m ts 0 (- 1) 0 of (c, nxt) \<Rightarrow>
          if c \<noteq> 0 then Some (nxt, m) else f ts (sched_recharge ts m)) = Some y"
    show "a \<notin> sched_words ts \<longrightarrow> snd y a = m a"
      using step IH [of ts "sched_recharge ts m" y] recharge [of ts m] by (auto split: prod.splits if_splits)
  qed
  from this [OF assms(1)] assms(2) show ?thesis by simp
qed

lemma do_schedule_kept:
  assumes state: "sched_state s" and run: "do_schedule s = Some t"
  shows "tables_kept s t" "current_listed t"
proof -
  have listed: "current_listed s" using state by (simp add: current_listed_def sched_state_def sched_ready_def)
  obtain t' where t': "do_schedule s = Some t'" "scheduled s t'" using sched_l6.sched_meets [OF state] by blast
  with run have sch: "scheduled s t" by simp
  let ?s1 = "preempt_disable s"
  obtain k m where loop: "sched_loop (task s) (mem ?s1) = Some (k, m)"
    and t: "t = preempt_enable (switch_to (task s ! k) (?s1\<lparr>mem := m\<rparr>))"
    using run by (auto simp: do_schedule_def schedule_with_def Let_def preempt_disable_def set_field_def)
  let ?p = "task s ! k" and ?s2 = "?s1\<lparr>mem := m\<rparr>"
  have cur_t: "current t = ?p" by (simp add: t preempt_enable_def set_field_def switch_to_def Let_def cpu_switch_to_rest set_pgd_rest)
  have p: "?p \<in> set (task s)" "?p \<noteq> 0"
    using sch cur_t unfolding scheduled_def by (metis nth_mem)+
  have dis: "tables_kept s ?s1" "current_listed ?s1"
    using set_field_kept [OF listed] by (simp_all add: preempt_disable_def layout_defs)
  have same1: "task ?s1 = task s" "current ?s1 = current s" by (simp_all add: preempt_disable_def set_field_def)
  have k2: "tables_kept ?s1 ?s2" by (rule tables_keptI [OF dis(2)]) (use sched_loop_words [OF loop] same1 in auto)
  have l2: "current_listed ?s2" using dis(2) by (simp add: current_listed_def)
  let ?s3 = "switch_to ?p ?s2"
  have s3: "task ?s3 = task s" "current ?s3 = ?p" "mem_map ?s3 = mem_map ?s2"
    by (simp_all add: switch_to_def Let_def cpu_switch_to_rest set_pgd_rest same1)
  have l3: "current_listed ?s3" using listed p by (simp add: current_listed_def s3)
  have words: "mem ?s3 a = mem ?s2 a" if "a \<notin> sched_words (task s)" for a
  proof -
    have "a \<notin> ctx (current s)"
      using that listed in_sched_words [of "current s" "task s"] page_run_offset(2)
      by (force simp: ctx_def current_listed_def)
    then show ?thesis using switch_l6.sw_mem [of a ?s2 ?p] same1 by simp
  qed
  have k3: "tables_kept ?s2 ?s3"
  proof (cases "current s = ?p")
    case True
    then have "?s3 = ?s2" using same1 by (simp add: switch_to_def)
    then show ?thesis by (simp add: tables_kept_def)
  next
    case False
    have "?p + off_pgd \<notin> sched_words (task s)"
      using listed p by (intro not_in_sched_words) (simp_all add: current_listed_def layout_defs)
    then have "mem ?s3 (?p + off_pgd) = m (?p + off_pgd)" using words by simp
    moreover have "ttbr0_el1 (cpu ?s3) = m (?p + off_pgd)"
      using False same1 by (simp add: switch_to_def Let_def cpu_switch_to_def restored_regs_def set_pgd_def)
    ultimately show ?thesis using words s3 by (simp add: tables_kept_def tracks_pgd_def same1)
  qed
  have k4: "tables_kept ?s3 t" "current_listed t"
    using set_field_kept [OF l3] by (simp_all add: t preempt_enable_def layout_defs)
  show "tables_kept s t" by (rule tables_kept_trans [OF dis(1) tables_kept_trans [OF k2 tables_kept_trans [OF k3 k4(1)]]])
  show "current_listed t" by (rule k4(2))
qed

text \<open>The calls of the scheduler: a timer interrupt, \<open>schedule\<close> and \<open>exit_process\<close>.\<close>

lemma yielded_kept:
  assumes inv: "sched_inv s" and run: "schedule s = Some t"
  shows "tables_kept s t"
proof -
  have w: "waiting s" using inv by (simp add: sched_inv_def)
  have "tables_kept s (set_field off_counter (current s) 0 s)"
    by (rule set_field_kept(1) [OF waiting_listed [OF w]]) (simp add: layout_defs)
  moreover have "sched_state (set_field off_counter (current s) 0 s)"
    by (rule waitingD(1) [OF set_counter_waiting(1) [OF w]]) simp_all
  ultimately show ?thesis
    using do_schedule_kept(1) [of _ t] run tables_kept_trans by (metis schedule_def)
qed

lemma tables_kept_same:
  assumes "task t = task s" "mem_map t = mem_map s" "mem t = mem s" "current t = current s" "ttbr0_el1 (cpu t) = ttbr0_el1 (cpu s)"
  shows "tables_kept s t" "current_listed t \<longleftrightarrow> current_listed s"
  using assms by (simp_all add: tables_kept_def tracks_pgd_def current_listed_def)

lemma interrupted_kept:
  assumes inv: "sched_inv s" and irq: "handle_irq pb s = Some t"
  shows "tables_kept s t"
  using irq
proof (cases rule: handle_irq_cases)
  case (1 w)
  then show ?thesis by (intro tables_kept_same) simp_all
next
  case (2 u)
  define r where "r = timer_rearm pb (s\<lparr>dev := snd (get32 (IRQ_PENDING_1 pb) (dev s))\<rparr>)"
  let ?f = "\<lambda>v. set_field off_counter (current r) v r"
  have r: "sched_inv r" "tables_kept s r"
    using inv by (simp add: r_def) (rule tables_kept_same, simp_all add: r_def timer_rearm_def Let_def)
  have w: "waiting r" using r(1) by (simp add: sched_inv_def)
  have f: "tables_kept r (?f v)" for v
    by (rule set_field_kept(1) [OF waiting_listed [OF w]]) (simp add: layout_defs)
  show ?thesis
  proof (cases "1 < cnt (mem r) (current r)")
    case True
    then show ?thesis
      using 2(2) [folded r_def] 2(1) tick_cases(1) [OF r(1) True, of do_schedule] f tables_kept_trans [OF r(2)] by auto
  next
    case False
    have st: "sched_state (enable_irq (?f 0))"
      using sched_l6.give_up [OF r(1) disjI2 [OF refl]] waitingD(1) by blast
    obtain v where v: "do_schedule (enable_irq (?f 0)) = Some v" "t = tick_end (current r) v"
      using 2(2) [folded r_def] 2(1) tick_cases(2) [OF r(1), of do_schedule] False by auto
    have "tables_kept (?f 0) (enable_irq (?f 0))" by (rule tables_kept_same) (simp_all add: enable_irq_def)
    moreover have "tables_kept v t" unfolding v(2) by (rule tables_kept_same) (simp_all add: tick_end_def disable_irq_def)
    ultimately show ?thesis
      using do_schedule_kept(1) [OF st v(1)] f [of 0] r(2) tables_kept_trans by metis
  qed
qed

lemma ended_kept:
  assumes inv: "sched_inv s" and other: "q \<in> running s" "q \<noteq> current s" and run: "exit_process s = Some t"
  shows "tables_kept s t"
proof -
  have w: "waiting s" using inv by (simp add: sched_inv_def)
  let ?z = "set_field off_state (current s) TASK_ZOMBIE s"
  have z: "waiting ?z" "current ?z = current s" using zombie_waiting [OF inv other] by simp_all
  have "exit_process s = do_schedule (set_field off_counter (current ?z) 0 ?z)"
    by (simp only: exit_process_def Let_def exit_marks [OF waitingD(3) [OF w]] schedule_def)
  moreover have "tables_kept s ?z"
    by (rule set_field_kept(1) [OF waiting_listed [OF w]]) (simp add: layout_defs)
  moreover have "tables_kept ?z (set_field off_counter (current ?z) 0 ?z)"
    by (rule set_field_kept(1) [OF waiting_listed [OF z(1)]]) (simp add: layout_defs)
  moreover have "sched_state (set_field off_counter (current ?z) 0 ?z)"
    by (rule waitingD(1) [OF set_counter_waiting(1) [OF z(1)]]) simp_all
  ultimately show ?thesis
    using do_schedule_kept(1) [of _ t] run tables_kept_trans by metis
qed

section \<open>The processes and their pages\<close>

text \<open>
  The tables and the address space of each task, by the address of its struct. \<open>listed\<close>: the
  array \<open>user_pages\<close> lists the address space.
\<close>

type_synonym maps = "addr \<Rightarrow> tables \<times> space"

definition listed :: "task_struct \<Rightarrow> space \<Rightarrow> bool" where
  "listed T A \<longleftrightarrow> dom A = (\<lambda>j. vpn (nth_va T j)) ` {..<page_count T} \<and>
     inj_on (\<lambda>j. vpn (nth_va T j)) {..<page_count T} \<and>
     (\<forall>j < page_count T. page_aligned (nth_va T j) \<and> nth_va T j < push_bit 48 1)"

definition process :: "kernel \<Rightarrow> addr \<Rightarrow> tables \<times> space \<Rightarrow> bool" where
  "process s p M \<longleftrightarrow> task_page s (fst M) (p - VA_START) p \<and> addr_space s p (fst M) (snd M) \<and>
     ran (snd M) \<subseteq> used_pages_of s - insert (p - VA_START) (ran (fst M)) \<and>
     listed (load_task (mem s) p) (snd M)"

definition own :: "addr \<Rightarrow> tables \<times> space \<Rightarrow> addr set" where
  "own p M = insert (p - VA_START) (ran (fst M) \<union> ran (snd M))"

lemma listed_cong: "mm T = mm T' \<Longrightarrow> listed T A \<longleftrightarrow> listed T' A"
  by (simp add: listed_def nth_va_def page_count_def)

lemma process_own: "process s p M \<Longrightarrow> own p M \<subseteq> used_pages_of s"
  by (auto simp: process_def own_def task_page_def)

lemma process_page:
  assumes "process s p M"
  shows "p = p - VA_START + VA_START" "p - VA_START \<in> all_pages" "page_aligned p"
proof -
  have "task_page s (fst M) (p - VA_START) p" using assms by (simp add: process_def)
  from task_pageD(1,5,6) [OF this]
  show "p = p - VA_START + VA_START" "p - VA_START \<in> all_pages" "page_aligned p" by blast+
qed

text \<open>A process keeps its map if its \<open>mm_struct\<close> and its tables keep their contents.\<close>

lemma process_keep:
  assumes P: "process s p M" and used: "used_pages_of s \<subseteq> used_pages_of t"
    and struct: "\<And>off. 144 \<le> unat off \<Longrightarrow> unat off < 552 \<Longrightarrow> mem t (p + off) = mem s (p + off)"
    and tables: "\<And>x y. x \<in> ran (fst M) \<Longrightarrow> y < 4096 \<Longrightarrow> mem t (x + VA_START + y) = mem s (x + VA_START + y)"
  shows "process t p M"
proof -
  have same: "mm (load_task (mem t) p) = mm (load_task (mem s) p)" using struct by (rule load_mm_cong)
  have "listed (load_task (mem t) p) (snd M)"
    using P unfolding process_def listed_cong [OF same] by blast
  moreover have "addr_space t p (fst M) (snd M)"
  proof (rule addr_space_cong [OF _ _ tables])
    show "addr_space s p (fst M) (snd M)" using P by (simp add: process_def)
    show "mem t (p + off_pgd) = mem s (p + off_pgd)" using struct [of off_pgd] by (simp add: layout_defs)
  qed
  moreover have "task_page t (fst M) (p - VA_START) p"
    using P by (intro task_page_mono [OF _ used]) (simp add: process_def)
  moreover have "ran (snd M) \<subseteq> used_pages_of t - insert (p - VA_START) (ran (fst M))"
    using P used unfolding process_def by blast
  ultimately show ?thesis by (simp add: process_def)
qed

definition procs :: "addr \<Rightarrow> kernel \<Rightarrow> addr set" where
  "procs init s = set (task s) - {0, init}"

text \<open>The first task's struct is in the kernel's image.\<close>

definition off_pages :: "addr \<Rightarrow> bool" where
  "off_pages init \<longleftrightarrow> (\<forall>x \<in> all_pages. \<forall>y off. y < 4096 \<longrightarrow> unat off < 552 \<longrightarrow> init + off \<noteq> x + VA_START + y)"

definition maps_apart :: "addr set \<Rightarrow> maps \<Rightarrow> bool" where
  "maps_apart P g \<longleftrightarrow> (\<forall>p \<in> P. \<forall>q \<in> P. p \<noteq> q \<longrightarrow> own p (g p) \<inter> own q (g q) = {})"

definition isolated :: "addr \<Rightarrow> maps \<Rightarrow> kernel \<Rightarrow> bool" where
  "isolated init g s \<longleftrightarrow> kernel_inv init s \<and> tracks_pgd s \<and> off_pages init \<and> mem s (init + off_pgd) = 0 \<and>
     (\<forall>p \<in> procs init s. process s p (g p)) \<and> maps_apart (procs init s) g"

lemma isolatedD:
  assumes "isolated init g s"
  shows "kernel_inv init s" "tracks_pgd s" "off_pages init" "mem s (init + off_pgd) = 0"
    "\<And>p. p \<in> procs init s \<Longrightarrow> process s p (g p)" "maps_apart (procs init s) g"
    "\<And>p q. p \<in> procs init s \<Longrightarrow> q \<in> procs init s \<Longrightarrow> p \<noteq> q \<Longrightarrow> own p (g p) \<inter> own q (g q) = {}"
  using assms unfolding isolated_def maps_apart_def by blast+

text \<open>One task gets a new map, made of what it had and of fresh pages.\<close>

lemma maps_apart_update:
  assumes "maps_apart P g" and "\<And>p. p \<in> P \<Longrightarrow> own p (g p) \<subseteq> U"
    and "own c M \<subseteq> (if c \<in> P then own c (g c) else {}) \<union> F" and "F \<inter> U = {}"
  shows "maps_apart (insert c P) (g(c := M))"
proof -
  have "own c M \<inter> own q (g q) = {}" if q: "q \<in> P" "q \<noteq> c" for q
  proof -
    have "c \<in> P \<longrightarrow> own c (g c) \<inter> own q (g q) = {}" "F \<inter> own q (g q) = {}"
      using assms(1,2,4) q unfolding maps_apart_def by blast+
    then show ?thesis using assms(3) by (auto split: if_splits)
  qed
  then show ?thesis using assms(1) unfolding maps_apart_def by auto
qed

text \<open>Pages of a process, its struct's own aside, hold no struct.\<close>

lemma page_not_struct:
  assumes iso: "isolated init g s" and p: "p \<in> procs init s" and x: "x \<in> ran (fst (g p)) \<union> ran (snd (g p))"
    and q: "q \<in> set (task s)" "q \<noteq> 0" and small: "unat off < 552" "y < 4096"
  shows "q + off \<noteq> x + VA_START + y"
proof -
  note P = isolatedD(5) [OF iso p]
  have xp: "x \<in> all_pages" using x P process_own [OF P] used_pages_subset [of s] by (auto simp: own_def)
  show ?thesis
  proof (cases "q = init")
    case True
    then show ?thesis using isolatedD(3) [OF iso] xp small unfolding off_pages_def by blast
  next
    case False
    then have Q: "q \<in> procs init s" using q by (simp add: procs_def)
    have "x \<noteq> q - VA_START"
    proof (cases "p = q")
      case True
      then show ?thesis using x P by (auto simp: process_def task_page_def)
    next
      case False
      then show ?thesis using isolatedD(7) [OF iso p Q] x by (auto simp: own_def)
    qed
    moreover note process_page [OF isolatedD(5) [OF iso Q]]
    moreover have "off < 4096" using small(1) by (simp add: word_less_nat_alt)
    ultimately show ?thesis using kernel_page_neq [of "q - VA_START" x off y] xp small by auto
  qed
qed

lemma isolated_listed: "isolated init g s \<Longrightarrow> current_listed s"
  using waiting_listed kernel_invD(5) isolatedD(1) by blast

lemma proc_listed: "p \<in> procs init s \<Longrightarrow> p \<in> set (task s) \<and> p \<noteq> 0"
  by (simp add: procs_def)

lemma init_listed: "kernel_inv init s \<Longrightarrow> init \<in> set (task s) \<and> init \<noteq> 0"
  using kernel_invD(4) by (auto simp: running_def runs_def)

text \<open>A step that keeps the table, the structs' \<open>mm\<close> parts and the page tables.\<close>

lemma isolated_keep:
  assumes iso: "isolated init g s" and inv: "kernel_inv init t" "tracks_pgd t" and same: "task t = task s"
    and used: "used_pages_of s \<subseteq> used_pages_of t"
    and struct: "\<And>p off. p \<in> set (task s) \<Longrightarrow> p \<noteq> 0 \<Longrightarrow> 144 \<le> unat off \<Longrightarrow> unat off < 552 \<Longrightarrow>
      mem t (p + off) = mem s (p + off)"
    and tables: "\<And>p x y. p \<in> procs init s \<Longrightarrow> x \<in> ran (fst (g p)) \<Longrightarrow> y < 4096 \<Longrightarrow>
      mem t (x + VA_START + y) = mem s (x + VA_START + y)"
  shows "isolated init g t"
proof -
  have "process t p (g p)" if p: "p \<in> procs init t" for p
  proof -
    have "p \<in> procs init s" using p by (simp add: procs_def same)
    then have l: "p \<in> set (task s)" "p \<noteq> 0" using proc_listed by blast+
    show ?thesis
      by (rule process_keep [OF isolatedD(5) [OF iso \<open>p \<in> procs init s\<close>] used struct [OF l] tables [OF \<open>p \<in> procs init s\<close>]])
  qed
  moreover have "mem t (init + off_pgd) = 0"
    using struct [of init off_pgd] init_listed [OF isolatedD(1) [OF iso]] isolatedD(4) [OF iso] by (simp add: layout_defs)
  ultimately show ?thesis
    using inv isolatedD(3,6) [OF iso] by (simp add: isolated_def procs_def same)
qed

text \<open>The pages a process maps, and the tables, are not among the words the scheduler writes.\<close>

lemma page_not_sched:
  assumes "isolated init g s" "p \<in> procs init s" "x \<in> ran (fst (g p)) \<union> ran (snd (g p))" "y < 4096"
  shows "x + VA_START + y \<notin> sched_words (task s)"
proof
  assume "x + VA_START + y \<in> sched_words (task s)"
  then obtain q off where "x + VA_START + y = q + off" "q \<in> set (task s)" "q \<noteq> 0" "unat off < 144"
    by (auto simp: sched_words_def)
  then show False using page_not_struct [OF assms(1-3), of q off y] assms(4) by simp
qed

lemma isolated_tables_kept:
  assumes iso: "isolated init g s" and inv: "kernel_inv init t" and kept: "tables_kept s t"
  shows "isolated init g t"
proof (rule isolated_keep [OF iso inv])
  show "tracks_pgd t" "task t = task s" using kept isolatedD(2) [OF iso] by (simp_all add: tables_kept_def)
  show "used_pages_of s \<subseteq> used_pages_of t"
    using kept used_pages_of_cong [of t s] by (simp add: tables_kept_def)
  have apart: "structs_apart (task s)" using isolated_listed [OF iso] by (simp add: current_listed_def)
  show "mem t (p + off) = mem s (p + off)" if "p \<in> set (task s)" "p \<noteq> 0" "144 \<le> unat off" "unat off < 552" for p off
    using kept not_in_sched_words [OF apart that] by (simp add: tables_kept_def)
  show "mem t (x + VA_START + y) = mem s (x + VA_START + y)"
    if "p \<in> procs init s" "x \<in> ran (fst (g p))" "y < 4096" for p x y
    using kept page_not_sched [OF iso that(1) _ that(3)] that(2) by (simp add: tables_kept_def)
qed

section \<open>A process at work\<close>

text \<open>
  A store of the process at the virtual address \<open>va\<close>, which the processor translates with the
  tables in \<open>ttbr0_el1\<close>.
\<close>

definition user_store :: "addr \<Rightarrow> u64 \<Rightarrow> kernel \<Rightarrow> kernel option" where
  "user_store va v s = map_option (\<lambda>pa. s\<lparr>mem := (mem s)(pa + VA_START := v)\<rparr>) (user_walk (mem s) (ttbr0_el1 (cpu s)) va)"

lemma process_walk:
  assumes "process s p M" "mem s (p + off_pgd) \<noteq> 0"
  shows "user_walk (mem s) (mem s (p + off_pgd)) va = map_option (\<lambda>x. x + (va AND mask PAGE_SHIFT)) (snd M (vpn va))"
proof -
  have "addr_space s p (fst M) (snd M)" and ran: "ran (snd M) \<subseteq> all_pages"
    using assms(1) used_pages_subset [of s] by (auto simp: process_def)
  from addr_space_walk [OF this(1) assms(2), of va] show ?thesis
    using page_or_offset ran by (cases "snd M (vpn va)") (auto intro: ranI)
qed

lemma page_offset_small: "(va :: addr) AND mask PAGE_SHIFT < 4096"
  using and_mask_less_size [of 12 va] by (simp add: map_values word_size)

text \<open>Where a store goes: to a page of the current task's own.\<close>

lemma user_store_page:
  assumes iso: "isolated init g s" and cur: "current s \<noteq> init" and pgd: "mem s (current s + off_pgd) \<noteq> 0"
    and st: "user_store va v s = Some t"
  obtains x y where "x \<in> ran (snd (g (current s)))" "y < 4096" "t = s\<lparr>mem := (mem s)(x + VA_START + y := v)\<rparr>"
    "current s \<in> procs init s"
proof -
  have c: "current s \<in> procs init s"
    using isolated_listed [OF iso] cur by (simp add: current_listed_def procs_def)
  have "ttbr0_el1 (cpu s) = mem s (current s + off_pgd)"
    using isolatedD(2) [OF iso] pgd by (simp add: tracks_pgd_def)
  then obtain x where "snd (g (current s)) (vpn va) = Some x"
    "t = s\<lparr>mem := (mem s)(x + (va AND mask PAGE_SHIFT) + VA_START := v)\<rparr>"
    using st process_walk [OF isolatedD(5) [OF iso c] pgd, of va] by (auto simp: user_store_def)
  then show thesis
    using that [of x "va AND mask PAGE_SHIFT"] c page_offset_small [of va] by (auto simp: ac_simps intro: ranI)
qed

lemma tasks_keptI:
  assumes "kernel_inv init s" "task t = task s" "current t = current s" "nr_tasks t = nr_tasks s" "used_pages_of s \<subseteq> used_pages_of t"
    "\<And>p off. p \<in> set (task s) \<Longrightarrow> p \<noteq> 0 \<Longrightarrow> unat off < 144 \<Longrightarrow> mem t (p + off) = mem s (p + off)"
  shows "kernel_inv init t"
proof -
  have kept: "tasks_kept s t" using assms by (simp add: tasks_kept_def layout_defs)
  note i = kernel_invD [OF assms(1)]
  show ?thesis using kernel_inv_keep [OF assms(1)] tasks_kept_inv [OF kept i(1)] assms(2,4,5) i(4) by simp
qed

lemma stored_isolated:
  assumes iso: "isolated init g s" and cur: "current s \<noteq> init" and pgd: "mem s (current s + off_pgd) \<noteq> 0"
    and st: "user_store va v s = Some t"
  shows "isolated init g t"
proof -
  obtain x y where x: "x \<in> ran (snd (g (current s)))" "y < 4096" and t: "t = s\<lparr>mem := (mem s)(x + VA_START + y := v)\<rparr>"
    and c: "current s \<in> procs init s"
    by (rule user_store_page [OF assms])
  have struct: "mem t (p + off) = mem s (p + off)" if "p \<in> set (task s)" "p \<noteq> 0" "unat off < 552" for p off
    using page_not_struct [OF iso c _ that(1,2,3) x(2), of x] x(1) by (simp add: t)
  have used: "used_pages_of t = used_pages_of s" by (rule used_pages_of_cong) (simp add: t)
  have xs: "x \<in> all_pages" using isolatedD(5) [OF iso c] x(1) used_pages_subset [of s] by (auto simp: process_def)
  show ?thesis
  proof (rule isolated_keep [OF iso])
    show "kernel_inv init t"
      using struct used by (intro tasks_keptI [OF isolatedD(1) [OF iso]]) (simp_all add: t)
    show "tracks_pgd t"
      using isolatedD(2) [OF iso] struct [of "current s" off_pgd] isolated_listed [OF iso]
      by (simp add: tracks_pgd_def t current_listed_def layout_defs)
    show "mem t (z + VA_START + y') = mem s (z + VA_START + y')"
      if z: "p \<in> procs init s" "z \<in> ran (fst (g p))" "y' < 4096" for p z y'
    proof -
      note P = isolatedD(5) [OF iso z(1)]
      have "z \<noteq> x"
      proof (cases "p = current s")
        case True
        then show ?thesis using P z(2) x(1) by (auto simp: process_def)
      next
        case False
        then show ?thesis using isolatedD(7) [OF iso z(1) c] z(2) x(1) by (auto simp: own_def)
      qed
      moreover have "z \<in> all_pages" using P z(2) used_pages_subset [of s] by (auto simp: process_def task_page_def)
      ultimately show ?thesis using kernel_page_neq [OF _ xs _ z(3) x(2)] by (simp add: t)
    qed
    show "used_pages_of s \<subseteq> used_pages_of t" by (simp add: used)
    show "task t = task s" by (simp add: t)
  qed (rule struct)
qed

text \<open>
  What the kernel does for the current task without touching the task table: its registers,
  the devices and the stack above the struct change (the saved frame is stored there).
\<close>

definition kernel_work :: "kernel \<Rightarrow> kernel \<Rightarrow> bool" where
  "kernel_work s t \<longleftrightarrow> current t = current s \<and> task t = task s \<and> nr_tasks t = nr_tasks s \<and>
     mem_map t = mem_map s \<and> ttbr0_el1 (cpu t) = ttbr0_el1 (cpu s) \<and>
     (\<forall>a. (\<forall>y. 552 \<le> y \<and> y < 4096 \<longrightarrow> a \<noteq> current s + y) \<longrightarrow> mem t a = mem s a)"

lemma worked_mem:
  assumes iso: "isolated init g s" and cur: "current s \<noteq> init" and work: "kernel_work s t"
  shows "p \<in> set (task s) \<Longrightarrow> p \<noteq> 0 \<Longrightarrow> unat off < 552 \<Longrightarrow> mem t (p + off) = mem s (p + off)"
    and "x \<in> used_pages_of s \<Longrightarrow> x \<noteq> current s - VA_START \<Longrightarrow> y < 4096 \<Longrightarrow> mem t (x + VA_START + y) = mem s (x + VA_START + y)"
proof -
  have c: "current s \<in> procs init s"
    using isolated_listed [OF iso] cur by (simp add: current_listed_def procs_def)
  note C = process_page [OF isolatedD(5) [OF iso c]]
  have keep: "mem t a = mem s a" if "\<And>y. 552 \<le> y \<Longrightarrow> y < 4096 \<Longrightarrow> a \<noteq> current s + y" for a
    using work that unfolding kernel_work_def by blast
  show "mem t (x + VA_START + y) = mem s (x + VA_START + y)"
    if x: "x \<in> used_pages_of s" "x \<noteq> current s - VA_START" "y < 4096" for x y
  proof (rule keep)
    have xp: "x \<in> all_pages" using x(1) used_pages_subset by blast
    show "x + VA_START + y \<noteq> current s + y'" if "552 \<le> y'" "y' < 4096" for y'
      using kernel_page_neq [OF xp C(2) x(2,3) that(2)] C(1) by simp
  qed
  show "mem t (p + off) = mem s (p + off)" if p: "p \<in> set (task s)" "p \<noteq> 0" "unat off < 552" for p off
  proof (rule keep)
    show "p + off \<noteq> current s + y" if y: "552 \<le> y" "y < 4096" for y
    proof (cases "p = init")
      case True
      then show ?thesis using isolatedD(3) [OF iso] C p(3) y(2) unfolding off_pages_def by metis
    next
      case False
      then have P: "p \<in> procs init s" using p by (simp add: procs_def)
      note pp = process_page [OF isolatedD(5) [OF iso P]]
      have "off < 4096" "off \<noteq> y" using p(3) y(1) by (auto simp: word_less_nat_alt word_le_nat_alt)
      moreover have "p - VA_START \<noteq> current s - VA_START" if "p \<noteq> current s" using that by simp
      ultimately show ?thesis
        using kernel_page_neq [OF pp(2) C(2) _ _ y(2), of off] pp(1) C(1) by (cases "p = current s") simp_all
    qed
  qed
qed

lemma worked_isolated:
  assumes iso: "isolated init g s" and cur: "current s \<noteq> init" and work: "kernel_work s t"
  shows "isolated init g t"
proof (rule isolated_keep [OF iso])
  note same = worked_mem [OF assms]
  have rest: "task t = task s" "current t = current s" "nr_tasks t = nr_tasks s" "ttbr0_el1 (cpu t) = ttbr0_el1 (cpu s)"
      and used: "used_pages_of s \<subseteq> used_pages_of t"
    using work used_pages_of_cong [of t s] by (simp_all add: kernel_work_def)
  then show "used_pages_of s \<subseteq> used_pages_of t" "task t = task s" by simp_all
  show "kernel_inv init t" using same(1) used rest by (intro tasks_keptI [OF isolatedD(1) [OF iso]]) simp_all
  show "tracks_pgd t"
    using isolatedD(2) [OF iso] same(1) [of "current s" off_pgd] isolated_listed [OF iso] rest
    by (simp add: tracks_pgd_def current_listed_def layout_defs)
  show "mem t (x + VA_START + y) = mem s (x + VA_START + y)"
    if x: "p \<in> procs init s" "x \<in> ran (fst (g p))" "y < 4096" for p x y
  proof (rule same(2) [OF _ _ x(3)])
    note P = isolatedD(5) [OF iso x(1)]
    show "x \<in> used_pages_of s" using P x(2) by (auto simp: process_def task_page_def)
    have c: "current s \<in> procs init s"
      using isolated_listed [OF iso] cur by (simp add: current_listed_def procs_def)
    show "x \<noteq> current s - VA_START"
    proof (cases "p = current s")
      case True
      then show ?thesis using P x(2) by (auto simp: process_def task_page_def)
    next
      case False
      then show ?thesis using isolatedD(7) [OF iso x(1) c] x(2) by (auto simp: own_def)
    qed
  qed
qed (use worked_mem(1) [OF assms] in auto)

section \<open>A process that grows\<close>

lemma listed_snoc:
  assumes L: "listed T A" and va: "A (vpn va) = None" "page_aligned va" "va < push_bit 48 1"
    and few: "page_count T < 16" "length (user_pages (mm T)) = 16"
    and T': "user_pages_count (mm T') = user_pages_count (mm T) + 1"
      "user_pages (mm T') = (user_pages (mm T))[page_count T := \<lparr>phys_addr = p, virt_addr = va\<rparr>]"
  shows "listed T' (A(vpn va \<mapsto> p))"
proof -
  let ?n = "page_count T"
  have n: "page_count T' = Suc ?n"
    using few(1) unfolding page_count_def T'(1) by (simp add: unat_word_ariths)
  have old: "nth_va T' j = nth_va T j" if "j < ?n" for j
    using that few by (simp add: nth_va_def T'(2))
  have new: "nth_va T' ?n = va" using few by (simp add: nth_va_def T'(2))
  have all: "nth_va T' j = (if j = ?n then va else nth_va T j)" if "j < Suc ?n" for j
    using that old new by auto
  have doms: "dom A = (\<lambda>j. vpn (nth_va T j)) ` {..<?n}" and inj: "inj_on (\<lambda>j. vpn (nth_va T j)) {..<?n}"
    and ok: "\<forall>j < ?n. page_aligned (nth_va T j) \<and> nth_va T j < push_bit 48 1"
    using L by (simp_all add: listed_def)
  have fresh: "vpn va \<noteq> vpn (nth_va T j)" if "j < ?n" for j
    using va(1) doms that by (metis (mono_tags, lifting) domIff image_eqI lessThan_iff)
  have "(\<lambda>j. vpn (nth_va T' j)) ` {..<Suc ?n} = insert (vpn va) ((\<lambda>j. vpn (nth_va T j)) ` {..<?n})"
    by (simp add: lessThan_Suc new old cong: image_cong_simp)
  moreover have "inj_on (\<lambda>j. vpn (nth_va T' j)) {..<Suc ?n}"
  proof (rule inj_onI)
    fix i j assume ij: "i \<in> {..<Suc ?n}" "j \<in> {..<Suc ?n}" and eq: "vpn (nth_va T' i) = vpn (nth_va T' j)"
    consider "i < ?n" "j < ?n" | "i = ?n" "j < ?n" | "i < ?n" "j = ?n" | "i = j" using ij by fastforce
    then show "i = j"
      using inj_onD [OF inj, of i j] fresh [of i] fresh [of j] eq by cases (simp_all add: old new)
  qed
  moreover have "\<forall>j < Suc ?n. page_aligned (nth_va T' j) \<and> nth_va T' j < push_bit 48 1"
    using ok va(2,3) all by auto
  ultimately show ?thesis by (simp add: listed_def n doms)
qed

text \<open>The current process, not the first task, gets a page.\<close>

definition with_page :: "tables \<Rightarrow> space \<Rightarrow> addr \<Rightarrow> addr \<Rightarrow> tables \<times> space" where
  "with_page tab' A va p = (tab', A(vpn va \<mapsto> p))"

lemma grown_process:
  assumes P: "process s c M" and gr: "grown s c (fst M) (va, p) t tab'"
    and space: "addr_space t c tab' ((snd M)(vpn va \<mapsto> p))"
    and va: "snd M (vpn va) = None" "page_aligned va" "va < push_bit 48 1"
    and few: "page_count (load_task (mem s) c) < 16"
  shows "process t c (with_page tab' (snd M) va p)"
    and "own c (with_page tab' (snd M) va p) \<subseteq> own c M \<union> (used_pages_of t - used_pages_of s)"
    and "used_pages_of s \<subseteq> used_pages_of t"
proof -
  obtain new where new: "ran tab' = ran (fst M) \<union> new" "new \<inter> insert p (used_pages_of s) = {}"
      "used_pages_of t = insert p (used_pages_of s) \<union> new"
    and p: "p \<notin> used_pages_of s" "p \<notin> ran tab'"
    and rec: "user_pages_count (mm (load_task (mem t) c)) = user_pages_count (mm (load_task (mem s) c)) + 1"
      "user_pages (mm (load_task (mem t) c)) = (user_pages (mm (load_task (mem s) c)))
       [page_count (load_task (mem s) c) := \<lparr>phys_addr = p, virt_addr = va\<rparr>]"
    using gr by (auto simp: grown_def page_count_def)
  have tp: "task_page s (fst M) (c - VA_START) c" and ranA: "ran (snd M) \<subseteq> used_pages_of s - insert (c - VA_START) (ran (fst M))"
    and L: "listed (load_task (mem s) c) (snd M)"
    using P by (simp_all add: process_def)
  have rn: "ran ((snd M)(vpn va \<mapsto> p)) = insert p (ran (snd M))" using va(1) by (rule ran_map_upd)
  have "listed (load_task (mem t) c) ((snd M)(vpn va \<mapsto> p))"
    by (rule listed_snoc [OF L va few _ rec]) simp
  moreover have "task_page t tab' (c - VA_START) c"
    using tp new p unfolding task_page_def by auto
  moreover have "ran ((snd M)(vpn va \<mapsto> p)) \<subseteq> used_pages_of t - insert (c - VA_START) (ran tab')"
    using ranA new p tp unfolding rn task_page_def by auto
  ultimately show "process t c (with_page tab' (snd M) va p)"
    using space by (simp add: process_def with_page_def)
  show "own c (with_page tab' (snd M) va p) \<subseteq> own c M \<union> (used_pages_of t - used_pages_of s)"
    using new p unfolding own_def with_page_def fst_conv snd_conv rn by auto
  show "used_pages_of s \<subseteq> used_pages_of t" using new by auto
qed

text \<open>What the other tasks see of it.\<close>

lemma grown_others:
  assumes iso: "isolated init g s" and c: "c \<in> procs init s" and gr: "grown s c (fst (g c)) (va, p) t tab'"
  shows "q \<in> set (task s) \<Longrightarrow> q \<noteq> 0 \<Longrightarrow> q \<noteq> c \<Longrightarrow> unat off < 552 \<Longrightarrow> mem t (q + off) = mem s (q + off)"
    and "x \<in> used_pages_of s \<Longrightarrow> x \<noteq> c - VA_START \<Longrightarrow> x \<notin> ran (fst (g c)) \<Longrightarrow> y < 4096 \<Longrightarrow>
      mem t (x + VA_START + y) = mem s (x + VA_START + y)"
proof -
  obtain new where new: "ran tab' = ran (fst (g c)) \<union> new" "new \<inter> insert p (used_pages_of s) = {}"
      "used_pages_of t = insert p (used_pages_of s) \<union> new" "p \<notin> used_pages_of s"
    and frame: "\<forall>b y. page_aligned b \<and> y < 4096 \<and> b \<noteq> c \<and> b \<noteq> p + VA_START \<and> b - VA_START \<notin> ran tab' \<longrightarrow>
      mem t (b + y) = mem s (b + y)"
    using gr by (auto simp: grown_def)
  note C = isolatedD(5) [OF iso c]
  have pages: "ran tab' \<subseteq> all_pages" "p \<in> all_pages"
    using new(1,3) C used_pages_subset [of s] used_pages_subset [of t] by (auto simp: process_def task_page_def)
  show page: "mem t (x + VA_START + y) = mem s (x + VA_START + y)"
    if x: "x \<in> used_pages_of s" "x \<noteq> c - VA_START" "x \<notin> ran (fst (g c))" "y < 4096" for x y
  proof -
    have xp: "x \<in> all_pages" using x(1) used_pages_subset by blast
    have "page_aligned (x + VA_START)" using xp by (simp add: page_aligned_add all_pages_aligned VA_START_aligned)
    moreover have "x + VA_START \<noteq> c" "x + VA_START \<noteq> p + VA_START" "x + VA_START - VA_START \<notin> ran tab'"
      using x new by auto
    ultimately show ?thesis using frame x(4) by blast
  qed
  show "mem t (q + off) = mem s (q + off)" if q: "q \<in> set (task s)" "q \<noteq> 0" "q \<noteq> c" "unat off < 552" for q off
  proof (cases "q = init")
    case False
    then have Q: "q \<in> procs init s" using q by (simp add: procs_def)
    note qq = process_page [OF isolatedD(5) [OF iso Q]]
    have "q - VA_START \<in> used_pages_of s" using process_own [OF isolatedD(5) [OF iso Q]] by (simp add: own_def)
    moreover have "q - VA_START \<notin> own c (g c)" using isolatedD(7) [OF iso Q c q(3)] by (auto simp: own_def)
    moreover have "off < 4096" using q(4) by (simp add: word_less_nat_alt)
    ultimately show ?thesis using page [of "q - VA_START" off] qq(1) by (auto simp: own_def)
  next
    case True
    obtain b y where b: "q + off = b + y" "page_aligned b" "y < 4096" by (rule page_of)
    have "b - VA_START \<notin> all_pages"
    proof
      assume "b - VA_START \<in> all_pages"
      then have "init + off \<noteq> b - VA_START + VA_START + y"
        using isolatedD(3) [OF iso] b(3) q(4) unfolding off_pages_def by blast
      then show False using b(1) True by simp
    qed
    then have "b \<noteq> c" "b \<noteq> p + VA_START" "b - VA_START \<notin> ran tab'"
      using pages process_page(2) [OF C] by auto
    then show ?thesis using frame b by (metis)
  qed
qed

lemma grown_first:
  assumes iso: "isolated init g s" and c: "c \<in> procs init s" and gr: "grown s c (fst (g c)) (va, p) t tab'"
    and q: "q \<in> set (task s)" "q \<noteq> 0" "unat off < 144"
  shows "mem t (q + off) = mem s (q + off)"
  using q grown_others(1) [OF iso c gr, of q off] gr by (cases "q = c") (auto simp: grown_def)

lemma grown_isolated:
  assumes iso: "isolated init g s" and cur: "current s \<noteq> init"
    and gr: "grown s (current s) (fst (g (current s))) (va, p) t tab'"
    and space: "addr_space t (current s) tab' ((snd (g (current s)))(vpn va \<mapsto> p))"
    and va: "snd (g (current s)) (vpn va) = None" "page_aligned va" "va < push_bit 48 1"
    and few: "page_count (load_task (mem s) (current s)) < 16"
    and rest: "current t = current s" "task t = task s" "nr_tasks t = nr_tasks s" "tracks_pgd t"
  shows "isolated init (g(current s := with_page tab' (snd (g (current s))) va p)) t"
proof -
  let ?c = "current s" and ?M = "with_page tab' (snd (g (current s))) va p"
  have c: "?c \<in> procs init s" using isolated_listed [OF iso] cur by (simp add: current_listed_def procs_def)
  note C = isolatedD(5) [OF iso c]
  note new = grown_process [OF C gr space va few] and others = grown_others [OF iso c gr]
  have P: "procs init t = procs init s" by (simp add: procs_def rest)
  have first: "mem t (q + off) = mem s (q + off)" if "q \<in> set (task s)" "q \<noteq> 0" "unat off < 144" for q off
    using that by (rule grown_first [OF iso c gr])
  have proc: "process t q ((g(?c := ?M)) q)" if q: "q \<in> procs init s" for q
  proof (cases "q = ?c")
    case True
    then show ?thesis using new(1) by simp
  next
    case False
    note Q = isolatedD(5) [OF iso q] and apart = isolatedD(7) [OF iso q c False]
    have "process t q (g q)"
    proof (rule process_keep [OF Q new(3)])
      show "mem t (q + off) = mem s (q + off)" if "144 \<le> unat off" "unat off < 552" for off
        using others(1) [OF _ _ False that(2)] proc_listed [OF q] by blast
      show "mem t (x + VA_START + y) = mem s (x + VA_START + y)" if x: "x \<in> ran (fst (g q))" "y < 4096" for x y
      proof (rule others(2) [OF _ _ _ x(2)])
        show "x \<in> used_pages_of s" using process_own [OF Q] x(1) by (auto simp: own_def)
        show "x \<noteq> ?c - VA_START" "x \<notin> ran (fst (g ?c))" using apart x(1) by (auto simp: own_def)
      qed
    qed
    then show ?thesis using False by simp
  qed
  have "maps_apart (insert ?c (procs init s)) (g(?c := ?M))"
    using isolatedD(6) [OF iso] process_own [OF isolatedD(5) [OF iso]] new(2) c
    by (intro maps_apart_update [where U = "used_pages_of s" and F = "used_pages_of t - used_pages_of s"]) auto
  moreover have "insert ?c (procs init s) = procs init s" using c by blast
  moreover have "kernel_inv init t"
    by (rule tasks_keptI [OF isolatedD(1) [OF iso] rest(2,1,3) new(3) first])
  moreover have "mem t (init + off_pgd) = 0"
    using others(1) [of init off_pgd] init_listed [OF isolatedD(1) [OF iso]] cur isolatedD(4) [OF iso]
    by (simp add: layout_defs)
  ultimately show ?thesis
    using proc isolatedD(3) [OF iso] rest(4) unfolding isolated_def P by simp
qed

text \<open>A page fault at an address that is not mapped.\<close>

lemma page_mask_address:
  assumes "(a :: addr) < push_bit 48 1"
  shows "page_aligned (a AND PAGE_MASK)" "a AND PAGE_MASK < push_bit 48 1"
proof -
  have "\<not> bit (a AND PAGE_MASK) n" if "n < 12" for n
    using that unfolding PAGE_MASK_mask by (simp add: bit_simps)
  then have "take_bit 12 (unat (a AND PAGE_MASK)) = 0"
    by (intro bit_eqI) (auto simp: bit_simps)
  then show "page_aligned (a AND PAGE_MASK)"
    by (simp add: page_aligned_def take_bit_eq_mod mod_eq_0_iff_dvd)
  show "a AND PAGE_MASK < push_bit 48 1" using assms by (rule le_less_trans [OF word_and_le2])
qed

lemma fault_allocates:
  assumes "translation_fault esr" "allocate_user_page (current s) (a AND PAGE_MASK) s = (p + VA_START, u)" "p \<in> all_pages"
  shows "\<exists>r. do_mem_abort a esr s = (r, u\<lparr>ind := ind u + 1\<rparr>)"
proof -
  obtain page s1 where get: "get_free_page s = (page, s1)" by (cases "get_free_page s")
  have "page \<noteq> 0"
    using assms(2) kernel_translate(2) [OF assms(3), of 0] by (auto simp: allocate_user_page_def get)
  moreover have cur: "current s1 = current s"
    using get by (auto simp: get_free_page_def Let_def split: option.splits)
  moreover have "map_page (current s1) (a AND PAGE_MASK) page s1 = u"
    using assms(2) \<open>page \<noteq> 0\<close> by (auto simp: allocate_user_page_def get cur)
  ultimately show ?thesis
    using assms(1) by (simp add: do_mem_abort_def fault_status get Let_def del: One_nat_def)
qed

text \<open>There is room for a page and for the tables that lead to it.\<close>

definition page_room :: "kernel \<Rightarrow> bool" where
  "page_room s \<longleftrightarrow> 5 \<le> card (all_pages - used_pages_of s) \<and>
     unat (kernel_pages_count (mm (load_task (mem s) (current s)))) < 12 \<and>
     unat (user_pages_count (mm (load_task (mem s) (current s)))) < 16"

lemma tracks_after:
  assumes P: "process s (current s) M" and tr: "tracks_pgd s" and pgd: "mem s (current s + off_pgd) \<noteq> 0"
    and same: "current t = current s" "ttbr0_el1 (cpu t) = ttbr0_el1 (cpu s)"
    and space: "addr_space t (current s) tab' A'" and tab: "fst M \<subseteq>\<^sub>m tab'"
  shows "tracks_pgd t"
proof -
  let ?r = "mem s (current s + off_pgd)"
  have "fst M [] = Some ?r" using P pgd by (simp add: process_def addr_space_def)
  then have root: "tab' [] = Some ?r" using tab by (metis domI map_le_def)
  have "ttbr0_el1 (cpu s) = ?r" using tr pgd by (simp add: tracks_pgd_def)
  moreover have "mem t (current s + off_pgd) = ?r" if "mem t (current s + off_pgd) \<noteq> 0"
    using space that root by (simp add: addr_space_def)
  ultimately show ?thesis unfolding tracks_pgd_def same by simp
qed

lemma proc_current: "isolated init g s \<Longrightarrow> current s \<noteq> init \<Longrightarrow> current s \<in> procs init s"
  using isolated_listed by (simp add: current_listed_def procs_def)

lemma fault_grows:
  assumes iso: "isolated init g s" and cur: "current s \<noteq> init" and pgd: "mem s (current s + off_pgd) \<noteq> 0"
    and fault: "translation_fault esr" "user_walk (mem s) (ttbr0_el1 (cpu s)) a = None" "a < push_bit 48 1"
    and room: "page_room s"
  obtains r t p tab' where "do_mem_abort a esr s = (r, t)" "current t = current s" "task t = task s"
    "grown s (current s) (fst (g (current s))) (a AND PAGE_MASK, p) t tab'"
    "isolated init (g(current s := with_page tab' (snd (g (current s))) (a AND PAGE_MASK) p)) t"
proof -
  let ?c = "current s" and ?va = "a AND PAGE_MASK"
  have c: "?c \<in> procs init s" by (rule proc_current [OF iso cur])
  note C = isolatedD(5) [OF iso c]
  have tp: "task_page s (fst (g ?c)) (?c - VA_START) ?c" and sp: "addr_space s ?c (fst (g ?c)) (snd (g ?c))"
    using C by (simp_all add: process_def)
  have free: "5 \<le> card (all_pages - used_pages_of s)" and counts:
      "unat (kernel_pages_count (mm (load_task (mem s) ?c))) < 12" "unat (user_pages_count (mm (load_task (mem s) ?c))) < 16"
    using room by (simp_all add: page_room_def)
  obtain p tab' new u where alloc: "allocate_user_page ?c ?va s = (p + VA_START, u)"
    and p: "p \<in> all_pages" "p \<notin> used_pages_of s" "p \<notin> ran tab'"
    and space: "addr_space u ?c tab' ((snd (g ?c))(vpn ?va \<mapsto> p))"
    and tabs: "ran tab' = ran (fst (g ?c)) \<union> set new" "set new \<inter> insert p (used_pages_of s) = {}"
      "used_pages_of u = insert p (used_pages_of s) \<union> set new"
    and rest: "u = s\<lparr>mem := mem u, mem_map := mem_map u\<rparr>"
    and frame: "\<forall>b y. page_aligned b \<and> y < 4096 \<and> b \<noteq> ?c \<and> b \<noteq> p + VA_START \<and> b - VA_START \<notin> ran tab' \<longrightarrow>
       mem u (b + y) = mem s (b + y)"
    and uc: "user_pages_count (mm (load_task (mem u) ?c)) = user_pages_count (mm (load_task (mem s) ?c)) + 1"
    and ups: "user_pages (mm (load_task (mem u) ?c)) = (user_pages (mm (load_task (mem s) ?c)))
       [unat (user_pages_count (mm (load_task (mem s) ?c))) := \<lparr>phys_addr = p, virt_addr = ?va\<rparr>]"
    and first: "\<forall>y. outside_mm y \<longrightarrow> mem u (?c + y) = mem s (?c + y)" and sub: "fst (g ?c) \<subseteq>\<^sub>m tab'"
    by (rule allocate_user_page_run [OF tp sp free counts, of ?va]) (rule that)
  obtain r where run: "do_mem_abort a esr s = (r, u\<lparr>ind := ind u + 1\<rparr>)"
    using fault_allocates [OF fault(1) alloc p(1)] by blast
  let ?t = "u\<lparr>ind := ind u + 1\<rparr>"
  have used: "used_pages_of ?t = used_pages_of u" by (rule used_pages_of_cong) simp
  have same: "current ?t = ?c" "task ?t = task s" "nr_tasks ?t = nr_tasks s" "ttbr0_el1 (cpu ?t) = ttbr0_el1 (cpu s)"
    using arg_cong [OF rest, of current] arg_cong [OF rest, of task] arg_cong [OF rest, of nr_tasks] arg_cong [OF rest, of cpu]
    by simp_all
  have space': "addr_space ?t ?c tab' ((snd (g ?c))(vpn ?va \<mapsto> p))" using space by (simp add: addr_space_def)
  have first': "\<forall>y. unat y < 144 \<longrightarrow> mem u (?c + y) = mem s (?c + y)"
    using first by (simp add: outside_mm_def word_less_nat_alt)
  have gr: "grown s ?c (fst (g ?c)) (?va, p) ?t tab'"
    unfolding grown_def fst_conv snd_conv used
  proof (intro conjI)
    show "\<exists>new. ran tab' = ran (fst (g ?c)) \<union> new \<and> new \<inter> insert p (used_pages_of s) = {} \<and>
        used_pages_of u = insert p (used_pages_of s) \<union> new"
      using tabs by blast
  qed (use p uc ups first' frame in simp_all)
  have "ttbr0_el1 (cpu s) = mem s (?c + off_pgd)" using isolatedD(2) [OF iso] pgd by (simp add: tracks_pgd_def)
  then have "snd (g ?c) (vpn a) = None" using fault(2) process_walk [OF C pgd, of a] by simp
  then have fresh: "snd (g ?c) (vpn ?va) = None" by (simp only: vpn_page_mask)
  have "tracks_pgd ?t" by (rule tracks_after [OF C isolatedD(2) [OF iso] pgd same(1,4) space' sub])
  with gr have "isolated init (g(?c := with_page tab' (snd (g ?c)) ?va p)) ?t"
    using grown_isolated [OF iso cur gr space' fresh page_mask_address [OF fault(3)] _ same(1-3)] counts
    by (simp add: page_count_def)
  with run same(1,2) gr show thesis by (rule that)
qed

text \<open>A kernel thread becomes a process.\<close>

lemma no_pgd_no_map: "process s p M \<Longrightarrow> mem s (p + off_pgd) = 0 \<Longrightarrow> M = (Map.empty, Map.empty)"
  by (cases M) (simp add: process_def addr_space_def)

lemma moved_grows:
  assumes iso: "isolated init g s" and cur: "current s \<noteq> init" and pgd: "mem s (current s + off_pgd) = 0"
    and room: "page_room s" and img: "page_aligned b" "b < LOW_MEMORY" "rounds n \<le> 512"
  obtains t p tab' where "move_to_user_mode (b + VA_START) n user_pc s = Inr (0, t)" "current t = current s" "task t = task s"
    "grown s (current s) (fst (g (current s))) (0, p) t tab'"
    "isolated init (g(current s := with_page tab' Map.empty 0 p)) t" "mem t (current s + off_pgd) \<noteq> 0"
proof -
  let ?c = "current s"
  have c: "?c \<in> procs init s" by (rule proc_current [OF iso cur])
  note C = isolatedD(5) [OF iso c]
  have M: "g ?c = (Map.empty, Map.empty)" by (rule no_pgd_no_map [OF C pgd])
  have tp: "task_page s (fst (g ?c)) (?c - VA_START) ?c" and sp: "addr_space s ?c (fst (g ?c)) (snd (g ?c))"
    using C by (simp_all add: process_def)
  have free: "5 \<le> card (all_pages - used_pages_of s)" and counts:
      "unat (kernel_pages_count (mm (load_task (mem s) ?c))) < 12" "unat (user_pages_count (mm (load_task (mem s) ?c))) < 16"
    using room by (simp_all add: page_room_def)
  obtain p t tab' where run: "move_to_user_mode (b + VA_START) n user_pc s = Inr (0, t)"
    and space: "addr_space t ?c tab' ((snd (g ?c))(vpn 0 \<mapsto> p))"
    and same: "current t = ?c" "task t = task s" "nr_tasks t = nr_tasks s"
    and root: "mem t (?c + off_pgd) \<noteq> 0" "ttbr0_el1 (cpu t) = mem t (?c + off_pgd)"
    and gr: "grown s ?c (fst (g ?c)) (0, p) t tab'"
    using user_mode_run_full [OF tp sp refl free counts img, of user_pc] by (elim exE conjE) (rule that)
  have "tracks_pgd t" using root same(1) by (simp add: tracks_pgd_def)
  then have "isolated init (g(?c := with_page tab' (snd (g ?c)) 0 p)) t"
    using grown_isolated [OF iso cur gr space _ zero_aligned _ _ same] counts by (simp add: M page_count_def)
  then show thesis using run same(1,2) gr root(1) by (intro that) (simp_all add: M)
qed

section \<open>New tasks\<close>

lemma added_procs:
  assumes "task_table s" "nr_tasks s < NR_TASKS" "task t = (task s)[nr_tasks s := p]" "p \<noteq> 0" "p \<noteq> init"
  shows "procs init t = insert p (procs init s)"
proof -
  have n: "nr_tasks s < length (task s)" "task s ! nr_tasks s = 0"
    using assms(1,2) by (auto simp: task_table_def)
  have "q \<in> set (task t)" if "q \<in> set (task s)" "q \<noteq> 0" for q
  proof -
    obtain i where "i < length (task s)" "q = task s ! i" using \<open>q \<in> set (task s)\<close> by (auto simp: in_set_conv_nth)
    then show ?thesis using that(2) n unfolding assms(3) by (metis length_list_update nth_list_update_neq nth_mem)
  qed
  moreover have "p \<in> set (task t)" unfolding assms(3) using n(1) by (rule set_update_memI)
  moreover have "set (task t) \<subseteq> insert p (set (task s))" unfolding assms(3) by (rule set_update_subset_insert)
  ultimately show ?thesis using assms(4,5) by (auto simp: procs_def)
qed

lemma page_task_new: "off_pages init \<Longrightarrow> p - VA_START \<in> all_pages \<Longrightarrow> p \<noteq> 0 \<and> p \<noteq> init"
proof
  assume off: "off_pages init" and p: "p - VA_START \<in> all_pages"
  show "p \<noteq> 0" using kernel_translate(2) [OF p, of 0] by auto
  have "init + 0 \<noteq> p - VA_START + VA_START + 0"
    by (rule off [unfolded off_pages_def, rule_format]) (use p in simp_all)
  then show "p \<noteq> init" by simp
qed

text \<open>A task in a page that was free, with a map of free pages, while all that was in use stays.\<close>

lemma added_isolated:
  assumes iso: "isolated init g s" and inv: "kernel_inv init t" and n: "nr_tasks s < NR_TASKS"
    and p: "p - VA_START \<in> all_pages - used_pages_of s" and task: "task t = (task s)[nr_tasks s := p]"
    and new: "process t p M" "own p M \<inter> used_pages_of s = {}" and used: "used_pages_of s \<subseteq> used_pages_of t"
    and same: "current t = current s" "ttbr0_el1 (cpu t) = ttbr0_el1 (cpu s)"
    and frame: "\<And>b y. page_aligned b \<Longrightarrow> b - VA_START \<notin> all_pages - used_pages_of s \<Longrightarrow> y < 4096 \<Longrightarrow>
      mem t (b + y) = mem s (b + y)"
  shows "isolated init (g(p := M)) t" "p \<notin> procs init s" "procs init t = insert p (procs init s)"
proof -
  have table: "task_table s" using isolatedD(1) [OF iso] by (simp add: kernel_inv_def)
  have in_struct: "mem t (q + off) = mem s (q + off)" if q: "q \<in> set (task s)" "q \<noteq> 0" "unat off < 552" for q off
  proof -
    obtain b y where b: "q + off = b + y" "page_aligned b" "y < 4096" by (rule page_of)
    have "b - VA_START \<notin> all_pages - used_pages_of s"
    proof
      assume "b - VA_START \<in> all_pages - used_pages_of s"
      then have "q + off \<noteq> b - VA_START + VA_START + y"
        using placedD [OF kernel_invD(3) [OF isolatedD(1) [OF iso]] q(1,2) _ _ q(3) b(3)] by blast
      then show False using b(1) by simp
    qed
    then show ?thesis using frame b by simp
  qed
  have init: "init \<in> set (task s)" "init \<noteq> 0" using init_listed [OF isolatedD(1) [OF iso]] by simp_all
  have p0: "p \<noteq> 0" "p \<noteq> init" using page_task_new [OF isolatedD(3) [OF iso], of p] p by simp_all
  show P: "procs init t = insert p (procs init s)" by (rule added_procs [OF table n task p0])
  have proc: "process t q (g q)" if q: "q \<in> procs init s" for q
  proof (rule process_keep [OF isolatedD(5) [OF iso q] used])
    show "mem t (q + off) = mem s (q + off)" if "144 \<le> unat off" "unat off < 552" for off
      using in_struct proc_listed [OF q] that(2) by blast
    show "mem t (x + VA_START + y) = mem s (x + VA_START + y)" if x: "x \<in> ran (fst (g q))" "y < 4096" for x y
    proof -
      have "x \<in> used_pages_of s" using process_own [OF isolatedD(5) [OF iso q]] x(1) by (auto simp: own_def)
      then show ?thesis
        using used_pages_subset [of s] x(2)
        by (intro frame) (auto simp: page_aligned_add all_pages_aligned VA_START_aligned)
    qed
  qed
  show new_q: "p \<notin> procs init s"
    using process_own [OF isolatedD(5) [OF iso]] p by (auto simp: own_def)
  have "maps_apart (insert p (procs init s)) (g(p := M))"
    using isolatedD(6) [OF iso] process_own [OF isolatedD(5) [OF iso]] new(2) new_q
    by (intro maps_apart_update [where U = "used_pages_of s" and F = "own p M"]) auto
  moreover have "tracks_pgd t"
    using isolatedD(2) [OF iso] in_struct [of "current s" off_pgd] isolated_listed [OF iso] same
    by (simp add: tracks_pgd_def current_listed_def layout_defs)
  moreover have "mem t (init + off_pgd) = 0"
    using in_struct [OF init, of off_pgd] isolatedD(4) [OF iso] by (simp add: layout_defs)
  ultimately show "isolated init (g(p := M)) t"
    using inv isolatedD(3) [OF iso] proc new(1) new_q unfolding isolated_def P by auto
qed

text \<open>A kernel thread: no map yet.\<close>

lemma created_isolated:
  assumes iso: "isolated init g s" and run: "copy_process im fl fn arg s = Inr (r, t)" and fl: "fl AND PF_KTHREAD \<noteq> 0"
    and free: "used_pages_of s \<noteq> all_pages" "nr_tasks s < NR_TASKS"
  obtains p where "isolated init (g(p := (Map.empty, Map.empty))) t" "p \<notin> procs init s" "procs init t = insert p (procs init s)"
    "current t = current s" "\<And>a. \<not> in_page p a \<Longrightarrow> mem t a = mem s a" "p - VA_START \<in> all_pages - used_pages_of s"
proof -
  note inv = isolatedD(1) [OF iso]
  note i = kernel_invD [OF inv]
  have can: "can_create VA_START s" using i free by (simp add: can_create_def)
  obtain p t' where t': "copy_process im fl fn arg s = Inr (int (nr_tasks s), t')"
    and p: "p - VA_START \<in> all_pages - used_pages_of s" and used: "used_pages_of t' = insert (p - VA_START) (used_pages_of s)"
    and T: "load_task (mem t') p = thread_struct im p fl (mem s (current s + off_priority)) fn arg"
    and tasks: "task t' = (task s)[nr_tasks s := p]" "current t' = current s" "cpu t' = cpu s"
    and frame: "\<forall>a. \<not> in_page p a \<longrightarrow> mem t' a = mem s a"
    and inv': "sched_inv t'" "task_table t'" "placed VA_START t'" "running t' = insert p (running s)"
    using thread_run [OF can fl, of im fn arg] by blast
  have t: "t' = t" using run t'(1) by simp
  have T2: "mm (load_task (mem t) p) = mm INIT_TASK" using T t by (simp add: thread_struct_def)
  then have "mem t (p + off_pgd) = 0" "user_pages_count (mm (load_task (mem t) p)) = 0"
    by (simp_all add: load_task_def INIT_TASK_def)
  then have proc: "process t p (Map.empty, Map.empty)"
    using p used t by (simp add: process_def task_page_def addr_space_def listed_def page_count_def)
  have k: "kernel_inv init t" using inv' i(4) t by (simp add: kernel_inv_def)
  have al: "page_aligned p"
    using page_aligned_add [OF all_pages_aligned VA_START_aligned, of "p - VA_START"] p by simp
  have clear: "own p (Map.empty, Map.empty) \<inter> used_pages_of s = {}" using p by (simp add: own_def)
  have keep: "mem t (b + y) = mem s (b + y)"
    if b: "page_aligned b" "b - VA_START \<notin> all_pages - used_pages_of s" "y < 4096" for b y
  proof -
    have "b \<noteq> p" using b(2) p by blast
    then have "\<not> in_page p (b + y)" using page_offset_neq [OF b(1) al _ b(3)] by (auto simp: in_page_def)
    then show ?thesis using frame t by simp
  qed
  have sub: "used_pages_of s \<subseteq> used_pages_of t" and rest: "task t = (task s)[nr_tasks s := p]" "current t = current s"
      "ttbr0_el1 (cpu t) = ttbr0_el1 (cpu s)"
    using used tasks t by auto
  note added = added_isolated [OF iso k free(2) p rest(1) proc clear sub rest(2,3) keep]
  show thesis by (rule that [OF added(1-3) rest(2)]) (use frame p t in simp_all)
qed

text \<open>A copy of the current process.\<close>

definition fork_room :: "kernel \<Rightarrow> bool" where
  "fork_room s \<longleftrightarrow> page_count (load_task (mem s) (current s)) \<le> 3 \<and>
     5 * page_count (load_task (mem s) (current s)) + 1 \<le> card (all_pages - used_pages_of s) \<and> nr_tasks s < NR_TASKS"

lemma process_forkable:
  assumes iso: "isolated init g s" and cur: "current s \<noteq> init" and pgd: "mem s (current s + off_pgd) \<noteq> 0" and room: "fork_room s"
  shows "can_create VA_START s"
    and "forkable s (fst (g (current s))) (snd (g (current s))) (current s - VA_START)"
proof -
  let ?c = "current s" and ?T = "load_task (mem s) (current s)"
  note i = kernel_invD [OF isolatedD(1) [OF iso]] and C = isolatedD(5) [OF iso proc_current [OF iso cur]]
  have "used_pages_of s \<noteq> all_pages" using room by (auto simp: fork_room_def)
  then show "can_create VA_START s" using i room by (simp add: can_create_def fork_room_def)
  have L: "listed ?T (snd (g ?c))" and ran: "ran (snd (g ?c)) \<subseteq> used_pages_of s - insert (?c - VA_START) (ran (fst (g ?c)))"
    using C by (simp_all add: process_def)
  have "\<exists>p. snd (g ?c) (vpn (nth_va ?T j)) = Some p \<and> p \<in> used_pages_of s - insert (?c - VA_START) (ran (fst (g ?c)))"
    if "j < page_count ?T" for j
  proof -
    have "vpn (nth_va ?T j) \<in> dom (snd (g ?c))" using L that by (simp add: listed_def)
    then obtain p where "snd (g ?c) (vpn (nth_va ?T j)) = Some p" by blast
    moreover from this have "p \<in> ran (snd (g ?c))" by (rule ranI)
    ultimately show ?thesis using ran by blast
  qed
  then have "parent_pages s ?T (snd (g ?c)) (insert (?c - VA_START) (ran (fst (g ?c))))"
    using L by (simp add: parent_pages_def listed_def)
  then show "forkable s (fst (g ?c)) (snd (g ?c)) (?c - VA_START)"
    using C pgd room isolatedD(2) [OF iso] by (simp add: forkable_def process_def tracks_pgd_def fork_room_def)
qed

lemma forked_isolated:
  assumes iso: "isolated init g s" and run: "copy_process im fl fn arg s = Inr (r, t)" and fl: "fl AND PF_KTHREAD = 0"
    and cur: "current s \<noteq> init" and pgd: "mem s (current s + off_pgd) \<noteq> 0" and room: "fork_room s"
  obtains p M where "isolated init (g(p := M)) t" "p \<notin> procs init s" "procs init t = insert p (procs init s)" "current t = current s"
    "dom (snd M) = dom (snd (g (current s)))" "\<And>b y. page_aligned b \<Longrightarrow> b - VA_START \<notin> all_pages - used_pages_of s \<Longrightarrow> y < 4096 \<Longrightarrow>
      mem t (b + y) = mem s (b + y)" "running t = insert p (running s)"
proof -
  let ?c = "current s" and ?T = "load_task (mem s) (current s)"
  note inv = isolatedD(1) [OF iso] and C = isolatedD(5) [OF iso proc_current [OF iso cur]]
  note i = kernel_invD [OF inv]
  obtain p t' tabC AC where t': "copy_process im fl fn arg s = Inr (int (nr_tasks s), t')"
    and p: "p - VA_START \<in> all_pages - used_pages_of s" and same: "current t' = ?c" "cpu t' = cpu s"
    and space: "addr_space t' p tabC AC" "dom AC = {vpn (nth_va ?T j) | j. j < page_count ?T}"
    and fresh: "ran tabC \<inter> used_pages_of s = {}"
    and pages: "\<forall>va p'. AC (vpn va) = Some p' \<longrightarrow> p' \<in> used_pages_of t' - used_pages_of s \<and>
       user_walk (mem t') (mem t' (p + off_pgd)) va = Some (p' + (va AND mask PAGE_SHIFT)) \<and>
       same_page (mem t') p' (mem s) (the (snd (g ?c) (vpn va)))"
    and frame: "\<forall>b. page_aligned b \<and> b - VA_START \<notin> all_pages - used_pages_of s \<longrightarrow> (\<forall>y < 4096. mem t' (b + y) = mem s (b + y))"
    and inv': "sched_inv t'" "task_table t'" "placed VA_START t'" "running t' = insert p (running s)"
    and tabs: "ran tabC \<subseteq> used_pages_of t'" "ran AC \<inter> ran tabC = {}" "ran AC \<subseteq> used_pages_of t' - used_pages_of s"
      "insert (p - VA_START) (used_pages_of s) \<subseteq> used_pages_of t'" "p - VA_START \<notin> ran tabC \<union> ran AC"
    and rec: "page_count (load_task (mem t') p) = page_count ?T" "\<forall>j < page_count ?T. nth_va (load_task (mem t') p) j = nth_va ?T j"
    and task: "task t' = (task s)[nr_tasks s := p]"
    using fork_run_full [OF process_forkable [OF iso cur pgd room] fl refl, of im fn arg] by (elim exE conjE) (rule that)
  have t: "t' = t" using run t' by simp
  have L: "listed ?T (snd (g ?c))" using C by (simp add: process_def)
  have vas: "nth_va (load_task (mem t) p) j = nth_va ?T j" if "j < page_count ?T" for j using rec(2) that t by blast
  have "inj_on (\<lambda>j. vpn (nth_va (load_task (mem t) p) j)) {..<page_count ?T} \<longleftrightarrow> inj_on (\<lambda>j. vpn (nth_va ?T j)) {..<page_count ?T}"
    by (rule inj_on_cong) (simp add: vas)
  moreover have "dom AC = (\<lambda>j. vpn (nth_va (load_task (mem t) p) j)) ` {..<page_count ?T}"
    unfolding space(2) by (auto simp: vas)
  ultimately have listed: "listed (load_task (mem t) p) AC"
    using L rec(1) vas t by (simp add: listed_def)
  have proc: "process t p (tabC, AC)"
    using tabs space(1) listed t unfolding process_def task_page_def by auto
  have k: "kernel_inv init t" using inv' i(4) t by (simp add: kernel_inv_def)
  have n: "nr_tasks s < NR_TASKS" using room by (simp add: fork_room_def)
  have clear: "own p (tabC, AC) \<inter> used_pages_of s = {}" using p fresh tabs(3) by (auto simp: own_def)
  have keep: "mem t (b + y) = mem s (b + y)"
    if "page_aligned b" "b - VA_START \<notin> all_pages - used_pages_of s" "y < 4096" for b y
    using frame that t by blast
  have sub: "used_pages_of s \<subseteq> used_pages_of t" and rest: "task t = (task s)[nr_tasks s := p]" "current t = ?c"
      "ttbr0_el1 (cpu t) = ttbr0_el1 (cpu s)"
    using tabs(4) task same t by auto
  note added = added_isolated [OF iso k n p rest(1) proc clear sub rest(2,3) keep]
  show thesis
  proof (rule that)
    show "isolated init (g(p := (tabC, AC))) t" by (rule added(1))
    show "dom (snd (tabC, AC)) = dom (snd (g ?c))" using L space(2) by (auto simp: listed_def)
    show "mem t (b + y) = mem s (b + y)"
      if "page_aligned b" "b - VA_START \<notin> all_pages - used_pages_of s" "y < 4096" for b y
      using that by (rule keep)
    show "running t = insert p (running s)" using inv'(4) t by simp
  qed (use added(2,3) rest(2) in blast)+
qed

end
