(* ===== verification/Process_Steps.thy ===== *)
theory Process_Steps
  imports Isolation
begin

text \<open>
  The steps of lesson 6's kernel and user processes, and what holds of every run in which there
  is room for each step: the pages of
  two processes are different, a step for one process leaves the memory and the translation of
  the others alone, and a process can go on while there is room.
\<close>

unbundle bit_operations_syntax

section \<open>The steps\<close>

text \<open>
  \<open>By_Kernel\<close>: a timer interrupt, \<open>schedule\<close>, the creation of a kernel thread or the end of a
  task, as in \<open>kernel_step\<close>. The others act for the current task, which is not the first one:
  work on its kernel stack, a page fault, the move to user mode, a fork, and a store. A page
  fault is a step whatever \<open>do_mem_abort\<close> returns, so that the invariant also holds in the
  state in which the kernel stops because it returned -1. A step is there whether or not there is
  room for it; \<open>room_for\<close> says when there is.
\<close>

datatype process_event = By_Kernel kernel_event | Worked | Faulted | Moved | Forked | Stored

definition user_current :: "addr \<Rightarrow> kernel \<Rightarrow> bool" where
  "user_current init s \<longleftrightarrow> current s \<noteq> init \<and> mem s (current s + off_pgd) \<noteq> 0"

inductive process_step :: "image \<Rightarrow> addr \<Rightarrow> addr \<Rightarrow> kernel \<Rightarrow> process_event \<Rightarrow> kernel \<Rightarrow> bool"
  for im pb init where
  by_kernel: "kernel_step im pb init s e t \<Longrightarrow> e \<noteq> Computed \<Longrightarrow> process_step im pb init s (By_Kernel e) t"
| worked: "kernel_work s t \<Longrightarrow> current s \<noteq> init \<Longrightarrow> process_step im pb init s Worked t"
| faulted: "do_mem_abort a esr s = (r, t) \<Longrightarrow> translation_fault esr \<Longrightarrow> a < push_bit 48 1 \<Longrightarrow>
    user_walk (mem s) (ttbr0_el1 (cpu s)) a = None \<Longrightarrow> user_current init s \<Longrightarrow>
    process_step im pb init s Faulted t"
| moved: "move_to_user_mode (b + VA_START) n user_pc s = Inr (r, t) \<Longrightarrow> page_aligned b \<Longrightarrow> b < LOW_MEMORY \<Longrightarrow>
    rounds n \<le> 512 \<Longrightarrow> current s \<noteq> init \<Longrightarrow> mem s (current s + off_pgd) = 0 \<Longrightarrow>
    process_step im pb init s Moved t"
| forked: "copy_process im fl fn arg s = Inr (r, t) \<Longrightarrow> fl AND PF_KTHREAD = 0 \<Longrightarrow> user_current init s \<Longrightarrow>
    process_step im pb init s Forked t"
| stored: "user_store va v s = Some t \<Longrightarrow> user_current init s \<Longrightarrow> process_step im pb init s Stored t"

text \<open>
  The room a step needs: five free pages (a page and four tables) and free entries of both arrays for a fault
  or the move to user mode; at most three pages, five free ones for each and one more, and an entry
  of \<open>task\<close> for a fork; a free page for a thread. The code checks none of it before it writes:
  \<open>map_table_out_of_memory\<close> and \<open>page_arrays_overflow\<close> show what happens without.
\<close>

definition room_for :: "kernel \<Rightarrow> process_event \<Rightarrow> bool" where
  "room_for s e = (case e of
      Faulted \<Rightarrow> page_room s | Moved \<Rightarrow> page_room s | Forked \<Rightarrow> fork_room s
    | By_Kernel k \<Rightarrow> k \<noteq> Refused | _ \<Rightarrow> True)"

lemma room_for_simps [simp]:
  "room_for s Faulted = page_room s" "room_for s Moved = page_room s" "room_for s Forked = fork_room s"
  "room_for s (By_Kernel k) = (k \<noteq> Refused)" "room_for s Stored" "room_for s Worked"
  by (simp_all add: room_for_def)

text \<open>A run, with the state before each of its steps.\<close>

inductive process_reach :: "image \<Rightarrow> addr \<Rightarrow> addr \<Rightarrow> kernel \<Rightarrow> (kernel \<times> process_event) list \<Rightarrow> kernel \<Rightarrow> bool"
  for im pb init where
  "process_reach im pb init s [] s"
| "process_reach im pb init s es t \<Longrightarrow> process_step im pb init t e u \<Longrightarrow> process_reach im pb init s (es @ [(t, e)]) u"

definition roomy :: "(kernel \<times> process_event) list \<Rightarrow> bool" where
  "roomy es \<longleftrightarrow> (\<forall>(s, e) \<in> set es. room_for s e)"

lemma roomy_simps [simp]: "roomy []" "roomy (es @ [(s, e)]) \<longleftrightarrow> roomy es \<and> room_for s e" "roomy [(s, e)] \<longleftrightarrow> room_for s e"
  by (auto simp: roomy_def)

text \<open>What a step leaves to the process at \<open>p\<close>: its map, and the contents of its pages.\<close>

definition left_alone :: "maps \<Rightarrow> maps \<Rightarrow> kernel \<Rightarrow> kernel \<Rightarrow> addr \<Rightarrow> bool" where
  "left_alone g g' s t p \<longleftrightarrow> g' p = g p \<and>
     (\<forall>x \<in> ran (snd (g p)). \<forall>y < 4096. mem t (x + VA_START + y) = mem s (x + VA_START + y))"

definition step_safe :: "addr \<Rightarrow> maps \<Rightarrow> kernel \<Rightarrow> process_event \<Rightarrow> kernel \<Rightarrow> bool" where
  "step_safe init g s e t \<longleftrightarrow> (\<exists>g'. isolated init g' t \<and> procs init s \<subseteq> procs init t \<and>
     (\<forall>p \<in> procs init s. p \<noteq> current s \<or> e \<notin> {Faulted, Moved, Stored} \<longrightarrow> left_alone g g' s t p) \<and>
     (e = Stored \<longrightarrow> g' = g))"

lemma kept_safe:
  assumes iso: "isolated init g s" and inv: "kernel_inv init t" and kept: "tables_kept s t"
  shows "step_safe init g s e t"
proof -
  have "left_alone g g s t p" if "p \<in> procs init s" for p
    using kept page_not_sched [OF iso that] by (simp add: left_alone_def tables_kept_def)
  then show ?thesis
    using isolated_tables_kept [OF iso inv kept] kept unfolding step_safe_def
    by (intro exI [of _ g]) (simp add: procs_def tables_kept_def)
qed

text \<open>A page of another process is not one the current one's steps write to.\<close>

lemma other_page:
  assumes iso: "isolated init g s" and p: "p \<in> procs init s" and c: "c \<in> procs init s" "p \<noteq> c" and x: "x \<in> ran (snd (g p))"
  shows "x \<in> used_pages_of s" "x \<notin> own c (g c)" "x \<in> all_pages"
proof -
  show "x \<in> used_pages_of s" using process_own [OF isolatedD(5) [OF iso p]] x by (auto simp: own_def)
  then show "x \<in> all_pages" using used_pages_subset by blast
  show "x \<notin> own c (g c)" using isolatedD(7) [OF iso p c] x by (auto simp: own_def)
qed

lemma new_task_safe:
  assumes iso: "isolated init g s" and t: "isolated init (g(q := M)) t" "q \<notin> procs init s" "procs init t = insert q (procs init s)"
    and keep: "\<And>b y. page_aligned b \<Longrightarrow> b - VA_START \<notin> all_pages - used_pages_of s \<Longrightarrow> y < 4096 \<Longrightarrow> mem t (b + y) = mem s (b + y)"
    and e: "e \<noteq> Stored"
  shows "step_safe init g s e t"
proof -
  have "left_alone g (g(q := M)) s t p" if p: "p \<in> procs init s" for p
  proof -
    have "mem t (x + VA_START + y) = mem s (x + VA_START + y)" if x: "x \<in> ran (snd (g p))" "y < 4096" for x y
    proof (rule keep [OF _ _ x(2)])
      have "x \<in> used_pages_of s" using process_own [OF isolatedD(5) [OF iso p]] x(1) by (auto simp: own_def)
      moreover from this have "page_aligned x" using used_pages_subset all_pages_aligned by blast
      ultimately show "page_aligned (x + VA_START)" "x + VA_START - VA_START \<notin> all_pages - used_pages_of s"
        by (simp_all add: page_aligned_add VA_START_aligned)
    qed
    moreover have "p \<noteq> q" using p t(2) by blast
    ultimately show ?thesis unfolding left_alone_def by simp
  qed
  then show ?thesis using t(1,3) e unfolding step_safe_def by (intro exI [of _ "g(q := M)"]) auto
qed

lemma grown_safe:
  assumes iso: "isolated init g s" and c: "current s \<in> procs init s" and t: "isolated init (g(current s := M)) t" "task t = task s"
    and gr: "grown s (current s) (fst (g (current s))) (va, q) t tab'" and e: "e \<in> {Faulted, Moved}"
  shows "step_safe init g s e t"
proof -
  have "left_alone g (g(current s := M)) s t p" if p: "p \<in> procs init s" "p \<noteq> current s" for p
    using p grown_others(2) [OF iso c gr] other_page [OF iso p(1) c p(2)]
    by (auto simp: left_alone_def own_def)
  then show ?thesis using t e unfolding step_safe_def by (intro exI [of _ "g(current s := M)"]) (auto simp: procs_def)
qed

lemma process_step_safe:
  assumes "process_step im pb init s e t" and iso: "isolated init g s" and room: "room_for s e"
  shows "step_safe init g s e t"
  using assms(1)
proof cases
  case (by_kernel k)
  note inv = isolatedD(1) [OF iso]
  note si = kernel_invD(1) [OF inv]
  have inv': "kernel_inv init t" using kernel_step_refines [OF by_kernel(2) inv] room by_kernel(1) by auto
  from by_kernel(2) show ?thesis
  proof cases
    case interrupted
    then show ?thesis using kept_safe [OF iso inv'] interrupted_kept [OF si] by blast
  next
    case yielded
    then show ?thesis using kept_safe [OF iso inv'] yielded_kept [OF si] by blast
  next
    case ended
    then show ?thesis using kept_safe [OF iso inv'] ended_kept [OF si kernel_invD(4) [OF inv]] by metis
  next
    case computed
    then show ?thesis using by_kernel(3) by simp
  next
    case refused
    then show ?thesis using room by_kernel(1) by simp
  next
    case (created fl fn arg r)
    obtain q where q: "isolated init (g(q := (Map.empty, Map.empty))) t" "q \<notin> procs init s" "procs init t = insert q (procs init s)"
        "\<And>a. \<not> in_page q a \<Longrightarrow> mem t a = mem s a" "q - VA_START \<in> all_pages - used_pages_of s"
      by (rule created_isolated [OF iso created(2-4) thread_entry [OF created(2-4)]]) (rule that)
    have al: "page_aligned q"
      using page_aligned_add [OF all_pages_aligned VA_START_aligned, of "q - VA_START"] q(5) by simp
    show ?thesis
    proof (rule new_task_safe [OF iso q(1-3) _ ])
      show "e \<noteq> Stored" using by_kernel(1) by simp
      fix b y assume b: "page_aligned b" "b - VA_START \<notin> all_pages - used_pages_of s" "y < (4096 :: u64)"
      have "b \<noteq> q" using b(2) q(5) by blast
      then have "\<not> in_page q (b + y)" using page_offset_neq [OF b(1) al _ b(3)] by (auto simp: in_page_def)
      then show "mem t (b + y) = mem s (b + y)" by (rule q(4))
    qed
  qed
next
  case worked
  have c: "current s \<in> procs init s" by (rule proc_current [OF iso worked(3)])
  have "left_alone g g s t p" if p: "p \<in> procs init s" for p
  proof -
    have "x \<in> used_pages_of s \<and> x \<noteq> current s - VA_START" if x: "x \<in> ran (snd (g p))" for x
      using other_page [OF iso p c _ x] isolatedD(5) [OF iso p] x by (cases "p = current s") (auto simp: own_def process_def)
    then show ?thesis using worked_mem(2) [OF iso worked(3,2)] by (simp add: left_alone_def)
  qed
  then show ?thesis
    using worked_isolated [OF iso worked(3,2)] worked unfolding step_safe_def
    by (intro exI [of _ g]) (auto simp: procs_def kernel_work_def)
next
  case (faulted a esr r)
  have u: "current s \<noteq> init" "mem s (current s + off_pgd) \<noteq> 0" using faulted(6) by (simp_all add: user_current_def)
  obtain r' t' q tab' where f: "do_mem_abort a esr s = (r', t')" "task t' = task s"
    "grown s (current s) (fst (g (current s))) (a AND PAGE_MASK, q) t' tab'"
    "isolated init (g(current s := with_page tab' (snd (g (current s))) (a AND PAGE_MASK) q)) t'"
    by (rule fault_grows [OF iso u faulted(3,5,4)]) (use room faulted(1) that in simp_all)
  then have "t' = t" using faulted(2) by simp
  then show ?thesis using grown_safe [OF iso proc_current [OF iso u(1)]] f faulted(1) by blast
next
  case (moved b n user_pc r)
  obtain t' q tab' where m: "move_to_user_mode (b + VA_START) n user_pc s = Inr (0, t')" "task t' = task s"
    "grown s (current s) (fst (g (current s))) (0, q) t' tab'"
    "isolated init (g(current s := with_page tab' Map.empty 0 q)) t'"
    by (rule moved_grows [OF iso moved(6,7) _ moved(3-5)]) (use room moved(1) that in simp_all)
  then have "t' = t" using moved(2) by simp
  then show ?thesis using grown_safe [OF iso proc_current [OF iso moved(6)]] m moved(1) by blast
next
  case (forked fl fn arg r)
  have u: "current s \<noteq> init" "mem s (current s + off_pgd) \<noteq> 0" using forked(4) by (simp_all add: user_current_def)
  have fr: "fork_room s" using room forked(1) by simp
  show ?thesis
    by (rule forked_isolated [OF iso forked(2,3) u fr]) (rule new_task_safe [OF iso], assumption+, simp add: forked(1))
next
  case (stored va v)
  have u: "current s \<noteq> init" "mem s (current s + off_pgd) \<noteq> 0" using stored(3) by (simp_all add: user_current_def)
  obtain x y where x: "x \<in> ran (snd (g (current s)))" "y < 4096" and t: "t = s\<lparr>mem := (mem s)(x + VA_START + y := v)\<rparr>"
    and c: "current s \<in> procs init s"
    by (rule user_store_page [OF iso u stored(2)])
  have xo: "x \<in> own (current s) (g (current s))" using x(1) by (simp add: own_def)
  have xp: "x \<in> all_pages" using process_own [OF isolatedD(5) [OF iso c]] xo used_pages_subset by blast
  have "left_alone g g s t p" if p: "p \<in> procs init s" "p \<noteq> current s" for p
  proof -
    have "mem t (z + VA_START + y') = mem s (z + VA_START + y')" if z: "z \<in> ran (snd (g p))" "y' < 4096" for z y'
    proof -
      note o = other_page [OF iso p(1) c p(2) z(1)]
      have "z \<noteq> x" using o(2) xo by blast
      then show ?thesis using kernel_page_neq [OF o(3) xp _ z(2) x(2)] by (simp add: t)
    qed
    then show ?thesis by (simp add: left_alone_def)
  qed
  then show ?thesis
    using stored_isolated [OF iso u stored(2)] stored(1) unfolding step_safe_def
    by (intro exI [of _ g]) (auto simp: procs_def t)
qed

section \<open>What counts as work on the kernel stack\<close>

lemma entry_works:
  assumes sp: "sp_el1 (cpu s) = current s + k" "824 \<le> unat k" "unat k \<le> 4096"
  shows "kernel_work s (kernel_entry el s)"
proof -
  have "mem (kernel_entry el s) a = mem s a" if a: "\<forall>y. 552 \<le> y \<and> y < 4096 \<longrightarrow> a \<noteq> current s + y" for a
  proof (rule kernel_entry_outside)
    fix i :: nat assume i: "i < 34"
    have k: "unat (k - 272) = unat k - 272" using sp(2) by (simp add: unat_sub word_le_nat_alt)
    then have "unat (k - 272 + 8 * word_of_nat i) = unat k - 272 + 8 * i"
      using page_run_offset(2) [of i] i sp(2,3) by (simp add: unat_word_ariths)
    then have "552 \<le> k - 272 + 8 * word_of_nat i" "k - 272 + 8 * word_of_nat i < 4096"
      using sp(2,3) i by (simp_all add: word_le_nat_alt word_less_nat_alt)
    then have "a \<noteq> current s + (k - 272 + 8 * word_of_nat i)" using a by blast
    moreover have "sp_el1 (cpu s) - 272 + 8 * word_of_nat i = current s + (k - 272 + 8 * word_of_nat i)"
      unfolding sp(1) by (simp add: add_diff_eq)
    ultimately show "a \<noteq> sp_el1 (cpu s) - 272 + 8 * word_of_nat i" by (simp only: not_False_eq_True)
  qed
  moreover have "ttbr0_el1 (cpu (kernel_entry el s)) = ttbr0_el1 (cpu s)" "current (kernel_entry el s) = current s"
      "task (kernel_entry el s) = task s" "nr_tasks (kernel_entry el s) = nr_tasks s" "mem_map (kernel_entry el s) = mem_map s"
    by (simp_all add: kernel_entry_eq)
  ultimately show ?thesis by (simp add: kernel_work_def)
qed

lemma exit_works: "kernel_work s (kernel_exit el s)"
  by (simp add: kernel_work_def kernel_exit_def Let_def)

lemma device_works: "kernel_work s (s\<lparr>dev := w\<rparr>)" "kernel_work s (set_x n v s)"
  by (simp_all add: kernel_work_def set_x_def)

lemma kernel_work_trans: "kernel_work s t \<Longrightarrow> kernel_work t u \<Longrightarrow> kernel_work s u"
  by (simp add: kernel_work_def)

section \<open>Every run\<close>

lemma process_reach_isolated:
  assumes "process_reach im pb init s es t" "isolated init g s" "roomy es"
  shows "\<exists>g'. isolated init g' t \<and> procs init s \<subseteq> procs init t"
  using assms
proof (induction rule: process_reach.induct)
  case (2 s es t e u)
  then obtain g' where g: "isolated init g' t" "procs init s \<subseteq> procs init t" by auto
  have "room_for t e" using 2(5) by simp
  from process_step_safe [OF 2(2) g(1) this] g(2) show ?case unfolding step_safe_def by blast
qed blast

lemma process_pgd: "process s p M \<Longrightarrow> mem s (p + off_pgd) = (case fst M [] of None \<Rightarrow> 0 | Some r \<Rightarrow> r)"
  by (simp add: process_def addr_space_def split: if_splits)

text \<open>The state in which \<open>kernel_main\<close> starts satisfies the invariant: there is no process yet.\<close>

lemma boot_isolated: "isolated (current boot_kernel) g boot_kernel"
proof -
  let ?i = "current boot_kernel"
  have task: "task boot_kernel = ?i # replicate 63 0" by (simp add: boot_kernel_def initial_kernel_def NR_TASKS_def)
  note used = boot_kernel_unused
  have inv: "kernel_inv ?i boot_kernel" by (rule boot_kernel_inv)
  have "off_pages ?i"
    using kernel_invD(3) [OF inv] init_listed [OF inv] unfolding off_pages_def placed_def used by blast
  moreover have "mem boot_kernel (?i + off_pgd) = 0"
  proof -
    have "load_task (mem boot_kernel) ?i = INIT_TASK"
      unfolding boot_kernel_def initial_kernel_def kernel.simps
      by (rule load_store_task) (simp_all add: INIT_TASK_def MAX_PROCESS_PAGES_def)
    then have "pgd (mm (load_task (mem boot_kernel) ?i)) = 0" by (simp add: INIT_TASK_def)
    then show ?thesis by (simp add: load_task_def)
  qed
  moreover have "procs ?i boot_kernel = {}" by (simp add: procs_def task)
  ultimately show ?thesis using inv by (simp add: isolated_def maps_apart_def tracks_pgd_def)
qed

text \<open>What a process reads at a virtual address, and where that is.\<close>

definition page_walk :: "kernel \<Rightarrow> addr \<Rightarrow> addr \<Rightarrow> addr option" where
  "page_walk s p va = user_walk (mem s) (mem s (p + off_pgd)) va"

lemma page_walk_own:
  assumes iso: "isolated init g s" and p: "p \<in> procs init s" "mem s (p + off_pgd) \<noteq> 0" and w: "page_walk s p va = Some x"
  obtains z y where "z \<in> ran (snd (g p))" "y < 4096" "x = z + y"
  using w process_walk [OF isolatedD(5) [OF iso p(1)] p(2), of va] page_offset_small [of va]
  by (auto simp: page_walk_def intro: that ranI)

section \<open>Two processes after a fork\<close>

lemma tasks_AB: "task_A \<noteq> task_B" "task_B \<noteq> task_A" by (simp_all add: task_A_def task_B_def)

lemma fork_parent_isolated:
  obtains g where "isolated task_A g fork_parent" "user_current task_A fork_parent" "fork_room fork_parent"
    "procs task_A fork_parent = {task_B}" "snd (g task_B) = [vpn 0x1000 \<mapsto> page_at 2]"
proof -
  obtain tab where f: "can_create VA_START fork_parent"
    "forkable fork_parent tab (Map.empty(vpn 0x1000 \<mapsto> page_at 2)) (page_at 0)"
    "running fork_parent = {task_A, task_B}" "nr_tasks fork_parent = 2" "current fork_parent = task_B"
    "task fork_parent = [task_A, task_B] @ replicate 62 0" "mem fork_parent (task_A + off_pgd) = 0"
    "page_count (load_task (mem fork_parent) task_B) = 1" "nth_va (load_task (mem fork_parent) task_B) 0 = 0x1000"
    "6 \<le> card (all_pages - used_pages_of fork_parent)"
    by (rule fork_parent_facts)
  let ?M = "(tab, [vpn 0x1000 \<mapsto> page_at 2])"
  have par: "task_page fork_parent tab (page_at 0) task_B" "addr_space fork_parent task_B tab [vpn 0x1000 \<mapsto> page_at 2]"
    and pgd: "mem fork_parent (task_B + off_pgd) \<noteq> 0" "ttbr0_el1 (cpu fork_parent) = mem fork_parent (task_B + off_pgd)"
    and pages: "parent_pages fork_parent (load_task (mem fork_parent) task_B) [vpn 0x1000 \<mapsto> page_at 2] (insert (page_at 0) (ran tab))"
    using f(2) by (simp_all add: forkable_def f(5))
  have B: "task_B - VA_START = page_at 0" unfolding task_pageD(1) [OF par(1)] by simp
  have "page_at 2 \<in> used_pages_of fork_parent - insert (page_at 0) (ran tab)"
    using pages by (simp add: parent_pages_def f(8,9))
  moreover have "listed (load_task (mem fork_parent) task_B) [vpn 0x1000 \<mapsto> page_at 2]"
    using pages by (simp add: listed_def parent_pages_def f(8,9) lessThan_Suc)
  ultimately have proc: "process fork_parent task_B ?M"
    using par by (simp add: process_def B)
  have P: "procs task_A fork_parent = {task_B}" using tasks_AB by (auto simp: procs_def f(6) pair_tasks)
  have inv: "kernel_inv task_A fork_parent" using f(1,3) by (simp add: kernel_inv_def can_create_def)
  have "off_pages task_A" using task_A_placed by (simp add: off_pages_def)
  then have "isolated task_A (\<lambda>_. ?M) fork_parent"
    using proc inv f(7) pgd(2) by (simp add: isolated_def P maps_apart_def tracks_pgd_def f(5))
  moreover have "user_current task_A fork_parent" using pgd(1) tasks_AB by (simp add: user_current_def f(5))
  moreover have "fork_room fork_parent" using f(10) by (simp add: fork_room_def f(4,5,8) NR_TASKS_def)
  ultimately show thesis by (intro that [of "\<lambda>_. ?M"]) (simp_all add: P)
qed

lemma fork_parent_view: "view fork_parent = ({task_A, task_B}, task_B)"
  by (rule fork_parent_facts) (simp add: view_def)

text \<open>The fork: both have a page at 0x1000.\<close>

lemma fork_two_processes:
  obtains g t p where "isolated task_A g fork_parent" "process_step im pb task_A fork_parent Forked t" "p \<noteq> task_B"
    "procs task_A t = {p, task_B}" "\<exists>x. page_walk t p 0x1000 = Some x" "\<exists>x. page_walk t task_B 0x1000 = Some x"
    "mem t (p + off_pgd) \<noteq> 0" "mem t (task_B + off_pgd) \<noteq> 0" "current t = task_B" "current fork_parent = task_B"
    "fork_room fork_parent"
proof -
  obtain g where g: "isolated task_A g fork_parent" "user_current task_A fork_parent" "fork_room fork_parent"
    "procs task_A fork_parent = {task_B}" "snd (g task_B) = [vpn 0x1000 \<mapsto> page_at 2]"
    by (rule fork_parent_isolated)
  have u: "current fork_parent \<noteq> task_A" "mem fork_parent (current fork_parent + off_pgd) \<noteq> 0"
    using g(2) by (simp_all add: user_current_def)
  have cur: "current fork_parent = task_B" using proc_current [OF g(1) u(1)] g(4) by simp
  have fl: "(0 :: u64) AND PF_KTHREAD = 0" by simp
  have "\<exists>t. copy_process im 0 0 0 fork_parent = Inr (int (nr_tasks fork_parent), t)"
    using fork_run_full [OF process_forkable [OF g(1) u g(3)] fl refl, of im 0 0] by (elim exE conjE) (rule exI)
  then obtain t where run: "copy_process im 0 0 0 fork_parent = Inr (int (nr_tasks fork_parent), t)" by blast
  obtain p M where t: "isolated task_A (g(p := M)) t" "p \<notin> procs task_A fork_parent"
    "procs task_A t = insert p (procs task_A fork_parent)" "current t = current fork_parent"
    "dom (snd M) = dom (snd (g (current fork_parent)))"
    by (rule forked_isolated [OF g(1) run fl u g(3)]) (rule that)
  have two: "p \<in> procs task_A t" "task_B \<in> procs task_A t" "p \<noteq> task_B" using t(2,3) g(4) by auto
  note P = isolatedD(5) [OF t(1) two(1), unfolded fun_upd_same] and B = isolatedD(5) [OF t(1) two(2)]
  have "vpn 0x1000 \<in> dom (snd M)" by (simp add: t(5) cur g(5))
  then obtain x where x: "snd M (vpn 0x1000) = Some x" by blast
  have pgd: "mem t (p + off_pgd) \<noteq> 0" "mem t (task_B + off_pgd) \<noteq> 0"
    using P B x g(5) two(3) by (auto simp: process_def addr_space_def split: if_splits)
  have "page_walk t p 0x1000 = Some (x + (0x1000 AND mask PAGE_SHIFT))"
    using process_walk [OF P pgd(1)] x by (simp add: page_walk_def)
  moreover have "page_walk t task_B 0x1000 = Some (page_at 2 + (0x1000 AND mask PAGE_SHIFT))"
    using process_walk [OF B pgd(2)] g(5) two(3) by (simp add: page_walk_def)
  moreover have "process_step im pb task_A fork_parent Forked t" by (rule process_step.forked [OF run fl g(2)])
  ultimately show thesis using g(1,3,4) t(3,4) two(3) pgd cur by (intro that [of g t p]) auto
qed

section \<open>The running tasks\<close>

text \<open>What a step is in the abstract machine of \<open>Kernel_Steps\<close>.\<close>

definition view_event :: "process_event \<Rightarrow> kernel_event" where
  "view_event e = (case e of By_Kernel k \<Rightarrow> k | Forked \<Rightarrow> Created | _ \<Rightarrow> Computed)"

lemma grown_view:
  assumes iso: "isolated init g s" and cur: "current s \<noteq> init" and t: "task t = task s" "current t = current s"
    and gr: "grown s (current s) (fst (g (current s))) (va, q) t tab'"
  shows "view t = view s"
  using t grown_first [OF iso proc_current [OF iso cur] gr] by (intro view_same) (simp_all add: layout_defs)

lemma process_step_view:
  assumes "process_step im pb init s e t" and iso: "isolated init g s" and room: "room_for s e"
  shows "view_step init (view s) (view_event e) (view t)"
  using assms(1)
proof cases
  case (by_kernel k)
  then show ?thesis using kernel_step_refines [OF by_kernel(2) isolatedD(1) [OF iso]] by (simp add: view_event_def)
next
  case worked
  then have "view t = view s"
    using worked_mem(1) [OF iso worked(3,2)] by (intro view_same) (simp_all add: kernel_work_def layout_defs)
  then show ?thesis by (simp add: view_event_def worked(1) view_def)
next
  case (faulted a esr r)
  have u: "current s \<noteq> init" "mem s (current s + off_pgd) \<noteq> 0" and pr: "page_room s"
    using faulted(6) room faulted(1) by (simp_all add: user_current_def)
  obtain r' t' q tab' where f: "do_mem_abort a esr s = (r', t')" "current t' = current s" "task t' = task s"
    "grown s (current s) (fst (g (current s))) (a AND PAGE_MASK, q) t' tab'"
    by (rule fault_grows [OF iso u faulted(3,5,4) pr]) (rule that)
  then have "view t = view s" using grown_view [OF iso u(1)] faulted(2) by simp
  then show ?thesis by (simp add: view_event_def faulted(1) view_def)
next
  case (moved b n user_pc r)
  have pr: "page_room s" using room moved(1) by simp
  obtain t' q tab' where m: "move_to_user_mode (b + VA_START) n user_pc s = Inr (0, t')" "current t' = current s"
    "task t' = task s" "grown s (current s) (fst (g (current s))) (0, q) t' tab'"
    by (rule moved_grows [OF iso moved(6,7) pr moved(3-5)]) (rule that)
  then have "view t = view s" using grown_view [OF iso moved(6)] moved(2) by simp
  then show ?thesis by (simp add: view_event_def moved(1) view_def)
next
  case (forked fl fn arg r)
  have u: "current s \<noteq> init" "mem s (current s + off_pgd) \<noteq> 0" and fr: "fork_room s"
    using forked(4) room forked(1) by (simp_all add: user_current_def)
  obtain p M where p: "isolated init (g(p := M)) t" "p \<notin> procs init s" "procs init t = insert p (procs init s)"
    "current t = current s" "running t = insert p (running s)"
    by (rule forked_isolated [OF iso forked(2,3) u fr]) (rule that)
  have "p \<noteq> 0" "p \<noteq> init" using p(3) by (auto simp: procs_def)
  then have "p \<notin> running s" using p(2) by (auto simp: procs_def running_def)
  then show ?thesis using p(4,5) \<open>p \<noteq> 0\<close> by (auto simp: view_event_def forked(1) view_def)
next
  case (stored va v)
  have u: "current s \<noteq> init" "mem s (current s + off_pgd) \<noteq> 0" using stored(3) by (simp_all add: user_current_def)
  obtain x y where x: "x \<in> ran (snd (g (current s)))" "y < 4096" and t: "t = s\<lparr>mem := (mem s)(x + VA_START + y := v)\<rparr>"
    and c: "current s \<in> procs init s"
    by (rule user_store_page [OF iso u stored(2)])
  have "mem t (p + off_state) = mem s (p + off_state)" if "p \<in> set (task s)" "p \<noteq> 0" for p
    using page_not_struct [OF iso c _ that _ x(2), of x off_state] x(1) by (simp add: t layout_defs)
  then have "view t = view s" by (intro view_same) (simp_all add: t)
  then show ?thesis by (simp add: view_event_def stored(1) view_def)
qed

lemma process_reach_view:
  assumes "process_reach im pb init s es t" "isolated init g s" "roomy es"
  shows "view_reach init (view s) (map (view_event \<circ> snd) es) (view t)"
  using assms
proof (induction rule: process_reach.induct)
  case (2 s es t e u)
  then obtain g' where g: "isolated init g' t" using process_reach_isolated [OF 2(1,4)] by auto
  have "view_reach init (view s) (map (view_event \<circ> snd) es) (view t)" "room_for t e" using 2(3,4,5) by (simp_all add: o_def)
  then show ?case using view_more [OF _ process_step_view [OF 2(2) g]] by (simp add: o_def)
qed (simp add: view_refl)

section \<open>Properties\<close>

text \<open>
  C3. Isolation of the processes of lesson 6, as long as there is room for each step (\<open>room_for\<close>: five
  free pages and free entries in the task's arrays for a fault or a move to user mode, at most three
  pages and five free ones for each and an entry of \<open>task\<close> for a fork, a free page for a thread).
  Through any such sequence of timer interrupts, calls of
  \<open>schedule\<close>, creations and ends of tasks, work on the kernel stacks, page faults, moves to user
  mode, forks and stores of the processes, the invariant holds, two processes never reach the
  same word of memory by their page tables, whatever addresses they use, and none reaches the
  struct of a task. Such a run can start where \<open>kernel_main\<close> does (\<open>boot_isolated\<close>). Without room the
  code does not keep the processes apart: a fault with no free page for a table makes physical page 0 a table
  (\<open>map_table_out_of_memory\<close>).
\<close>

theorem processes_isolated:
  assumes "isolated init g s" and "process_reach im pb init s es t" and "\<forall>(u, e) \<in> set es. room_for u e"
    and "p \<in> procs init t" and "mem t (p + off_pgd) \<noteq> 0"
  shows "kernel_inv init t \<and>
    (\<forall>q \<in> procs init t. q \<noteq> p \<and> mem t (q + off_pgd) \<noteq> 0 \<longrightarrow>
      (\<forall>va va' x. page_walk t p va = Some x \<longrightarrow> page_walk t q va' \<noteq> Some x)) \<and>
    (\<forall>va x. page_walk t p va = Some x \<longrightarrow>
      (\<forall>q \<in> set (task t) - {0}. \<forall>off. unat off < 552 \<longrightarrow> x + VA_START \<noteq> q + off))"
proof -
  have "roomy es" using assms(3) by (simp add: roomy_def)
  then obtain g' where iso: "isolated init g' t" using process_reach_isolated assms(1,2) by blast
  have one: "page_walk t q va' \<noteq> Some x"
    if q: "q \<in> procs init t" "q \<noteq> p" "mem t (q + off_pgd) \<noteq> 0" and w: "page_walk t p va = Some x" for q va va' x
  proof
    assume w': "page_walk t q va' = Some x"
    obtain z y where z: "z \<in> ran (snd (g' p))" "y < 4096" "x = z + y" by (rule page_walk_own [OF iso assms(4,5) w])
    obtain z' y' where z': "z' \<in> ran (snd (g' q))" "y' < 4096" "x = z' + y'" by (rule page_walk_own [OF iso q(1,3) w'])
    note o = other_page [OF iso assms(4) q(1) q(2) [symmetric] z(1)]
    have "z' \<in> all_pages"
      using process_own [OF isolatedD(5) [OF iso q(1)]] z'(1) used_pages_subset [of t] by (auto simp: own_def)
    moreover have "z \<noteq> z'" using o(2) z'(1) by (auto simp: own_def)
    ultimately show False
      using page_offset_neq [OF all_pages_aligned [OF o(3)] all_pages_aligned _ z(2) z'(2)] z(3) z'(3) by metis
  qed
  have two: "x + VA_START \<noteq> q + off"
    if q: "q \<in> set (task t) - {0}" "unat off < 552" and w: "page_walk t p va = Some x" for q off va x
  proof -
    obtain z y where z: "z \<in> ran (snd (g' p))" "y < 4096" "x = z + y" by (rule page_walk_own [OF iso assms(4,5) w])
    then show ?thesis using page_not_struct [OF iso assms(4), of z q off y] q by (auto simp: ac_simps)
  qed
  show ?thesis using isolatedD(1) [OF iso] one two by blast
qed

theorem processes_isolated_witness:
  "\<exists>t p x y. process_reach example_image PBASE task_A fork_parent [(fork_parent, Forked)] t \<and>
    page_walk t p 0x1000 = Some x \<and> page_walk t task_B 0x1000 = Some y \<and> x \<noteq> y"
proof -
  obtain g t p where f: "isolated task_A g fork_parent" "process_step example_image PBASE task_A fork_parent Forked t" "p \<noteq> task_B"
    "procs task_A t = {p, task_B}" "\<exists>x. page_walk t p 0x1000 = Some x" "\<exists>x. page_walk t task_B 0x1000 = Some x"
    "mem t (p + off_pgd) \<noteq> 0" "mem t (task_B + off_pgd) \<noteq> 0" "fork_room fork_parent"
    by (rule fork_two_processes)
  have "process_reach example_image PBASE task_A fork_parent ([] @ [(fork_parent, Forked)]) t"
    by (rule process_reach.intros(2) [OF process_reach.intros(1) f(2)])
  then have run: "process_reach example_image PBASE task_A fork_parent [(fork_parent, Forked)] t" by simp
  have room: "\<forall>(u, e) \<in> set [(fork_parent, Forked)]. room_for u e" using f(9) by simp
  have "p \<in> procs task_A t" by (simp add: f(4))
  from processes_isolated [OF f(1) run room this f(7)] have "\<And>x. page_walk t p 0x1000 = Some x \<Longrightarrow> page_walk t task_B 0x1000 \<noteq> Some x"
    using f(3,4,8) by simp
  then show ?thesis using run f(5,6) by blast
qed

text \<open>
  C4. Non-interference, for one step with room for it (\<open>room_for\<close>) from a state that satisfies the invariant. A step leaves
  every process in the table. Only a page fault or the move to user mode changes what an address
  leads to, and only for the process that has the processor; in particular a process cannot
  write to its own page tables. Only these and a store of its own change what a process finds in
  its pages: interrupts, the scheduler, the creation, the fork and the end of tasks, and the
  steps of other processes do not.
\<close>

theorem step_leaves_others:
  assumes "isolated init g s" and "process_step im pb init s e t" and "room_for s e"
    and "p \<in> procs init s" and "mem s (p + off_pgd) \<noteq> 0"
  shows "p \<in> procs init t \<and>
    (p \<noteq> current s \<or> e \<notin> {Faulted, Moved} \<longrightarrow> (\<forall>va. page_walk t p va = page_walk s p va)) \<and>
    (p \<noteq> current s \<or> e \<notin> {Faulted, Moved, Stored} \<longrightarrow>
      (\<forall>va x. page_walk s p va = Some x \<longrightarrow> mem t (x + VA_START) = mem s (x + VA_START)))"
proof -
  obtain g' where iso: "isolated init g' t" and sub: "procs init s \<subseteq> procs init t"
    and alone: "p \<noteq> current s \<or> e \<notin> {Faulted, Moved, Stored} \<longrightarrow> left_alone g g' s t p" and st: "e = Stored \<longrightarrow> g' = g"
    using process_step_safe [OF assms(2,1,3)] assms(4) unfolding step_safe_def by blast
  have pt: "p \<in> procs init t" using sub assms(4) by blast
  note P = isolatedD(5) [OF assms(1,4)] and Q = isolatedD(5) [OF iso pt]
  have walk: "page_walk t p va = page_walk s p va" if "g' p = g p" for va
  proof -
    have "mem t (p + off_pgd) = mem s (p + off_pgd)"
      using process_pgd [OF P] process_pgd [OF Q] that by simp
    then show ?thesis
      using process_walk [OF P assms(5), of va] process_walk [OF Q, of va] assms(5) that by (simp add: page_walk_def)
  qed
  have "page_walk t p va = page_walk s p va" if "p \<noteq> current s \<or> e \<notin> {Faulted, Moved}" for va
    using that alone st by (intro walk) (auto simp: left_alone_def)
  moreover have "mem t (x + VA_START) = mem s (x + VA_START)"
    if quiet: "p \<noteq> current s \<or> e \<notin> {Faulted, Moved, Stored}" and x: "page_walk s p va = Some x" for va x
  proof -
    obtain z y where z: "z \<in> ran (snd (g p))" "y < 4096" "x = z + y" by (rule page_walk_own [OF assms(1,4,5) x])
    have "left_alone g g' s t p" using alone quiet by blast
    then have "mem t (z + VA_START + y) = mem s (z + VA_START + y)" using z(1,2) by (simp add: left_alone_def)
    then show ?thesis by (simp add: z(3) ac_simps)
  qed
  ultimately show ?thesis using pt by blast
qed

text \<open>The parent stores 7 at 0x1000; the child's page there stays.\<close>

theorem step_leaves_others_witness:
  "\<exists>t u p x. process_step example_image PBASE task_A t Stored u \<and> page_walk u p 0x1000 = Some x \<and>
    mem u (x + VA_START) = mem t (x + VA_START)"
proof -
  obtain g t p where f: "isolated task_A g fork_parent" "process_step example_image PBASE task_A fork_parent Forked t" "p \<noteq> task_B"
    "procs task_A t = {p, task_B}" "\<exists>x. page_walk t p 0x1000 = Some x" "\<exists>x. page_walk t task_B 0x1000 = Some x"
    "mem t (p + off_pgd) \<noteq> 0" "mem t (task_B + off_pgd) \<noteq> 0" "current t = task_B" "fork_room fork_parent"
    by (rule fork_two_processes)
  obtain g' where iso: "isolated task_A g' t" using process_step_safe [OF f(2,1)] f(10) by (auto simp: step_safe_def)
  have cur: "user_current task_A t" using f(8) tasks_AB by (simp add: user_current_def f(9))
  have "ttbr0_el1 (cpu t) = mem t (task_B + off_pgd)"
    using isolatedD(2) [OF iso] f(8) by (simp add: tracks_pgd_def f(9))
  then obtain u where "user_store 0x1000 7 t = Some u"
    using f(6) by (auto simp: user_store_def page_walk_def)
  then have st: "process_step example_image PBASE task_A t Stored u" using cur by (rule process_step.stored)
  obtain x where x: "page_walk t p 0x1000 = Some x" using f(5) by blast
  have "p \<in> procs task_A t" by (simp add: f(4))
  from step_leaves_others [OF iso st _ this f(7)] have "page_walk u p 0x1000 = Some x" "mem u (x + VA_START) = mem t (x + VA_START)"
    using f(3,9) x by auto
  with st show ?thesis by blast
qed

text \<open>
  C5. Progress of a process, in every state reached with room for each step in which one has the processor. Its store
  at an address its tables map is made, and is what it reads there next. A fault at an address of the lower
  half that is not mapped ends with the address mapped while there are 5 free pages and room in
  the record (what the handler then reports, -1 from the second fault on, is in \<open>do_mem_abort_spec\<close>).
  A fork is possible while it has at most 3 pages, the table an entry, and 5 pages are free for
  each of them and one more.
\<close>

theorem process_progress:
  assumes "isolated init g s" and "process_reach im pb init s es t" and "\<forall>(u, e) \<in> set es. room_for u e"
    and "user_current init t"
  shows "(\<forall>va v x. page_walk t (current t) va = Some x \<longrightarrow>
      (\<exists>u. process_step im pb init t Stored u \<and> page_walk u (current u) va = Some x \<and> mem u (x + VA_START) = v)) \<and>
    (\<forall>a < push_bit 48 1. page_room t \<and> page_walk t (current t) a = None \<longrightarrow>
      (\<exists>u x. process_step im pb init t Faulted u \<and> page_walk u (current u) a = Some x)) \<and>
    (fork_room t \<longrightarrow> (\<exists>u. process_step im pb init t Forked u))"
proof -
  have "roomy es" using assms(3) by (simp add: roomy_def)
  then obtain g' where iso: "isolated init g' t" using process_reach_isolated assms(1,2) by blast
  have u: "current t \<noteq> init" "mem t (current t + off_pgd) \<noteq> 0" using assms(4) by (simp_all add: user_current_def)
  have c: "current t \<in> procs init t" by (rule proc_current [OF iso u(1)])
  have tt: "ttbr0_el1 (cpu t) = mem t (current t + off_pgd)" using isolatedD(2) [OF iso] u(2) by (simp add: tracks_pgd_def)
  have store: "\<exists>w. process_step im pb init t Stored w \<and> page_walk w (current w) va = Some x \<and> mem w (x + VA_START) = v"
    if x: "page_walk t (current t) va = Some x" for va v x
  proof -
    let ?w = "t\<lparr>mem := (mem t)(x + VA_START := v)\<rparr>"
    have st: "user_store va v t = Some ?w" using x by (simp add: user_store_def page_walk_def tt)
    have iso': "isolated init g' ?w" by (rule stored_isolated [OF iso u st])
    have c': "current t \<in> procs init ?w" using c by (simp add: procs_def)
    note P = isolatedD(5) [OF iso c] and Q = isolatedD(5) [OF iso' c']
    have pgd: "mem ?w (current t + off_pgd) = mem t (current t + off_pgd)" using process_pgd [OF P] process_pgd [OF Q] by simp
    have "page_walk ?w (current t) va = page_walk t (current t) va"
      using process_walk [OF P u(2), of va] process_walk [OF Q, of va] u(2) unfolding page_walk_def pgd by simp
    then show ?thesis using process_step.stored [OF st assms(4)] x by (intro exI [of _ ?w]) simp
  qed
  have fault: "\<exists>w x. process_step im pb init t Faulted w \<and> page_walk w (current w) a = Some x"
    if a: "a < push_bit 48 1" "page_room t" "page_walk t (current t) a = None" for a
  proof -
    have tf: "translation_fault 4" by (simp add: translation_fault_def)
    have none: "user_walk (mem t) (ttbr0_el1 (cpu t)) a = None" using a(3) by (simp add: page_walk_def tt)
    obtain r w q tab' where w: "do_mem_abort a 4 t = (r, w)" "current w = current t" "task w = task t"
      "isolated init (g'(current t := with_page tab' (snd (g' (current t))) (a AND PAGE_MASK) q)) w"
      by (rule fault_grows [OF iso u tf none a(1,2)]) (rule that)
    have c': "current t \<in> procs init w" using c w(3) by (simp add: procs_def)
    note P = isolatedD(5) [OF w(4) c', unfolded fun_upd_same]
    have sp: "addr_space w (current t) tab' ((snd (g' (current t)))(vpn (a AND PAGE_MASK) \<mapsto> q))"
      using P by (simp add: process_def with_page_def)
    then have "mem w (current t + off_pgd) \<noteq> 0" by (auto simp: addr_space_def split: if_splits)
    from process_walk [OF P this, of a] have "page_walk w (current w) a = Some (q + (a AND mask PAGE_SHIFT))"
      by (simp add: page_walk_def with_page_def vpn_page_mask w(2))
    then show ?thesis using process_step.faulted [OF w(1) tf a(1) none assms(4)] by blast
  qed
  have fork: "\<exists>w. process_step im pb init t Forked w" if room: "fork_room t"
  proof -
    have fl: "(0 :: u64) AND PF_KTHREAD = 0" by simp
    obtain w where "copy_process im 0 0 0 t = Inr (int (nr_tasks t), w)"
      using fork_run_full [OF process_forkable [OF iso u room] fl refl, of im 0 0] by (elim exE conjE) (rule that)
    then show ?thesis using process_step.forked [OF _ fl assms(4)] by blast
  qed
  show ?thesis
  proof (intro conjI allI impI)
    show "\<exists>u. process_step im pb init t Stored u \<and> page_walk u (current u) va = Some x \<and> mem u (x + VA_START) = v"
      if "page_walk t (current t) va = Some x" for va v x
      using that by (rule store)
    show "\<exists>u x. process_step im pb init t Faulted u \<and> page_walk u (current u) a = Some x"
      if "a < push_bit 48 1" "page_room t \<and> page_walk t (current t) a = None" for a
      by (rule fault [OF that(1) conjunct1 [OF that(2)] conjunct2 [OF that(2)]])
  qed (rule fork)
qed

theorem process_progress_witness:
  "\<exists>u. process_step example_image PBASE task_A fork_parent Forked u"
proof -
  obtain g where g: "isolated task_A g fork_parent" "user_current task_A fork_parent" "fork_room fork_parent"
    by (rule fork_parent_isolated)
  have "\<forall>(u, e) \<in> set []. room_for u e" by simp
  from process_progress [OF g(1) process_reach.intros(1) this g(2), of example_image PBASE] g(3) show ?thesis by blast
qed

text \<open>
  C15. The kernel and the processes of lesson 6 implement an abstract machine whose state is the set of
  running tasks and the task that has the processor. While there is room for each step (\<open>room_for\<close>),
  a run from a state that satisfies the invariant is, event by event, a run of that machine: a
  timer interrupt and \<open>schedule\<close> give the processor to a running task, a created thread and a
  forked process join the running tasks, an ended one leaves them, and faults, moves to user mode, stores and
  work on the kernel stack change neither. A creation that is refused for lack of a page changes neither; the
  run ends there, as the task is not preempted any more.
\<close>

theorem kernel_refines_view:
  assumes "isolated init g s" and "process_reach im pb init s es t" and "\<forall>(u, e) \<in> set es. room_for u e"
  shows "view_reach init (view s) (map (view_event \<circ> snd) es) (view t) \<and>
    (\<forall>u. process_step im pb init t (By_Kernel Refused) u \<longrightarrow> view u = view t)"
proof -
  have room: "roomy es" using assms(3) by (simp add: roomy_def)
  obtain g' where iso: "isolated init g' t" using process_reach_isolated [OF assms(2,1) room] by blast
  have "view u = view t" if "process_step im pb init t (By_Kernel Refused) u" for u
  proof -
    from that have "kernel_step im pb init t Refused u" by cases
    from kernel_step_refines [OF this isolatedD(1) [OF iso]] show ?thesis by (simp add: view_def)
  qed
  then show ?thesis using process_reach_view [OF assms(2,1) room] by blast
qed

text \<open>A process forks.\<close>

theorem kernel_refines_view_witness:
  "\<exists>t. process_reach example_image PBASE task_A fork_parent [(fork_parent, Forked)] t \<and>
    view_reach task_A ({task_A, task_B}, task_B) [Created] (view t)"
proof -
  obtain g t p where f: "isolated task_A g fork_parent" "process_step example_image PBASE task_A fork_parent Forked t" "p \<noteq> task_B"
    "procs task_A t = {p, task_B}" "current fork_parent = task_B" "fork_room fork_parent"
    by (rule fork_two_processes)
  have "process_reach example_image PBASE task_A fork_parent ([] @ [(fork_parent, Forked)]) t"
    by (rule process_reach.intros(2) [OF process_reach.intros(1) f(2)])
  then have run: "process_reach example_image PBASE task_A fork_parent [(fork_parent, Forked)] t" by simp
  have room: "\<forall>(u, e) \<in> set [(fork_parent, Forked)]. room_for u e" using f(6) by simp
  have "view fork_parent = ({task_A, task_B}, task_B)" by (rule fork_parent_view)
  then show ?thesis
    using kernel_refines_view [OF f(1) run room] run by (auto simp: view_event_def)
qed

end
