(* ===== verification/Spec2Isabelle.thy ===== *)
theory Spec2Isabelle
  imports
    Printf Mini_Uart Kernel_State Page_Alloc Page_Tables Address_Space Virtual_Memory
    Copy_Virt Sched Sched_Choice Sched_Fair Sched_Props Fork Fork_Props Fork_User Fork_Lessons
    Fork_Mode Timer_Irq Syscalls Entry Entry_Props Lessons User_Programs Boot Kernel_Main
    Main_Props Syscall_Props Page_Map Kernel_Steps Isolation Process_Steps
begin

text \<open>
  OSDIg is a small operating system for the Raspberry Pi 3, written in C and AArch64 assembly
  as six lessons (\<open>src/l1_Kernel_Initialization\<close> to \<open>src/l6_Virtual_Memory_Management\<close>): each
  directory is a whole kernel, the later ones grown from the earlier. This library models the
  kernel of lesson 6 function by function, and those of the lessons before where they
  differ: a definition of an earlier lesson ends in \<open>_l1\<close> to \<open>_l5\<close> (\<open>_l4\<close> also stands for lesson
  3 where \<open>irq.c\<close> is the same). A file that is the same in several lessons is modelled once.

  \<^bold>\<open>The parts and how they interact.\<close> \<open>boot.S\<close> brings core 0 down to EL1, builds the kernel's
  page tables and enters \<open>kernel_main\<close>, which sets up the mini UART, the timer and the
  interrupt controller, creates a first thread with \<open>copy_process\<close> and calls \<open>schedule\<close> for ever.
  The thread moves itself to user mode (\<open>move_to_user_mode\<close>). From then on the kernel is entered
  by exceptions (\<open>entry.S\<close>): a timer interrupt (\<open>handle_irq\<close>, \<open>timer_tick\<close>, \<open>_schedule\<close>, \<open>switch_to\<close>), a
  system call (\<open>sys_write\<close>, \<open>sys_fork\<close>, \<open>sys_exit\<close>) or a data abort (\<open>do_mem_abort\<close>, which maps a
  page on demand). Pages come from \<open>get_free_page\<close>; \<open>map_page\<close> enters them into the page tables
  of a task; \<open>copy_virt_memory\<close> copies the pages of a parent for \<open>fork\<close>.

  \<^bold>\<open>State.\<close> The record \<open>kernel\<close> (\<open>Kernel_State\<close>) holds the global variables of the C files
  (\<open>current\<close>, \<open>task\<close>, \<open>nr_tasks\<close>, \<open>mem_map\<close>, \<open>curVal\<close>, \<open>ind\<close>), the registers the kernel touches
  (\<open>cpu\<close>), the devices (\<open>dev\<close>) and memory, a map from the address of a doubleword to its value.
  The structs live in memory at the offsets the C ABI gives them: aliasing, overflow of their
  arrays and stale contents of pages are part of the model. \<open>load_task\<close> and \<open>task_words\<close> relate
  them to records. What C or the MMU leaves undefined is a value of type \<open>fault\<close> (the overflow of an
  \<open>int\<close> in \<open>printf.c\<close> aside, which wraps around); an endless loop
  is \<open>None\<close>, \<open>Hangs\<close> or \<open>No_Result\<close>.

  \<^bold>\<open>The theories.\<close>
  \<^item> \<open>OS_Prelude\<close>: machine types, the fault result, 32-bit accesses, pages, runs of doublewords.
  \<^item> \<open>Printf\<close> (\<open>printf.c\<close>): number conversion, widths, the format loop, over any output function;
    the locales \<open>char_sink\<close> and \<open>live_sink\<close> are the contract of such a function, interpreted for
    \<open>sprintf\<close>'s buffer and for the UART. \<open>sprintf_text\<close> is equivalence with a specification of the
    formats.
  \<^item> \<open>Mini_Uart\<close> (\<open>mini_uart.c\<close>, \<open>utils.S\<close>, the register headers): the driver over a log of register
    accesses. The value of each read is given by the environment, so that every claim that a
    polling loop ends names the condition under which it does (\<open>line_ready\<close>). \<open>Lessons\<close>: the
    drivers of lessons 1 to 5 are those of lesson 6 at another address.
  \<^item> \<open>Page_Alloc\<close> (\<open>mm.c\<close>, \<open>mm.S\<close>): the locale \<open>page_allocator\<close> is the contract of the allocator,
    interpreted for lessons 4/5 and lesson 6.
  \<^item> \<open>Page_Tables\<close>, \<open>Address_Space\<close>, \<open>Virtual_Memory\<close>, \<open>Copy_Virt\<close> (\<open>mm.c\<close>, \<open>arm/mmu.h\<close>): the page
    table code against the hardware's walk \<open>mmu_walk\<close>; the specification is an address space, a
    partial map from page numbers to pages, which \<open>map_page\<close> updates at one point.
  \<^item> \<open>Sched\<close>, \<open>Sched_Choice\<close>, \<open>Sched_Fair\<close>, \<open>Sched_Props\<close> (\<open>sched.c\<close>, \<open>sched.S\<close>): the choice of the
    next task and the context switch. The locale \<open>context_switch\<close> is what \<open>switch_to\<close> promises, it
    is a sublocale of \<open>scheduler\<close>, what \<open>_schedule\<close> promises, and both are interpreted for lessons
    4, 5 and 6; the invariant \<open>sched_inv\<close> and the bound on waiting are proved in the locale.
  \<^item> \<open>Fork\<close>, \<open>Fork_Props\<close>, \<open>Fork_User\<close>, \<open>Fork_Lessons\<close>, \<open>Fork_Mode\<close> (\<open>fork.c\<close>): creation of kernel threads
    and copies of user processes, the move to user mode, and every failure.
  \<^item> \<open>Timer_Irq\<close> (\<open>timer.c\<close>, \<open>irq.c\<close>, \<open>irq.S\<close>), \<open>Syscalls\<close> (\<open>sys.c\<close>), \<open>Entry\<close> and \<open>Entry_Props\<close>
    (\<open>entry.S\<close>, \<open>entry.h\<close>), \<open>Syscall_Props\<close>: interrupts and exceptions from the vector to the return,
    in terms of what the interrupted code sees.
  \<^item> \<open>User_Programs\<close> (\<open>user.c\<close>, \<open>user_sys.S\<close>): the user programs as trees of the calls they make.
  \<^item> \<open>Boot\<close> (\<open>boot.S\<close>, \<open>arm/sysregs.h\<close>), \<open>Kernel_Main\<close> and \<open>Main_Props\<close> (\<open>kernel.c\<close>): from reset to the
    first user process. \<open>Boot\<close> also justifies the linear map the other theories assume.
  \<^item> \<open>Page_Map\<close>: the type of \<open>mem_map\<close>, kept by every function of lessons 4 to 6 that could change it.
  \<^item> \<open>Kernel_Steps\<close>: the kernel and its threads as a step relation, with an invariant of every state
    reached without a refused creation, and an abstract machine of running tasks.
  \<^item> \<open>Isolation\<close>, \<open>Process_Steps\<close>: the kernel of lesson 6 together with its user processes. The
    invariant \<open>isolated\<close> gives each task its page tables and its address space, with no page in
    two of them. Each function of the code keeps it while there is room for what it does (\<open>room_for\<close>:
    free pages, entries of the arrays; the code does not check for them). In a run with room for
    each step two processes never reach the same memory, a step for one leaves the others alone,
    a process can go on, and the run is one of the abstract machine.

  \<^bold>\<open>What the properties show.\<close> Memory: \<open>map_page\<close> is the update of a partial map at one page, for
  one task only; a forked child has copies of its parent's pages; processes are isolated in
  every run with room for its steps. Tasks: \<open>_schedule\<close> returns exactly when a task can be chosen or none runs, chooses
  the task with the largest counter, and starves none; creation, exit and the two returns of
  \<open>fork\<close> do what the lessons say. Entry: the kernel gives back the registers it was entered with,
  system calls and faults on every branch. Start: boot's tables are the linear map the rest
  assumes, and lesson 6 comes up as far as its first user process. The errors of the code (no page left, full tables, the second
  fault, a bad system call) are properties too.

  \<^bold>\<open>Bounds and fuel.\<close> \<open>NR_TASKS\<close>, \<open>MAX_PROCESS_PAGES\<close> and \<open>PAGING_PAGES\<close> are those of the code.
  Loops that end are total functions with a termination proof; loops that may not are
  \<open>partial_function\<close>s, and the properties say when they return. Where the code loops for ever
  on purpose (the echo, \<open>process\<close>, the user programs) the model follows it for any number of
  turns, given as an argument, and the properties hold for every number.

  \<^bold>\<open>Parameters.\<close> The replies of the devices (\<open>world\<close>), the addresses the linker gives to labels
  (\<open>image\<close>, \<open>boot_image\<close>) and, in \<open>Kernel_Steps\<close> and \<open>Process_Steps\<close>, what tasks compute between two
  events: \<open>kernel_work\<close> is any change of the registers, the devices and the kernel stack of the
  current task (the entry and exit code is of this kind: \<open>entry_works\<close>, \<open>exit_works\<close>),
  \<open>user_store\<close> a store that the MMU translates.

  \<^bold>\<open>Not modelled.\<close> The translation lookaside buffers and barriers (\<open>tlbi\<close>, \<open>dsb\<close>, \<open>isb\<close>), caches, the
  other three cores, which hang in \<open>proc_hang\<close>; preemption inside the kernel between two
  instructions: an interrupt is a step between the operations. What C functions leave in
  caller-saved registers and below the frame on the kernel stack, which \<open>kernel_exit\<close> overwrites or
  nobody reads. The \<open>PRINTF_LONG_SUPPORT\<close> branches, which are not compiled. The linker scripts and
  makefiles hold no operation; their effect is the parameters above. Header files of
  prototypes and include guards declare what is defined elsewhere.
\<close>

end
